(* ===== verification/Prelude.thy ===== *)
theory Prelude
  imports Main "HOL-Library.Word" "HOL-Library.AList" "HOL-Library.List_Lexorder" "HOL-Library.Char_ord"
begin

text \<open>
  Shared vocabulary of the development: the machine types of the Go code, the error values
  that its functions return, and the generic facts on lists, words and association lists
  that the components share.

  Go integers keep their width: \<open>uint8\<close>, \<open>uint32\<close> and \<open>uint64\<close> are words, so that addition
  and subtraction wrap as in the code. A Go \<open>string\<close> and a Go \<open>[]byte\<close> are both byte
  lists; a Go \<open>map\<close> that the code iterates over is an association list with distinct keys,
  whose order stands for the (unspecified) iteration order.
\<close>

type_synonym byte = "8 word"
type_synonym u32 = "32 word"
type_synonym u64 = "64 word"
type_synonym bytes = "byte list"

named_theorems codec_simps \<open>lengths and round trips of the byte codecs\<close>
named_theorems fs_simps \<open>what a file operation leaves of the file system\<close>

subsection \<open>Error values\<close>

text \<open>
  One constructor per class of error that the code distinguishes, or whose message tells
  apart for the reader. \<open>Panic\<close> is a Go run-time panic (index out of range, explicit panic).
\<close>

datatype err =
    ErrIO
  | ErrExist
  | ErrNotExist
  | Panic
  | ErrWALFailed
  | ErrLogFailed
  | ErrCommandTruncated
  | ErrUnknownOp
  | ErrCommandKeyTruncated
  | ErrCommandValueLength
  | ErrUnrecognizedFile
  | ErrCorruptSegment nat
  | ErrSequenceGap u64 u64
  | ErrSnapTooShort
  | ErrSnapChecksum
  | ErrSnapMagic
  | ErrSnapTruncated u64
  | ErrSnapTrailing
  | ErrSnapSeq
  | ErrStateSize
  | ErrStateChecksum
  | ErrStateMagic
  | ErrLogStart u64
  | ErrLogJump u64 u64
  | ErrNonContiguous u64 u64
  | ErrConfTruncated
  | ErrConfLength
  | ErrConfOp
  | ErrMembersTruncated
  | ErrConfigTruncated
  | ErrNodeID
  | ErrPeerSelf
  | ErrTruncateCommitted u64 u64
  | ErrPersist
  | ErrNotLeader u64
  | ErrChangeInFlight
  | ErrAlreadyMember
  | ErrNotMember
  | ErrLeaderNotReady
  | ErrCompactBeyondApplied
  | ErrProposalLost
  | ErrStopped
  | ErrContext
  | ErrEnvelopeTruncated
  | ErrGob
  | ErrShardCount int
  | ErrShardPin
  | ErrShardMismatch int int
  | ErrNoAddress "64 word"
  | ErrMemberSpec string
  | ErrMemberID string
  | ErrSelfMissing "64 word"

abbreviation is_ok :: "'e + 'a \<Rightarrow> bool" where
  "is_ok r \<equiv> (\<exists>x. r = Inr x)"

text \<open>Go's \<open>if err := f(); err != nil { return err }\<close> over explicit state.\<close>

definition and_then :: "err option \<times> 's \<Rightarrow> ('s \<Rightarrow> err option \<times> 's) \<Rightarrow> err option \<times> 's" where
  "and_then r k = (case r of (None, s) \<Rightarrow> k s | (Some e, s) \<Rightarrow> (Some e, s))"

lemma and_then_simps [simp]:
  "and_then (None, s) k = k s"
  "and_then (Some e, s) k = (Some e, s)"
  by (simp_all add: and_then_def)

text \<open>A loop over a list whose body may return an error.\<close>

fun fold_err :: "('r \<Rightarrow> 'a \<Rightarrow> err + 'a) \<Rightarrow> 'r list \<Rightarrow> 'a \<Rightarrow> err + 'a" where
  "fold_err step [] a = Inr a"
| "fold_err step (r # rs) a = (case step r a of Inl e \<Rightarrow> Inl e | Inr a' \<Rightarrow> fold_err step rs a')"

lemma fold_err_append:
  "fold_err step (rs @ rs') a = (case fold_err step rs a of Inl e \<Rightarrow> Inl e | Inr a' \<Rightarrow> fold_err step rs' a')"
  by (induction rs arbitrary: a) (auto split: sum.splits)

subsection \<open>Lists\<close>

lemma take_append_exact [simp]: "length xs = n \<Longrightarrow> take n (xs @ ys) = xs"
  by simp

lemma drop_append_exact [simp]: "length xs = n \<Longrightarrow> drop n (xs @ ys) = ys"
  by simp

lemma take_strict_prefix_split:
  "n \<le> length xs \<Longrightarrow> take n (xs @ ys) = take n xs"
  by simp

subsection \<open>Association lists as Go maps\<close>

abbreviation keys :: "('k \<times> 'v) list \<Rightarrow> 'k list" where
  "keys m \<equiv> map fst m"

lemma map_of_update [simp]: "map_of (AList.update k v m) = (map_of m)(k \<mapsto> v)"
  by (simp add: update_conv')

lemma map_of_AList_delete [simp]: "map_of (AList.delete k m) = (map_of m)(k := None)"
  by (simp add: delete_conv')

lemma distinct_keys_update [intro, simp]: "distinct (keys m) \<Longrightarrow> distinct (keys (AList.update k v m))"
  by (rule distinct_update)

lemma distinct_keys_delete [intro, simp]: "distinct (keys m) \<Longrightarrow> distinct (keys (AList.delete k m))"
  by (rule distinct_delete)

subsection \<open>Words\<close>

lemma unat_u32_less: "unat (w::u32) < 2 ^ 32"
  using unsigned_less [where 'a = nat, of w] by simp

lemma unat_u64_less: "unat (w::u64) < 2 ^ 64"
  using unsigned_less [where 'a = nat, of w] by simp

lemma drop_split: "drop i xs = take n (drop i xs) @ drop (n + i) xs"
  by (simp flip: drop_drop)

lemma unat_succ: "unat (x :: u64) + 1 < 2 ^ 64 \<Longrightarrow> unat (x + 1) = unat x + 1"
  by (simp add: unat_word_ariths)

lemma unat_plus_one: "(x::'a::len word) < - 1 \<Longrightarrow> unat (x + 1) = unat x + 1"
  by unat_arith

end
