(* ===== verification/Bytes.thy ===== *)
theory Bytes
  imports Prelude
begin

text \<open>
  The parts of Go's standard library that fix the byte formats of the code:
  \<^verbatim>\<open>encoding/binary\<close> (little-endian integers), \<^verbatim>\<open>hash/crc32\<close> with the Castagnoli
  polynomial, \<^verbatim>\<open>hash/fnv\<close> (64-bit FNV-1a), and the decimal file names of \<^verbatim>\<open>fmt\<close> and
  \<^verbatim>\<open>strconv\<close>. Each is a total executable function; the code checks lengths before it reads.
\<close>

unbundle bit_operations_syntax

subsection \<open>Little-endian integers (encoding/binary)\<close>

definition le32 :: "u32 \<Rightarrow> bytes" where
  "le32 w = [ucast w, ucast (drop_bit 8 w), ucast (drop_bit 16 w), ucast (drop_bit 24 w)]"

definition le64 :: "u64 \<Rightarrow> bytes" where
  "le64 w = [ucast w, ucast (drop_bit 8 w), ucast (drop_bit 16 w), ucast (drop_bit 24 w),
             ucast (drop_bit 32 w), ucast (drop_bit 40 w), ucast (drop_bit 48 w), ucast (drop_bit 56 w)]"

definition get32 :: "bytes \<Rightarrow> u32" where
  "get32 b = ucast (b ! 0) OR push_bit 8 (ucast (b ! 1)) OR push_bit 16 (ucast (b ! 2))
             OR push_bit 24 (ucast (b ! 3))"

definition get64 :: "bytes \<Rightarrow> u64" where
  "get64 b = ucast (b ! 0) OR push_bit 8 (ucast (b ! 1)) OR push_bit 16 (ucast (b ! 2))
             OR push_bit 24 (ucast (b ! 3)) OR push_bit 32 (ucast (b ! 4)) OR push_bit 40 (ucast (b ! 5))
             OR push_bit 48 (ucast (b ! 6)) OR push_bit 56 (ucast (b ! 7))"

lemma length_le32 [simp, codec_simps]: "length (le32 w) = 4"
  by (simp add: le32_def)

lemma length_le64 [simp, codec_simps]: "length (le64 w) = 8"
  by (simp add: le64_def)

lemma get32_le32 [simp, codec_simps]: "get32 (le32 w @ b) = w"
proof (rule bit_eqI)
  fix n assume "possible_bit TYPE(u32) n"
  then have "n < 32" by simp
  then consider "n < 8" | "8 \<le> n" "n < 16" | "16 \<le> n" "n < 24" | "24 \<le> n" "n < 32" by linarith
  then show "bit (get32 (le32 w @ b)) n = bit w n"
    by cases (auto simp: get32_def le32_def bit_simps)
qed

lemma get64_le64 [simp, codec_simps]: "get64 (le64 w @ b) = w"
proof (rule bit_eqI)
  fix n assume "possible_bit TYPE(u64) n"
  then have "n < 64" by simp
  then consider "n < 8" | "8 \<le> n" "n < 16" | "16 \<le> n" "n < 24" | "24 \<le> n" "n < 32"
    | "32 \<le> n" "n < 40" | "40 \<le> n" "n < 48" | "48 \<le> n" "n < 56" | "56 \<le> n" "n < 64" by linarith
  then show "bit (get64 (le64 w @ b)) n = bit w n"
    by cases (auto simp: get64_def le64_def bit_simps)
qed

lemma get32_le32' [simp, codec_simps]: "get32 (le32 w) = w"
  using get32_le32 [of w "[]"] by simp

lemma get64_le64' [simp, codec_simps]: "get64 (le64 w) = w"
  using get64_le64 [of w "[]"] by simp

lemma get32_take: "4 \<le> n \<Longrightarrow> get32 (take n b) = get32 b"
  by (simp add: get32_def)

lemma get64_take: "8 \<le> n \<Longrightarrow> get64 (take n b) = get64 b"
  by (simp add: get64_def)

lemma nth_four: "4 \<le> length b \<Longrightarrow> take 4 b = [b ! 0, b ! 1, b ! 2, b ! 3]"
  by (auto simp: numeral_eq_Suc Suc_le_length_iff)

lemma nth_eight:
  "8 \<le> length b \<Longrightarrow> take 8 b = [b ! 0, b ! 1, b ! 2, b ! 3, b ! 4, b ! 5, b ! 6, b ! 7]"
  by (auto simp: numeral_eq_Suc Suc_le_length_iff)

lemma bit_byte_beyond: "8 \<le> n \<Longrightarrow> \<not> bit (b::byte) n"
  by (auto dest: bit_imp_le_length)

text \<open>Reading is injective on the bytes read: writing back what was read restores them.\<close>

lemma le32_get32: "4 \<le> length b \<Longrightarrow> le32 (get32 b) = take 4 b"
  by (simp add: nth_four le32_def get32_def) (auto intro!: bit_eqI simp: bit_simps bit_byte_beyond)

lemma le64_get64: "8 \<le> length b \<Longrightarrow> le64 (get64 b) = take 8 b"
  by (simp add: nth_eight le64_def get64_def) (auto intro!: bit_eqI simp: bit_simps bit_byte_beyond)

text \<open>Go's \<open>uint32(len(x))\<close>.\<close>

abbreviation len32 :: "'a list \<Rightarrow> u32" where
  "len32 xs \<equiv> word_of_nat (length xs)"

abbreviation len64 :: "'a list \<Rightarrow> u64" where
  "len64 xs \<equiv> word_of_nat (length xs)"

lemma unat_len32 [simp]: "length xs < 2 ^ 32 \<Longrightarrow> unat (len32 xs) = length xs"
  by (simp add: unat_of_nat)

lemma unat_len64 [simp]: "length xs < 2 ^ 64 \<Longrightarrow> unat (len64 xs) = length xs"
  by (simp add: unat_of_nat)

subsection \<open>CRC32-C (hash/crc32)\<close>

definition castagnoli_poly :: u32 where
  "castagnoli_poly = 0x82F63B78"

definition crc_bit :: "u32 \<Rightarrow> u32" where
  "crc_bit c = (if c AND 1 = 1 then drop_bit 1 c XOR castagnoli_poly else drop_bit 1 c)"

definition crc_byte :: "u32 \<Rightarrow> byte \<Rightarrow> u32" where
  "crc_byte c b = (crc_bit ^^ 8) (c XOR ucast b)"

text \<open>\<open>crc32.Update\<close>: the register is complemented on the way in and on the way out.\<close>

definition crc_update :: "u32 \<Rightarrow> bytes \<Rightarrow> u32" where
  "crc_update crc b = NOT (foldl crc_byte (NOT crc) b)"

lemma crc_update_append: "crc_update c (a @ b) = crc_update (crc_update c a) b"
  by (simp add: crc_update_def)

lemma crc_update_Nil [simp]: "crc_update c [] = c"
  by (simp add: crc_update_def)

subsection \<open>FNV-1a (hash/fnv)\<close>

definition fnv1a64 :: "bytes \<Rightarrow> u64" where
  "fnv1a64 = foldl (\<lambda>h b. (h XOR ucast b) * 1099511628211) 14695981039346656037"

end
