(* ===== verification/Files.thy ===== *)
theory Files
  imports Bytes
begin

text \<open>
  The file system as the durable code sees it: the operations of Go's \<^verbatim>\<open>os\<close> package that
  the repository calls, over an association list from paths to files.

  A file has its bytes and the length of the prefix that an \<open>fsync\<close> made durable. Every
  operation first takes the next entry of the fault schedule \<open>faults\<close>: \<open>None\<close> lets it
  succeed, \<open>Some n\<close> makes it fail, where \<open>n\<close> bounds what a failed write (or the flush of a
  failed sync) still got to disk. An exhausted schedule means no more faults. A crash of the
  machine keeps the durable prefix of every file and an arbitrary part of the rest, and what
  it keeps is on disk; a kill of the process alone loses nothing that was written. A fault
  followed by a crash or a kill stands for a crash inside an operation.
  Directory entries are taken to be durable once made (what \<open>SyncDir\<close> is for).
\<close>

type_synonym path = "string \<times> string"

record fnode =
  fdata :: bytes
  fsynced :: nat

record fs =
  files :: "(path \<times> fnode) list"
  faults :: "nat option list"
  windows :: bool

definition new_file :: fnode where
  "new_file = \<lparr>fdata = [], fsynced = 0\<rparr>"

definition lookup :: "fs \<Rightarrow> path \<Rightarrow> fnode option" where
  "lookup s p = map_of (files s) p"

definition contents :: "fs \<Rightarrow> path \<Rightarrow> bytes option" where
  "contents s p = map_option fdata (lookup s p)"

text \<open>A file is stable when everything in it has been synced.\<close>

definition stable :: "fs \<Rightarrow> path \<Rightarrow> bool" where
  "stable s p = (case lookup s p of None \<Rightarrow> True | Some f \<Rightarrow> fsynced f = length (fdata f))"

definition next_fault :: "fs \<Rightarrow> nat option \<times> fs" where
  "next_fault s = (case faults s of [] \<Rightarrow> (None, s) | x # xs \<Rightarrow> (x, s\<lparr>faults := xs\<rparr>))"

definition put_file :: "path \<Rightarrow> fnode \<Rightarrow> fs \<Rightarrow> fs" where
  "put_file p f s = s\<lparr>files := AList.update p f (files s)\<rparr>"

definition drop_file :: "path \<Rightarrow> fs \<Rightarrow> fs" where
  "drop_file p s = s\<lparr>files := AList.delete p (files s)\<rparr>"

definition upd_file :: "path \<Rightarrow> (fnode \<Rightarrow> fnode) \<Rightarrow> fs \<Rightarrow> fs" where
  "upd_file p g s = (case lookup s p of None \<Rightarrow> s | Some f \<Rightarrow> put_file p (g f) s)"

subsection \<open>The operations\<close>

text \<open>An operation without any effect on the files: \<open>Close\<close>, \<open>MkdirAll\<close>, opening a directory.\<close>

definition os_noop :: "fs \<Rightarrow> err option \<times> fs" where
  "os_noop s = (case next_fault s of (None, s1) \<Rightarrow> (None, s1) | (Some n, s1) \<Rightarrow> (Some ErrIO, s1))"

definition os_read :: "path \<Rightarrow> fs \<Rightarrow> (err + bytes) \<times> fs" where
  "os_read p s = (case next_fault s of
     (Some n, s1) \<Rightarrow> (Inl ErrIO, s1)
   | (None, s1) \<Rightarrow> (case lookup s1 p of None \<Rightarrow> (Inl ErrNotExist, s1) | Some f \<Rightarrow> (Inr (fdata f), s1)))"

text \<open>\<open>OpenFile\<close> with \<open>O_CREATE|O_TRUNC|O_WRONLY\<close>, \<open>O_CREATE|O_EXCL|O_WRONLY\<close>,
  \<open>O_WRONLY|O_APPEND\<close> and \<open>O_CREATE|O_WRONLY|O_APPEND\<close>.\<close>

definition os_create_trunc :: "path \<Rightarrow> fs \<Rightarrow> err option \<times> fs" where
  "os_create_trunc p s = (case next_fault s of
     (Some n, s1) \<Rightarrow> (Some ErrIO, s1)
   | (None, s1) \<Rightarrow> (None, put_file p new_file s1))"

definition os_create_excl :: "path \<Rightarrow> fs \<Rightarrow> err option \<times> fs" where
  "os_create_excl p s = (case next_fault s of
     (Some n, s1) \<Rightarrow> (Some ErrIO, s1)
   | (None, s1) \<Rightarrow> (case lookup s1 p of
        Some f \<Rightarrow> (Some ErrExist, s1)
      | None \<Rightarrow> (None, put_file p new_file s1)))"

definition os_open_append :: "path \<Rightarrow> fs \<Rightarrow> err option \<times> fs" where
  "os_open_append p s = (case next_fault s of
     (Some n, s1) \<Rightarrow> (Some ErrIO, s1)
   | (None, s1) \<Rightarrow> (case lookup s1 p of None \<Rightarrow> (Some ErrNotExist, s1) | Some f \<Rightarrow> (None, s1)))"

definition os_create_append :: "path \<Rightarrow> fs \<Rightarrow> err option \<times> fs" where
  "os_create_append p s = (case next_fault s of
     (Some n, s1) \<Rightarrow> (Some ErrIO, s1)
   | (None, s1) \<Rightarrow> (case lookup s1 p of
        Some f \<Rightarrow> (None, s1)
      | None \<Rightarrow> (None, put_file p new_file s1)))"

text \<open>A failed \<open>Write\<close> leaves a prefix of the data; a failed \<open>Sync\<close> may lose the part of
  the file that was not durable yet.\<close>

definition os_write :: "path \<Rightarrow> bytes \<Rightarrow> fs \<Rightarrow> err option \<times> fs" where
  "os_write p b s = (case next_fault s of
     (Some n, s1) \<Rightarrow> (Some ErrIO, upd_file p (\<lambda>f. f\<lparr>fdata := fdata f @ take n b\<rparr>) s1)
   | (None, s1) \<Rightarrow> (None, upd_file p (\<lambda>f. f\<lparr>fdata := fdata f @ b\<rparr>) s1))"

definition os_sync :: "path \<Rightarrow> fs \<Rightarrow> err option \<times> fs" where
  "os_sync p s = (case next_fault s of
     (Some n, s1) \<Rightarrow> (Some ErrIO, upd_file p (\<lambda>f. f\<lparr>fdata := take (fsynced f + n) (fdata f)\<rparr>) s1)
   | (None, s1) \<Rightarrow> (None, upd_file p (\<lambda>f. f\<lparr>fsynced := length (fdata f)\<rparr>) s1))"

definition os_truncate :: "path \<Rightarrow> nat \<Rightarrow> fs \<Rightarrow> err option \<times> fs" where
  "os_truncate p n s = (case next_fault s of
     (Some _, s1) \<Rightarrow> (Some ErrIO, s1)
   | (None, s1) \<Rightarrow> (case lookup s1 p of
        None \<Rightarrow> (Some ErrNotExist, s1)
      | Some f \<Rightarrow> (None, put_file p (f\<lparr>fdata := take n (fdata f) @ replicate (n - length (fdata f)) 0,
                                     fsynced := min n (fsynced f)\<rparr>) s1)))"

definition os_rename :: "path \<Rightarrow> path \<Rightarrow> fs \<Rightarrow> err option \<times> fs" where
  "os_rename p q s = (case next_fault s of
     (Some _, s1) \<Rightarrow> (Some ErrIO, s1)
   | (None, s1) \<Rightarrow> (case lookup s1 p of
        None \<Rightarrow> (Some ErrNotExist, s1)
      | Some f \<Rightarrow> (None, put_file q f (drop_file p s1))))"

definition os_remove :: "path \<Rightarrow> fs \<Rightarrow> err option \<times> fs" where
  "os_remove p s = (case next_fault s of
     (Some _, s1) \<Rightarrow> (Some ErrIO, s1)
   | (None, s1) \<Rightarrow> (case lookup s1 p of
        None \<Rightarrow> (Some ErrNotExist, s1)
      | Some f \<Rightarrow> (None, drop_file p s1)))"

text \<open>\<open>ReadDir\<close> returns the names in a directory in ascending order.\<close>

definition dir_names :: "fs \<Rightarrow> string \<Rightarrow> string list" where
  "dir_names s d = sort (remdups (map snd (filter (\<lambda>p. fst p = d) (keys (files s)))))"

definition os_readdir :: "string \<Rightarrow> fs \<Rightarrow> (err + string list) \<times> fs" where
  "os_readdir d s = (case next_fault s of
     (Some _, s1) \<Rightarrow> (Inl ErrIO, s1)
   | (None, s1) \<Rightarrow> (Inr (dir_names s1 d), s1))"

definition crash :: "(path \<Rightarrow> nat) \<Rightarrow> fs \<Rightarrow> fs" where
  "crash k s = s\<lparr>files := map (\<lambda>(p, f). let d = take (fsynced f + k p) (fdata f)
                                        in (p, \<lparr>fdata = d, fsynced = length d\<rparr>)) (files s),
                 faults := []\<rparr>"

definition kill :: "fs \<Rightarrow> fs" where
  "kill s = s\<lparr>faults := []\<rparr>"

subsection \<open>What the operations leave\<close>

definition fs_wf :: "fs \<Rightarrow> bool" where
  "fs_wf s \<longleftrightarrow> distinct (keys (files s)) \<and> (\<forall>(p, f) \<in> set (files s). fsynced f \<le> length (fdata f))"

lemma next_fault_no_faults [simp]: "faults s = [] \<Longrightarrow> next_fault s = (None, s)"
  by (simp add: next_fault_def)

lemma next_fault_files: "next_fault s = (r, s1) \<Longrightarrow> files s1 = files s \<and> windows s1 = windows s"
  by (auto simp: next_fault_def split: list.splits)

lemma next_fault_lookup: "next_fault s = (r, s1) \<Longrightarrow> lookup s1 p = lookup s p"
  by (auto simp: lookup_def dest: next_fault_files)

lemma lookup_put_file [simp, fs_simps]: "lookup (put_file p f s) q = (if q = p then Some f else lookup s q)"
  by (simp add: lookup_def put_file_def)

lemma lookup_drop_file [simp, fs_simps]: "lookup (drop_file p s) q = (if q = p then None else lookup s q)"
  by (simp add: lookup_def drop_file_def)

lemma lookup_upd_file [simp, fs_simps]:
  "lookup (upd_file p g s) q = (if q = p then map_option g (lookup s p) else lookup s q)"
  by (auto simp: upd_file_def split: option.splits)

lemma put_drop_faults [simp]: "faults (put_file p f s) = faults s" "faults (drop_file p s) = faults s"
    "faults (upd_file p g s) = faults s"
  by (simp_all add: put_file_def drop_file_def upd_file_def split: option.splits)

lemma lookup_faults [simp]: "lookup (s\<lparr>faults := x\<rparr>) p = lookup s p"
  by (simp add: lookup_def)

lemma lookup_None_keys: "lookup s p = None \<longleftrightarrow> p \<notin> set (keys (files s))"
  by (auto simp: lookup_def map_of_eq_None_iff)

lemma set_dir_names: "set (dir_names s d) = {n. lookup s (d, n) \<noteq> None}"
  by (force simp: dir_names_def lookup_None_keys)

lemma lookup_crash:
  "lookup (crash k s) p = map_option (\<lambda>f. let d = take (fsynced f + k p) (fdata f)
     in \<lparr>fdata = d, fsynced = length d\<rparr>) (lookup s p)"
proof -
  have "map_of (map (\<lambda>(p, f). (p, h p f)) m) p = map_option (h p) (map_of m p)"
    for h :: "path \<Rightarrow> fnode \<Rightarrow> fnode" and m by (induction m) auto
  from this [of "\<lambda>p f. let d = take (fsynced f + k p) (fdata f) in \<lparr>fdata = d, fsynced = length d\<rparr>" "files s"]
  show ?thesis by (simp add: lookup_def crash_def Let_def)
qed

text \<open>A stable file survives every crash unchanged.\<close>

lemma crash_stable: "stable s p \<Longrightarrow> contents (crash k s) p = contents s p"
  by (auto simp: stable_def contents_def lookup_crash Let_def split: option.splits)

lemma crash_prefix:
  "lookup s p = Some f \<Longrightarrow> contents (crash k s) p = Some (take (fsynced f + k p) (fdata f))"
  by (simp add: contents_def lookup_crash Let_def)

lemma crash_None: "contents s p = None \<Longrightarrow> contents (crash k s) p = None"
  by (simp add: contents_def lookup_crash)

lemma dir_names_crash [simp]: "dir_names (crash k s) d = dir_names s d"
proof -
  have "keys (files (crash k s)) = keys (files s)"
    by (auto simp: crash_def Let_def)
  then show ?thesis by (simp add: dir_names_def)
qed

lemma faults_crash [simp]: "faults (crash k s) = []"
  by (simp add: crash_def)

text \<open>Unfolding an operation: its case on the fault, its case on the file.\<close>

lemmas os_defs = os_noop_def os_read_def os_create_trunc_def os_create_excl_def os_open_append_def
  os_create_append_def os_write_def os_sync_def os_truncate_def os_rename_def os_remove_def os_readdir_def

text \<open>An operation touches the files it names and no other, whether it fails or not.\<close>

lemma os_noop_lookup: "os_noop s = (r, s') \<Longrightarrow> lookup s' q = lookup s q"
  by (auto simp: os_noop_def next_fault_lookup split: prod.splits option.splits)

lemma os_read_lookup: "os_read p s = (r, s') \<Longrightarrow> lookup s' q = lookup s q"
  by (auto simp: os_read_def next_fault_lookup split: prod.splits option.splits)

lemma os_create_trunc_lookup:
  "os_create_trunc p s = (r, s') \<Longrightarrow> lookup s' q = (if q = p \<and> r = None then Some new_file else lookup s q)"
  by (auto simp: os_create_trunc_def next_fault_lookup split: prod.splits option.splits)

lemma os_create_excl_lookup:
  "os_create_excl p s = (r, s') \<Longrightarrow>
     lookup s' q = (if q = p \<and> r = None then Some new_file else lookup s q) \<and> (r = None \<longrightarrow> lookup s p = None)"
  by (auto simp: os_create_excl_def next_fault_lookup split: prod.splits option.splits)

lemma os_write_other: "os_write p b s = (r, s') \<Longrightarrow> q \<noteq> p \<Longrightarrow> lookup s' q = lookup s q"
  by (auto simp: os_write_def next_fault_lookup split: prod.splits option.splits)

lemma os_write_ok:
  "os_write p b s = (None, s') \<Longrightarrow> lookup s' p = map_option (\<lambda>f. f\<lparr>fdata := fdata f @ b\<rparr>) (lookup s p)"
  by (auto simp: os_write_def next_fault_lookup split: prod.splits option.splits)

lemma os_write_fail:
  "os_write p b s = (Some e, s') \<Longrightarrow>
     \<exists>n. lookup s' p = map_option (\<lambda>f. f\<lparr>fdata := fdata f @ take n b\<rparr>) (lookup s p)"
  by (auto simp: os_write_def next_fault_lookup split: prod.splits option.splits)

lemma os_sync_other: "os_sync p s = (r, s') \<Longrightarrow> q \<noteq> p \<Longrightarrow> lookup s' q = lookup s q"
  by (auto simp: os_sync_def next_fault_lookup split: prod.splits option.splits)

lemma os_sync_ok:
  "os_sync p s = (None, s') \<Longrightarrow> lookup s' p = map_option (\<lambda>f. f\<lparr>fsynced := length (fdata f)\<rparr>) (lookup s p)"
  by (auto simp: os_sync_def next_fault_lookup split: prod.splits option.splits)

lemma os_sync_fail:
  "os_sync p s = (Some e, s') \<Longrightarrow>
     \<exists>n. lookup s' p = map_option (\<lambda>f. f\<lparr>fdata := take (fsynced f + n) (fdata f)\<rparr>) (lookup s p)"
  by (auto simp: os_sync_def next_fault_lookup split: prod.splits option.splits)

lemma os_rename_lookup:
  "os_rename p q s = (r, s') \<Longrightarrow> p \<noteq> q \<Longrightarrow>
     lookup s' x = (if r \<noteq> None then lookup s x else if x = p then None else if x = q then lookup s p else lookup s x)
     \<and> (r = None \<longrightarrow> lookup s p \<noteq> None)"
  by (auto simp: os_rename_def next_fault_lookup split: prod.splits option.splits)

lemma os_remove_lookup:
  "os_remove p s = (r, s') \<Longrightarrow> lookup s' q = (if q = p \<and> r = None then None else lookup s q)"
  by (auto simp: os_remove_def next_fault_lookup split: prod.splits option.splits)

lemma os_readdir_lookup: "os_readdir d s = (r, s') \<Longrightarrow> lookup s' q = lookup s q"
  by (auto simp: os_readdir_def next_fault_lookup split: prod.splits option.splits)

text \<open>Without faults to come there are none after an operation either.\<close>

lemma os_faultless [simp]:
  assumes "faults s = []"
  shows "faults (snd (os_noop s)) = []" "faults (snd (os_read p s)) = []" "faults (snd (os_create_trunc p s)) = []"
    "faults (snd (os_create_excl p s)) = []" "faults (snd (os_open_append p s)) = []"
    "faults (snd (os_create_append p s)) = []" "faults (snd (os_write p b s)) = []" "faults (snd (os_sync p s)) = []"
    "faults (snd (os_truncate p n s)) = []" "faults (snd (os_rename p q s)) = []" "faults (snd (os_remove p s)) = []"
    "faults (snd (os_readdir d s)) = []"
  using assms by (simp_all add: os_defs split: option.splits)

lemma and_then_faultless:
  "faults (snd x) = [] \<Longrightarrow> (\<And>s. faults s = [] \<Longrightarrow> faults (snd (f s)) = []) \<Longrightarrow> faults (snd (and_then x f)) = []"
  by (cases x) (auto simp: and_then_def split: option.splits)

end
