(* ===== verification/Recordio.thy ===== *)
theory Recordio
  imports Files
begin

text \<open>
  \<^verbatim>\<open>internal/record/record.go\<close>: checksums, CRC-framed records and the atomic file
  replacement shared by the write-ahead log, the snapshots, the Raft log and the vote file.
  The locale \<open>framing\<close> is the contract that a log's payload codec has to meet; inside it,
  the torn-tail property of a file of frames is proved once for both logs.
\<close>

subsection \<open>Checksums and frames\<close>

definition Checksum :: "bytes \<Rightarrow> u32" where
  "Checksum b = crc_update 0 b"

definition HeaderSize :: nat where
  "HeaderSize = 8"

definition Frame :: "bytes \<Rightarrow> bytes \<Rightarrow> bytes" where
  "Frame buf payload = (buf @ le32 (len32 payload)) @ le32 (Checksum payload) @ payload"

definition Parse :: "bytes \<Rightarrow> u32 \<Rightarrow> (bytes \<times> nat) option" where
  "Parse b maxPayload =
     (if length b < HeaderSize then None
      else let payloadLen = get32 b; crc = get32 (drop 4 b)
           in if payloadLen > maxPayload then None
              else let en = HeaderSize + unat payloadLen
                   in if length b < en then None
                      else let payload = drop HeaderSize (take en b)
                           in if Checksum payload \<noteq> crc then None
                              else Some (payload, en))"

lemma length_Frame [simp, codec_simps]: "length (Frame [] p) = HeaderSize + length p"
  by (simp add: Frame_def HeaderSize_def)

lemma Frame_append: "Frame buf p = buf @ Frame [] p"
  by (simp add: Frame_def)

lemma Frame_not_Nil [simp]: "Frame [] p \<noteq> []"
  by (metis HeaderSize_def add_is_0 length_Frame list.size(3) zero_neq_numeral)

lemma Parse_Frame:
  assumes "length p \<le> unat maxp"
  shows "Parse (Frame [] p @ rest) maxp = Some (p, HeaderSize + length p)"
proof -
  have len: "length p < 2 ^ 32"
    using assms unat_u32_less [of maxp] by simp
  then have le: "\<not> len32 p > maxp"
    using assms by (simp add: word_less_nat_alt)
  show ?thesis
    using len le by (simp add: Parse_def Frame_def HeaderSize_def Let_def)
qed

text \<open>A frame that was cut short never parses: its header announces more than is there.\<close>

lemma Parse_torn:
  assumes "length p < 2 ^ 32" and "n < length (Frame [] p)"
  shows "Parse (take n (Frame [] p)) maxp = None"
proof (cases "n < HeaderSize")
  case True
  then show ?thesis by (simp add: Parse_def)
next
  case False
  then have "get32 (take n (Frame [] p)) = len32 p"
    by (simp add: HeaderSize_def get32_take Frame_def)
  with assms show ?thesis
    by (auto simp: Parse_def Let_def)
qed

text \<open>What parses is a frame: acceptance gives back the very bytes that were written.\<close>

lemma Parse_SomeD:
  assumes "Parse b maxp = Some (p, n)"
  shows "b = Frame [] p @ drop n b" "n = HeaderSize + length p" "length p \<le> unat maxp"
proof -
  let ?l = "unat (get32 b)"
  from assms have 8: "HeaderSize \<le> length b" and le: "get32 b \<le> maxp"
    and en: "HeaderSize + ?l \<le> length b" "n = HeaderSize + ?l"
    and p: "p = drop HeaderSize (take (HeaderSize + ?l) b)" "Checksum p = get32 (drop 4 b)"
    by (auto simp: Parse_def Let_def not_less split: if_splits)
  have lp: "length p = ?l" using p(1) en by simp
  then show n: "n = HeaderSize + length p" using en by simp
  show "length p \<le> unat maxp" using lp le by (simp add: word_le_nat_alt)
  have h1: "le32 (len32 p) = take 4 b"
    using 8 by (simp add: lp le32_get32 HeaderSize_def)
  have h2: "le32 (Checksum p) = take 4 (drop 4 b)"
    using 8 by (simp add: p(2) le32_get32 HeaderSize_def)
  have "take 4 b @ take 4 (drop 4 b) = take 8 b"
    by (metis add_numeral_left numeral_Bit0 semiring_norm(3) take_add)
  then have "Frame [] p = take 8 b @ drop 8 (take (8 + ?l) b)"
    using h1 h2 p(1) by (simp add: Frame_def HeaderSize_def)
  also have "\<dots> = take (8 + ?l) b"
    by (metis append_take_drop_id le_add1 min.absorb1 take_take)
  finally show "b = Frame [] p @ drop n b"
    using en by (simp add: HeaderSize_def)
qed

subsection \<open>A file of frames\<close>

text \<open>
  The loop with which both logs are read back:
  \<^verbatim>\<open>for off < len(data) { payload, recLen, ok := record.Parse(data[off:], max); if !ok {...}; ... }\<close>
  with \<open>dec\<close> the check and decoding of a payload and \<open>step\<close> the loop body. It reports the
  offset where valid data ends and whether that is the end of the file.
\<close>

function frame_loop ::
  "u32 \<Rightarrow> (bytes \<Rightarrow> 'r option) \<Rightarrow> ('r \<Rightarrow> 'a \<Rightarrow> err + 'a) \<Rightarrow> bytes \<Rightarrow> nat \<Rightarrow> 'a \<Rightarrow> err + 'a \<times> nat \<times> bool" where
  "frame_loop maxp dec step data off a =
     (if data = [] then Inr (a, off, True)
      else case Parse data maxp of
             None \<Rightarrow> Inr (a, off, False)
           | Some (payload, recLen) \<Rightarrow>
               (case dec payload of
                  None \<Rightarrow> Inr (a, off, False)
                | Some r \<Rightarrow>
                    (case step r a of
                       Inl e \<Rightarrow> Inl e
                     | Inr a' \<Rightarrow> frame_loop maxp dec step (drop recLen data) (off + recLen) a')))"
  by pat_completeness auto
termination
  by (relation "measure (\<lambda>(maxp, dec, step, data, off, a). length data)")
     (auto dest!: Parse_SomeD(2) simp: HeaderSize_def)

declare frame_loop.simps [simp del]

lemma frame_loop_Nil [simp]: "frame_loop maxp dec step [] off a = Inr (a, off, True)"
  by (simp add: frame_loop.simps)

lemma frame_loop_invalid:
  "data \<noteq> [] \<Longrightarrow> Parse data maxp = None \<Longrightarrow> frame_loop maxp dec step data off a = Inr (a, off, False)"
  by (simp add: frame_loop.simps)

locale framing =
  fixes maxp :: u32
    and enc :: "'r \<Rightarrow> bytes"
    and dec :: "bytes \<Rightarrow> 'r option"
    and okr :: "'r \<Rightarrow> bool"
  assumes dec_enc: "okr r \<Longrightarrow> dec (enc r) = Some r"
    and enc_bound: "okr r \<Longrightarrow> length (enc r) \<le> unat maxp"
begin

lemma enc_length: "okr r \<Longrightarrow> length (enc r) < 2 ^ 32"
  using enc_bound [of r] unat_u32_less [of maxp] by simp

lemma loop_frame:
  assumes "okr r"
  shows "frame_loop maxp dec step (Frame [] (enc r) @ rest) off a =
    (case step r a of Inl e \<Rightarrow> Inl e
     | Inr a' \<Rightarrow> frame_loop maxp dec step rest (off + length (Frame [] (enc r))) a')"
  using assms
  by (subst frame_loop.simps) (simp add: Parse_Frame enc_bound dec_enc split: sum.splits)

lemma loop_frames:
  assumes "\<forall>r \<in> set rs. okr r"
  shows "frame_loop maxp dec step (concat (map (\<lambda>r. Frame [] (enc r)) rs) @ rest) off a =
    (case fold_err step rs a of Inl e \<Rightarrow> Inl e
     | Inr a' \<Rightarrow> frame_loop maxp dec step rest (off + length (concat (map (\<lambda>r. Frame [] (enc r)) rs))) a')"
  using assms
  by (induction rs arbitrary: off a) (auto simp: loop_frame add.assoc split: sum.splits)

text \<open>The torn-tail property: whatever a crash leaves of the last, unfinished frame, reading
  stops exactly behind the last complete one.\<close>

lemma loop_torn:
  assumes "\<forall>r \<in> set rs. okr r" and "okr r" and "n < length (Frame [] (enc r))"
  shows "frame_loop maxp dec step (concat (map (\<lambda>r. Frame [] (enc r)) rs) @ take n (Frame [] (enc r))) off a =
    (case fold_err step rs a of Inl e \<Rightarrow> Inl e
     | Inr a' \<Rightarrow> Inr (a', off + length (concat (map (\<lambda>r. Frame [] (enc r)) rs)), n = 0))"
proof -
  have "frame_loop maxp dec step (take n (Frame [] (enc r))) off' a' = Inr (a', off', n = 0)" for off' a'
  proof (cases "n = 0")
    case False
    then have "take n (Frame [] (enc r)) \<noteq> []" by simp
    moreover have "Parse (take n (Frame [] (enc r))) maxp = None"
      using assms(2,3) by (intro Parse_torn enc_length)
    ultimately show ?thesis using False by (simp add: frame_loop_invalid)
  qed simp
  then show ?thesis
    using assms(1) by (simp add: loop_frames split: sum.splits)
qed

lemma loop_clean:
  assumes "\<forall>r \<in> set rs. okr r"
  shows "frame_loop maxp dec step (concat (map (\<lambda>r. Frame [] (enc r)) rs)) off a =
    (case fold_err step rs a of Inl e \<Rightarrow> Inl e
     | Inr a' \<Rightarrow> Inr (a', off + length (concat (map (\<lambda>r. Frame [] (enc r)) rs)), True))"
  using loop_frames [OF assms, of step "[]" off a] by (simp split: sum.splits)

end

subsection \<open>Durable file replacement\<close>

definition SyncDir :: "fs \<Rightarrow> err option \<times> fs" where
  "SyncDir s = (if windows s then (None, s) else and_then (os_noop s) os_noop)"

definition tmp_path :: "path \<Rightarrow> path" where
  "tmp_path p = (fst p, snd p @ ''.tmp'')"

text \<open>The deferred clean-up runs on every error after the temporary file was opened.\<close>

definition WriteFileAtomic :: "path \<Rightarrow> bytes \<Rightarrow> fs \<Rightarrow> err option \<times> fs" where
  "WriteFileAtomic p data s =
     (case os_create_trunc (tmp_path p) s of
        (Some e, s1) \<Rightarrow> (Some e, s1)
      | (None, s1) \<Rightarrow>
          (case and_then (os_write (tmp_path p) data s1) (\<lambda>s2.
                and_then (os_sync (tmp_path p) s2) (\<lambda>s3.
                and_then (os_noop s3) (\<lambda>s4.
                and_then (os_rename (tmp_path p) p s4) SyncDir))) of
             (None, s5) \<Rightarrow> (None, s5)
           | (Some e, s5) \<Rightarrow> (Some e, snd (os_remove (tmp_path p) (snd (os_noop s5))))))"

lemma tmp_path_neq [simp]: "tmp_path p \<noteq> p" "p \<noteq> tmp_path p"
  by (cases p; simp add: tmp_path_def)+

lemma SyncDir_lookup: "SyncDir s = (r, s') \<Longrightarrow> lookup s' q = lookup s q"
  by (auto simp: SyncDir_def and_then_def os_noop_lookup split: if_splits prod.splits option.splits)

lemma SyncDir_faultless: "faults s = [] \<Longrightarrow> faults (snd (SyncDir s)) = []"
  by (simp add: SyncDir_def and_then_faultless)

lemma WriteFileAtomic_faultless: "faults s = [] \<Longrightarrow> faults (snd (WriteFileAtomic p data s)) = []"
proof -
  assume f: "faults s = []"
  obtain r1 s1 where 1: "os_create_trunc (tmp_path p) s = (r1, s1)" by force
  have f1: "faults s1 = []" using os_faultless(3) [OF f, of "tmp_path p"] 1 by simp
  obtain r5 s5 where 5: "and_then (os_write (tmp_path p) data s1) (\<lambda>s2. and_then (os_sync (tmp_path p) s2) (\<lambda>s3.
      and_then (os_noop s3) (\<lambda>s4. and_then (os_rename (tmp_path p) p s4) SyncDir))) = (r5, s5)" by force
  have "faults (snd (r5, s5)) = []"
    unfolding 5 [symmetric] using f1 by (intro and_then_faultless SyncDir_faultless) simp_all
  then show ?thesis using f1 1 5 by (simp add: WriteFileAtomic_def split: option.splits)
qed

lemma WriteFileAtomic_succeeds: "faults s = [] \<Longrightarrow> fst (WriteFileAtomic p data s) = None"
  by (simp add: WriteFileAtomic_def os_create_trunc_def os_write_def os_sync_def os_noop_def os_rename_def SyncDir_def)

text \<open>The state in which the temporary file has become the file, fully synced.\<close>

definition replaced :: "path \<Rightarrow> bytes \<Rightarrow> fs \<Rightarrow> bool" where
  "replaced p data s \<longleftrightarrow> lookup s p = Some \<lparr>fdata = data, fsynced = length data\<rparr>"

lemma WriteFileAtomic_body:
  assumes "and_then (os_write t data s1) (\<lambda>s2. and_then (os_sync t s2) (\<lambda>s3.
             and_then (os_noop s3) (\<lambda>s4. and_then (os_rename t p s4) SyncDir))) = (r, s5)"
    and "t \<noteq> p" and "lookup s1 t = Some new_file"
  shows "(lookup s5 p = lookup s1 p \<or> replaced p data s5) \<and> (r = None \<longrightarrow> replaced p data s5)
    \<and> (\<forall>q. q \<noteq> p \<longrightarrow> q \<noteq> t \<longrightarrow> lookup s5 q = lookup s1 q)"
proof -
  obtain r2 s2 where w: "os_write t data s1 = (r2, s2)" by force
  have o2: "q \<noteq> t \<Longrightarrow> lookup s2 q = lookup s1 q" for q using os_write_other [OF w] .
  show ?thesis
  proof (cases r2)
    case (Some e)
    then show ?thesis using assms(1,2) w o2 by auto
  next
    case None
    obtain r3 s3 where y: "os_sync t s2 = (r3, s3)" by force
    have o3: "q \<noteq> t \<Longrightarrow> lookup s3 q = lookup s1 q" for q using os_sync_other [OF y] o2 by simp
    show ?thesis
    proof (cases r3)
      case (Some e)
      then show ?thesis using assms(1,2) w None y o3 by auto
    next
      case None3: None
      have t3: "lookup s3 t = Some \<lparr>fdata = data, fsynced = length data\<rparr>"
        using os_sync_ok [of t s2 s3] os_write_ok [of t data s1 s2] y w None None3 assms(3)
        by (simp add: new_file_def)
      obtain r4 s4 where c: "os_noop s3 = (r4, s4)" by force
      obtain r6 s6 where n: "os_rename t p s4 = (r6, s6)" by force
      have l4: "lookup s4 q = lookup s3 q" for q using os_noop_lookup [OF c] .
      have l6: "lookup s6 q = (if r6 \<noteq> None then lookup s3 q else if q = t then None
                  else if q = p then lookup s3 t else lookup s3 q)" for q
        using os_rename_lookup [OF n assms(2)] l4 by simp
      show ?thesis
      proof (cases "r4 = None \<and> r6 = None")
        case True
        then have sd: "SyncDir s6 = (r, s5)" using assms(1) w None y None3 c n by simp
        show ?thesis using True assms(2) l6 t3 o3 SyncDir_lookup [OF sd] by (auto simp: replaced_def)
      next
        case False
        then show ?thesis
          using assms(1,2) w None y None3 c n l4 l6 o3 by (cases r4; cases r6) auto
      qed
    qed
  qed
qed

lemma WriteFileAtomic_result:
  assumes "WriteFileAtomic p data s = (r, s')"
  shows "lookup s' p = lookup s p \<or> replaced p data s'"
    and "r = None \<Longrightarrow> replaced p data s'"
    and "q \<noteq> p \<Longrightarrow> q \<noteq> tmp_path p \<Longrightarrow> lookup s' q = lookup s q"
proof -
  obtain r1 s1 where t: "os_create_trunc (tmp_path p) s = (r1, s1)" by force
  note t' = os_create_trunc_lookup [OF t]
  have "(lookup s' p = lookup s p \<or> replaced p data s') \<and> (r = None \<longrightarrow> replaced p data s')
    \<and> (\<forall>q. q \<noteq> p \<longrightarrow> q \<noteq> tmp_path p \<longrightarrow> lookup s' q = lookup s q)"
  proof (cases r1)
    case (Some e)
    then show ?thesis using assms t t' by (auto simp: WriteFileAtomic_def)
  next
    case None
    obtain r5 s5 where b: "and_then (os_write (tmp_path p) data s1) (\<lambda>s2. and_then (os_sync (tmp_path p) s2) (\<lambda>s3.
             and_then (os_noop s3) (\<lambda>s4. and_then (os_rename (tmp_path p) p s4) SyncDir))) = (r5, s5)" by force
    obtain r6 s6 where c: "os_noop s5 = (r6, s6)" by force
    obtain r7 s7 where d: "os_remove (tmp_path p) s6 = (r7, s7)" by force
    have res: "(lookup s5 p = lookup s1 p \<or> replaced p data s5) \<and> (r5 = None \<longrightarrow> replaced p data s5)
      \<and> (\<forall>q. q \<noteq> p \<longrightarrow> q \<noteq> tmp_path p \<longrightarrow> lookup s5 q = lookup s1 q)"
      by (rule WriteFileAtomic_body [OF b]) (use t' None in auto)
    have l7: "q \<noteq> tmp_path p \<Longrightarrow> lookup s7 q = lookup s5 q" for q
      using os_remove_lookup [OF d, of q] os_noop_lookup [OF c, of q] by simp
    show ?thesis
      using assms t None b c d res l7 t' by (cases r5) (auto simp: WriteFileAtomic_def replaced_def)
  qed
  then show "lookup s' p = lookup s p \<or> replaced p data s'" "r = None \<Longrightarrow> replaced p data s'"
    "q \<noteq> p \<Longrightarrow> q \<noteq> tmp_path p \<Longrightarrow> lookup s' q = lookup s q" by blast+
qed

lemma replaced_contents: "replaced p data s \<Longrightarrow> contents s p = Some data \<and> contents (crash k s) p = Some data"
  by (simp add: replaced_def contents_def lookup_crash)

end
