(* ===== verification/Names.thy ===== *)
theory Names
  imports Bytes
begin

text \<open>
  File names of numbered files: \<^verbatim>\<open>fmt.Sprintf("%020d%s", n, ext)\<close>, \<^verbatim>\<open>strconv.ParseUint\<close>,
  \<^verbatim>\<open>strings.HasSuffix\<close> and \<^verbatim>\<open>strings.TrimSuffix\<close>. Twenty digits hold every \<open>uint64\<close>, so the
  names sort as their numbers do; the code relies on it when it prunes snapshots by name.
\<close>

definition digit_char :: "nat \<Rightarrow> char" where
  "digit_char d = char_of (48 + d)"

definition char_digit :: "char \<Rightarrow> nat option" where
  "char_digit c = (let n = of_char c in if 48 \<le> n \<and> n \<le> (57::nat) then Some (n - 48) else None)"

text \<open>The last \<open>k\<close> decimal digits of a number, most significant first.\<close>

fun dec_digits :: "nat \<Rightarrow> nat \<Rightarrow> nat list" where
  "dec_digits 0 n = []"
| "dec_digits (Suc k) n = dec_digits k (n div 10) @ [n mod 10]"

definition fmt020 :: "u64 \<Rightarrow> string" where
  "fmt020 n = map digit_char (dec_digits 20 (unat n))"

fun parse_digits :: "nat \<Rightarrow> string \<Rightarrow> nat option" where
  "parse_digits acc [] = Some acc"
| "parse_digits acc (c # cs) = (case char_digit c of None \<Rightarrow> None | Some d \<Rightarrow> parse_digits (10 * acc + d) cs)"

definition ParseUint :: "string \<Rightarrow> u64 option" where
  "ParseUint s = (if s = [] then None
     else case parse_digits 0 s of
            None \<Rightarrow> None
          | Some n \<Rightarrow> if n < 2 ^ 64 then Some (word_of_nat n) else None)"

definition HasSuffix :: "string \<Rightarrow> string \<Rightarrow> bool" where
  "HasSuffix s ext \<longleftrightarrow> length ext \<le> length s \<and> drop (length s - length ext) s = ext"

definition TrimSuffix :: "string \<Rightarrow> string \<Rightarrow> string" where
  "TrimSuffix s ext = (if HasSuffix s ext then take (length s - length ext) s else s)"

lemma HasSuffix_append [simp]: "HasSuffix (s @ ext) ext" "TrimSuffix (s @ ext) ext = s"
  by (simp_all add: HasSuffix_def TrimSuffix_def)

lemma HasSuffixD: "HasSuffix s ext \<Longrightarrow> s = TrimSuffix s ext @ ext"
  by (simp add: HasSuffix_def TrimSuffix_def) (metis append_take_drop_id)

lemma char_digit_digit_char: "d < 10 \<Longrightarrow> char_digit (digit_char d) = Some d"
  by (simp add: char_digit_def digit_char_def)

lemma length_dec_digits [simp]: "length (dec_digits k n) = k"
  by (induction k arbitrary: n) auto

lemma dec_digits_small: "d \<in> set (dec_digits k n) \<Longrightarrow> d < 10"
  by (induction k arbitrary: n) auto

lemma length_fmt020 [simp]: "length (fmt020 n) = 20"
  by (simp add: fmt020_def)

lemma parse_digits_map:
  "(\<And>d. d \<in> set ds \<Longrightarrow> d < 10) \<Longrightarrow> parse_digits acc (map digit_char ds) = Some (foldl (\<lambda>a d. 10 * a + d) acc ds)"
  by (induction ds arbitrary: acc) (auto simp: char_digit_digit_char)

lemma foldl_dec_digits: "foldl (\<lambda>a d. 10 * a + d) 0 (dec_digits k n) = n mod 10 ^ k"
proof (induction k arbitrary: n)
  case (Suc k)
  have "n mod 10 ^ Suc k = 10 * (n div 10 mod 10 ^ k) + n mod 10"
    by (simp add: mod_mult2_eq)
  with Suc show ?case by simp
qed simp

lemma ParseUint_fmt020 [simp]: "ParseUint (fmt020 n) = Some n"
proof -
  have "unat n < 10 ^ 20" using unat_u64_less [of n] by simp
  then have "parse_digits 0 (fmt020 n) = Some (unat n)"
    by (simp only: fmt020_def parse_digits_map [OF dec_digits_small] foldl_dec_digits) simp
  moreover have "fmt020 n \<noteq> []" using length_fmt020 [of n] by (metis list.size(3) zero_neq_numeral)
  ultimately show ?thesis using unat_u64_less [of n] by (simp add: ParseUint_def)
qed

lemma fmt020_inject [simp]: "fmt020 m = fmt020 n \<longleftrightarrow> m = n"
  by (metis ParseUint_fmt020 option.inject)

text \<open>Equally long lists compare by their first difference, so the padded names are ordered
  as the numbers.\<close>

lemma less_append_same_length:
  fixes xs ys :: "'a::linorder list"
  assumes "length xs = length ys"
  shows "xs @ [x] < ys @ [y] \<longleftrightarrow> xs < ys \<or> xs = ys \<and> x < y"
  using assms by (induction xs ys rule: list_induct2) auto

lemma dec_digits_mono:
  "m < n \<Longrightarrow> n < 10 ^ k \<Longrightarrow> dec_digits k m < dec_digits k n"
proof (induction k arbitrary: m n)
  case (Suc k)
  show ?case
  proof (cases "m div 10 = n div 10")
    case True
    with Suc.prems(1) have "m mod 10 < n mod 10"
      by (metis mod_div_mult_eq nat_add_left_cancel_less add.commute)
    with True show ?thesis by (simp add: less_append_same_length)
  next
    case False
    with Suc.prems have "m div 10 < n div 10" "n div 10 < 10 ^ k"
      by (auto simp: div_le_mono le_neq_implies_less)
    then have "dec_digits k (m div 10) < dec_digits k (n div 10)" by (rule Suc.IH)
    then show ?thesis by (simp add: less_append_same_length)
  qed
qed simp

lemma digit_char_mono: "c < d \<Longrightarrow> d < 10 \<Longrightarrow> digit_char c < digit_char d"
  by (simp add: digit_char_def less_char_def)

lemma map_digit_char_mono:
  "xs < ys \<Longrightarrow> length xs = length ys \<Longrightarrow> (\<And>d. d \<in> set ys \<Longrightarrow> d < 10) \<Longrightarrow> map digit_char xs < map digit_char ys"
proof (induction xs arbitrary: ys)
  case (Cons x xs)
  then obtain y ys' where ys: "ys = y # ys'" by (cases ys) auto
  show ?case using Cons by (auto simp: ys digit_char_mono)
qed simp

lemma fmt020_mono: "m < n \<Longrightarrow> fmt020 m < fmt020 n"
  unfolding fmt020_def
proof (rule map_digit_char_mono)
  assume "m < n"
  then have "unat m < unat n" by (simp add: word_less_nat_alt)
  moreover have "unat n < 10 ^ 20" using unat_u64_less [of n] by simp
  ultimately show "dec_digits 20 (unat m) < dec_digits 20 (unat n)" by (rule dec_digits_mono)
qed (auto dest: dec_digits_small simp del: dec_digits.simps)

lemma fmt020_less_iff [simp]: "fmt020 m < fmt020 n \<longleftrightarrow> m < n"
  by (metis fmt020_mono not_less_iff_gr_or_eq)

lemma less_append_ext:
  fixes xs ys ext :: "'a::linorder list"
  assumes "length xs = length ys"
  shows "xs @ ext < ys @ ext \<longleftrightarrow> xs < ys"
  using assms by (induction xs ys rule: list_induct2) auto

lemma numbered_name_less_iff [simp]: "fmt020 m @ ext < fmt020 n @ ext \<longleftrightarrow> m < n"
  by (simp add: less_append_ext)

end
