(* ===== verification/Wal.thy ===== *)
theory Wal
  imports Recordio Names
begin

text \<open>
  \<^verbatim>\<open>internal/storage/wal.go\<close>: the segmented write-ahead log. A segment is a file of frames,
  its payloads a sequence number and a command. \<open>Append\<close> writes and syncs before it returns;
  \<open>replayWAL\<close> enforces the torn-write policy: the first invalid record ends the newest
  segment, and is fatal in an older one. The scratch buffers of \<open>wal\<close> are re-used, never
  read, and have no counterpart here.
\<close>

definition walExt :: string where
  "walExt = ''.wal''"

definition walSeqSize :: nat where
  "walSeqSize = 8"

definition MaxKeyBytesOnDisk :: nat where
  "MaxKeyBytesOnDisk = 2 ^ 20"

definition MaxValueBytesOnDisk :: nat where
  "MaxValueBytesOnDisk = 2 ^ 26"

definition walMaxRecordLen :: u32 where
  "walMaxRecordLen = word_of_nat (walSeqSize + 1 + 4 + MaxKeyBytesOnDisk + 4 + MaxValueBytesOnDisk)"

record wal =
  wdir :: string
  wf :: path
  wsize :: nat
  wfailed :: bool

definition segmentPath :: "string \<Rightarrow> u64 \<Rightarrow> path" where
  "segmentPath dir startSeq = (dir, fmt020 startSeq @ walExt)"

definition createWAL :: "string \<Rightarrow> u64 \<Rightarrow> fs \<Rightarrow> (err + wal) \<times> fs" where
  "createWAL dir startSeq s =
     (case os_create_excl (segmentPath dir startSeq) s of
        (Some e, s1) \<Rightarrow> (Inl e, s1)
      | (None, s1) \<Rightarrow>
          (case SyncDir s1 of
             (Some e, s2) \<Rightarrow> (Inl e, snd (os_noop s2))
           | (None, s2) \<Rightarrow>
               (Inr \<lparr>wdir = dir, wf = segmentPath dir startSeq, wsize = 0, wfailed = False\<rparr>, s2)))"

definition openWALForAppend :: "string \<Rightarrow> u64 \<Rightarrow> nat \<Rightarrow> fs \<Rightarrow> (err + wal) \<times> fs" where
  "openWALForAppend dir startSeq validSize s =
     (case os_open_append (segmentPath dir startSeq) s of
        (Some e, s1) \<Rightarrow> (Inl e, s1)
      | (None, s1) \<Rightarrow>
          (Inr \<lparr>wdir = dir, wf = segmentPath dir startSeq, wsize = validSize, wfailed = False\<rparr>, s1))"

record walRecord =
  rseq :: u64
  rcmd :: bytes

definition walPayload :: "walRecord \<Rightarrow> bytes" where
  "walPayload r = le64 (rseq r) @ rcmd r"

definition Append :: "wal \<Rightarrow> u64 \<Rightarrow> bytes \<Rightarrow> fs \<Rightarrow> err option \<times> wal \<times> fs" where
  "Append w seq command s =
     (if wfailed w then (Some ErrWALFailed, w, s)
      else let p = walPayload \<lparr>rseq = seq, rcmd = command\<rparr>; b = Frame [] p
           in case os_write (wf w) b s of
                (Some e, s1) \<Rightarrow> (Some e, w\<lparr>wfailed := True\<rparr>, s1)
              | (None, s1) \<Rightarrow>
                  (case os_sync (wf w) s1 of
                     (Some e, s2) \<Rightarrow> (Some e, w\<lparr>wfailed := True\<rparr>, s2)
                   | (None, s2) \<Rightarrow> (None, w\<lparr>wsize := wsize w + length b\<rparr>, s2)))"

definition wal_Close :: "wal \<Rightarrow> fs \<Rightarrow> err option \<times> fs" where
  "wal_Close w s = os_noop s"

definition rotate :: "wal \<Rightarrow> u64 \<Rightarrow> fs \<Rightarrow> err option \<times> wal \<times> fs" where
  "rotate w startSeq s =
     (if wfailed w then (Some ErrWALFailed, w, s)
      else case createWAL (wdir w) startSeq s of
             (Inl e, s1) \<Rightarrow> (Some e, w, s1)
           | (Inr nxt, s1) \<Rightarrow>
               (case os_noop s1 of (r, s2) \<Rightarrow> (r, w\<lparr>wf := wf nxt, wsize := 0\<rparr>, s2)))"

record walSegment =
  startSeq :: u64
  segPath :: path

fun collect_segments :: "string \<Rightarrow> string list \<Rightarrow> err + walSegment list" where
  "collect_segments dir [] = Inr []"
| "collect_segments dir (name # names) =
     (if \<not> HasSuffix name walExt then collect_segments dir names
      else case ParseUint (TrimSuffix name walExt) of
             None \<Rightarrow> Inl ErrUnrecognizedFile
           | Some start \<Rightarrow>
               (case collect_segments dir names of
                  Inl e \<Rightarrow> Inl e
                | Inr segs \<Rightarrow> Inr (\<lparr>startSeq = start, segPath = (dir, name)\<rparr> # segs)))"

definition listSegments :: "string \<Rightarrow> fs \<Rightarrow> (err + walSegment list) \<times> fs" where
  "listSegments dir s =
     (case os_readdir dir s of
        (Inl e, s1) \<Rightarrow> (Inl e, s1)
      | (Inr names, s1) \<Rightarrow>
          (case collect_segments dir names of
             Inl e \<Rightarrow> (Inl e, s1)
           | Inr segs \<Rightarrow> (Inr (sort_key startSeq segs), s1)))"

definition walDecode :: "bytes \<Rightarrow> walRecord option" where
  "walDecode payload =
     (if length payload < walSeqSize then None
      else Some \<lparr>rseq = get64 payload, rcmd = drop walSeqSize payload\<rparr>)"

text \<open>The body of the replay loop: skip what the snapshot covers, insist on consecutive
  numbers, hand the command to \<open>apply\<close> (which threads the state it builds).\<close>

definition replay_step :: "(u64 \<Rightarrow> bytes \<Rightarrow> 'a \<Rightarrow> err + 'a) \<Rightarrow> walRecord \<Rightarrow> u64 \<times> 'a \<Rightarrow> err + u64 \<times> 'a" where
  "replay_step apply rec st =
     (case st of (lastSeq, a) \<Rightarrow>
        if rseq rec > lastSeq
        then if rseq rec \<noteq> lastSeq + 1 then Inl (ErrSequenceGap (rseq rec) lastSeq)
             else (case apply (rseq rec) (rcmd rec) a of
                     Inl e \<Rightarrow> Inl e
                   | Inr a' \<Rightarrow> Inr (rseq rec, a'))
        else Inr (lastSeq, a))"

fun replay_segs ::
  "(u64 \<Rightarrow> bytes \<Rightarrow> 'a \<Rightarrow> err + 'a) \<Rightarrow> walSegment list \<Rightarrow> u64 \<times> 'a \<Rightarrow> fs \<Rightarrow> (err + (u64 \<times> 'a) \<times> nat) \<times> fs" where
  "replay_segs apply [] st s = (Inr (st, 0), s)"
| "replay_segs apply (seg # segs) st s =
     (case os_read (segPath seg) s of
        (Inl e, s1) \<Rightarrow> (Inl e, s1)
      | (Inr d, s1) \<Rightarrow>
          (case frame_loop walMaxRecordLen walDecode (replay_step apply) d 0 st of
             Inl e \<Rightarrow> (Inl e, s1)
           | Inr (st', off, clean) \<Rightarrow>
               if segs = [] then (Inr (st', off), s1)
               else if \<not> clean then (Inl (ErrCorruptSegment off), s1)
               else replay_segs apply segs st' s1))"

definition replayWAL ::
  "string \<Rightarrow> u64 \<Rightarrow> (u64 \<Rightarrow> bytes \<Rightarrow> 'a \<Rightarrow> err + 'a) \<Rightarrow> 'a \<Rightarrow> fs \<Rightarrow> (err + (u64 \<times> 'a) \<times> nat) \<times> fs" where
  "replayWAL dir fromSeq apply a s =
     (case listSegments dir s of
        (Inl e, s1) \<Rightarrow> (Inl e, s1)
      | (Inr segs, s1) \<Rightarrow> replay_segs apply segs (fromSeq, a) s1)"

subsection \<open>Records and frames\<close>

definition wal_rec_ok :: "walRecord \<Rightarrow> bool" where
  "wal_rec_ok r \<longleftrightarrow> walSeqSize + length (rcmd r) \<le> unat walMaxRecordLen"

lemma walDecode_walPayload [simp]: "walDecode (walPayload r) = Some r"
  by (simp add: walDecode_def walPayload_def walSeqSize_def)

interpretation walf: framing walMaxRecordLen walPayload walDecode wal_rec_ok
  by unfold_locales (simp, simp add: wal_rec_ok_def walPayload_def walSeqSize_def)

abbreviation wal_frames :: "walRecord list \<Rightarrow> bytes" where
  "wal_frames rs \<equiv> concat (map (\<lambda>r. Frame [] (walPayload r)) rs)"

lemma unat_walMaxRecordLen [simp]: "unat walMaxRecordLen = 68157457"
  by (simp add: walMaxRecordLen_def walSeqSize_def MaxKeyBytesOnDisk_def MaxValueBytesOnDisk_def)

subsection \<open>Replaying what is on disk\<close>

text \<open>What a crash can leave behind the last complete record: a proper prefix of a frame.\<close>

definition torn_tail :: "bytes \<Rightarrow> bool" where
  "torn_tail t \<longleftrightarrow> (\<exists>r n. wal_rec_ok r \<and> n < length (Frame [] (walPayload r)) \<and> t = take n (Frame [] (walPayload r)))"

lemma torn_tail_Nil [simp]: "torn_tail []"
proof -
  have "wal_rec_ok \<lparr>rseq = 0, rcmd = []\<rparr>" by (simp add: wal_rec_ok_def walSeqSize_def)
  then show ?thesis unfolding torn_tail_def by (intro exI [of _ "\<lparr>rseq = 0, rcmd = []\<rparr>"] exI [of _ 0]) (simp add: HeaderSize_def)
qed

lemma os_read_contents: "faults s = [] \<Longrightarrow> contents s p = Some d \<Longrightarrow> os_read p s = (Inr d, s)"
  by (auto simp: os_read_def contents_def)

lemma loop_torn_tail:
  assumes "\<forall>r \<in> set rs. wal_rec_ok r" "torn_tail t"
  shows "\<exists>c. frame_loop walMaxRecordLen walDecode step (wal_frames rs @ t) 0 st =
    (case fold_err step rs st of Inl e \<Rightarrow> Inl e | Inr st' \<Rightarrow> Inr (st', length (wal_frames rs), c))"
  using assms walf.loop_torn by (fastforce simp: torn_tail_def split: sum.splits)

lemma replay_segs_holds:
  assumes "list_all2 (\<lambda>seg rs. contents s (segPath seg) = Some (wal_frames rs)) segs rss"
    and "contents s (segPath seg) = Some (wal_frames rs @ t)" and "torn_tail t" and "faults s = []"
    and "\<forall>r \<in> set (concat rss @ rs). wal_rec_ok r"
  shows "replay_segs apply (segs @ [seg]) st s =
    (case fold_err (replay_step apply) (concat rss @ rs) st of
       Inl e \<Rightarrow> (Inl e, s) | Inr st' \<Rightarrow> (Inr (st', length (wal_frames rs)), s))"
  using assms
proof (induction segs rss arbitrary: st rule: list_all2_induct)
  case Nil
  then show ?case
    using loop_torn_tail [of rs t "replay_step apply" st]
    by (auto simp: os_read_contents split: sum.splits)
next
  case (Cons sg sgs rs' rss)
  have loop: "frame_loop walMaxRecordLen walDecode (replay_step apply) (wal_frames rs') 0 st =
    (case fold_err (replay_step apply) rs' st of Inl e \<Rightarrow> Inl e | Inr st' \<Rightarrow> Inr (st', length (wal_frames rs'), True))"
    using walf.loop_clean [of rs' "replay_step apply" 0 st] Cons.prems(4) by (simp cong: sum.case_cong)
  have rd: "os_read (segPath sg) s = (Inr (wal_frames rs'), s)"
    using Cons.hyps(1) Cons.prems(3) by (rule os_read_contents [rotated])
  note IH = Cons.IH [OF Cons.prems(1,2,3)]
  show ?case
  proof (cases "fold_err (replay_step apply) rs' st")
    case (Inl e)
    then show ?thesis using rd loop by (simp add: fold_err_append)
  next
    case (Inr st')
    then show ?thesis using rd loop IH [of st'] Cons.prems(4) by (simp add: fold_err_append)
  qed
qed

subsection \<open>Consecutively numbered records\<close>

text \<open>The records of the commands \<open>cs\<close> when \<open>i\<close> commands came before.\<close>

fun numbered :: "nat \<Rightarrow> bytes list \<Rightarrow> walRecord list" where
  "numbered i [] = []"
| "numbered i (c # cs) = \<lparr>rseq = word_of_nat (Suc i), rcmd = c\<rparr> # numbered (Suc i) cs"

lemma numbered_append: "numbered i (cs @ ds) = numbered i cs @ numbered (i + length cs) ds"
  by (induction cs arbitrary: i) auto

lemma length_numbered [simp]: "length (numbered i cs) = length cs"
  by (induction cs arbitrary: i) auto

lemma numbered_drop: "drop j (numbered i cs) = numbered (i + j) (drop j cs)"
  by (induction cs arbitrary: i j) (auto simp: drop_Cons')

lemma set_numbered: "r \<in> set (numbered i cs) \<Longrightarrow> rcmd r \<in> set cs"
  by (induction cs arbitrary: i) auto

lemma word_of_nat_less_iff: "m < 2 ^ 64 \<Longrightarrow> n < 2 ^ 64 \<Longrightarrow> (word_of_nat m :: u64) < word_of_nat n \<longleftrightarrow> m < n"
  by (simp add: word_less_nat_alt unat_of_nat)

lemma word_of_nat_u64_eq_iff: "m < 2 ^ 64 \<Longrightarrow> n < 2 ^ 64 \<Longrightarrow> (word_of_nat m :: u64) = word_of_nat n \<longleftrightarrow> m = n"
  by (simp add: word_unat_eq_iff unat_of_nat)

lemma replay_step_next:
  "lastSeq < n \<Longrightarrow> n = lastSeq + 1 \<Longrightarrow> replay_step apply \<lparr>rseq = n, rcmd = c\<rparr> (lastSeq, a) =
     (case apply n c a of Inl e \<Rightarrow> Inl e | Inr a' \<Rightarrow> Inr (n, a'))"
  by (simp add: replay_step_def split: sum.splits)

lemma replay_step_skip:
  "n \<le> lastSeq \<Longrightarrow> replay_step apply \<lparr>rseq = n, rcmd = c\<rparr> (lastSeq, a) = Inr (lastSeq, a)"
  by (auto simp: replay_step_def)

text \<open>Replay over consecutive records from a snapshot in their range skips what the snapshot
  covers and applies the rest in order.\<close>

lemma replay_numbered:
  assumes "i \<le> k" "k \<le> i + length cs" "i + length cs < 2 ^ 64"
  shows "fold_err (replay_step (\<lambda>n. f)) (numbered i cs) (word_of_nat k, a) =
    (case fold_err f (drop (k - i) cs) a of
       Inl e \<Rightarrow> Inl e | Inr a' \<Rightarrow> Inr (word_of_nat (i + length cs), a'))"
  using assms
proof (induction cs arbitrary: i k a)
  case (Cons c cs)
  show ?case
  proof (cases "i = k")
    case True
    have lt: "(word_of_nat k :: u64) < word_of_nat (Suc k)"
      using Cons.prems True by (simp add: word_of_nat_less_iff del: of_nat_Suc)
    have nx: "replay_step (\<lambda>n. f) \<lparr>rseq = word_of_nat (Suc k), rcmd = c\<rparr> (word_of_nat k, a) =
      (case f c a of Inl e \<Rightarrow> Inl e | Inr a' \<Rightarrow> Inr (word_of_nat (Suc k), a'))"
      by (rule replay_step_next [OF lt]) simp
    show ?thesis
    proof (cases "f c a")
      case (Inl e)
      then show ?thesis using True nx by (simp del: of_nat_Suc)
    next
      case (Inr a')
      then show ?thesis
        using True nx Cons.IH [of "Suc k" "Suc k" a'] Cons.prems by (simp split: sum.splits del: of_nat_Suc)
    qed
  next
    case False
    then have ik: "Suc i \<le> k" using Cons.prems by simp
    have le: "(word_of_nat (Suc i) :: u64) \<le> word_of_nat k"
      using Cons.prems ik word_of_nat_less_iff [of k "Suc i"] by (simp add: not_less [symmetric] del: of_nat_Suc)
    have dr: "drop (k - i) (c # cs) = drop (k - Suc i) cs"
      using ik by (simp add: drop_Cons')
    show ?thesis
      using Cons.IH [of "Suc i" k a] Cons.prems ik dr
      by (simp add: replay_step_skip [OF le] split: sum.splits del: of_nat_Suc)
  qed
qed simp

end
