(* ===== verification/Command.thy ===== *)
theory Command
  imports Bytes
begin

text \<open>
  \<^verbatim>\<open>internal/storage/command.go\<close>: the self-contained wire form of a mutation. Decoding
  treats every length as untrusted. Its comparisons are on \<open>uint64\<close> values below \<open>2^63 + 2^33\<close>,
  which cannot wrap, so they are comparisons of natural numbers here.
\<close>

datatype Op = OpPut | OpDelete

record Command =
  cOp :: Op
  cKey :: bytes
  cValue :: bytes

fun op_byte :: "Op \<Rightarrow> byte" where
  "op_byte OpPut = 1"
| "op_byte OpDelete = 2"

definition byte_op :: "byte \<Rightarrow> Op option" where
  "byte_op b = (if b = 1 then Some OpPut else if b = 2 then Some OpDelete else None)"

definition encodeCommand :: "bytes \<Rightarrow> Command \<Rightarrow> bytes" where
  "encodeCommand buf c =
     (let buf = buf @ [op_byte (cOp c)];
          buf = buf @ le32 (len32 (cKey c));
          buf = buf @ cKey c;
          buf = buf @ le32 (len32 (cValue c))
      in buf @ cValue c)"

definition EncodeCommand :: "Command \<Rightarrow> bytes" where
  "EncodeCommand c = encodeCommand [] c"

definition decodeCommand :: "bytes \<Rightarrow> err + Command" where
  "decodeCommand b0 =
     (if length b0 < 1 + 4 then Inl ErrCommandTruncated
      else case byte_op (b0 ! 0) of
             None \<Rightarrow> Inl ErrUnknownOp
           | Some op \<Rightarrow>
             let b1 = drop 1 b0; keyLen = get32 b1; b2 = drop 4 b1
             in if length b2 < unat keyLen + 4 then Inl ErrCommandKeyTruncated
                else let key = take (unat keyLen) b2; b3 = drop (unat keyLen) b2;
                         valLen = get32 b3; b4 = drop 4 b3
                     in if length b4 \<noteq> unat valLen then Inl ErrCommandValueLength
                        else Inr \<lparr>cOp = op, cKey = key, cValue = b4\<rparr>)"

definition DecodeCommand :: "bytes \<Rightarrow> err + Command" where
  "DecodeCommand b = decodeCommand b"

text \<open>What the wire form can carry: lengths that fit their 32-bit fields.\<close>

definition cmd_ok :: "Command \<Rightarrow> bool" where
  "cmd_ok c \<longleftrightarrow> length (cKey c) < 2 ^ 32 \<and> length (cValue c) < 2 ^ 32"

lemma byte_op_op_byte [simp]: "byte_op (op_byte p) = Some p"
  by (cases p) (simp_all add: byte_op_def)

lemma byte_op_SomeD: "byte_op b = Some p \<Longrightarrow> op_byte p = b"
  by (auto simp: byte_op_def split: if_splits)

lemma EncodeCommand_conv:
  "EncodeCommand c = op_byte (cOp c) # le32 (len32 (cKey c)) @ cKey c @ le32 (len32 (cValue c)) @ cValue c"
  by (simp add: EncodeCommand_def encodeCommand_def Let_def)

lemma length_EncodeCommand [codec_simps]:
  "length (EncodeCommand c) = 9 + length (cKey c) + length (cValue c)"
  by (simp add: EncodeCommand_conv)

lemma decode_encode:
  "cmd_ok c \<Longrightarrow> decodeCommand (EncodeCommand c) = Inr c"
  by (simp add: decodeCommand_def EncodeCommand_conv Let_def cmd_ok_def)

text \<open>Decoding accepts nothing but encodings: the wire form is canonical.\<close>

lemma encode_decode:
  assumes "decodeCommand b = Inr c"
  shows "EncodeCommand c = b" and "cmd_ok c"
proof -
  let ?b2 = "drop 4 (drop 1 b)"
  let ?k = "unat (get32 (drop 1 b))"
  let ?b3 = "drop ?k ?b2"
  from assms obtain p where len: "5 \<le> length b" and op: "byte_op (b ! 0) = Some p"
    and kl: "?k + 4 \<le> length ?b2" and vl: "length (drop 4 ?b3) = unat (get32 ?b3)"
    and c: "c = \<lparr>cOp = p, cKey = take ?k ?b2, cValue = drop 4 ?b3\<rparr>"
    by (auto simp: decodeCommand_def Let_def not_less split: if_splits option.splits)
  have k: "len32 (cKey c) = get32 (drop 1 b)" using kl by (simp add: c)
  have v: "len32 (cValue c) = get32 ?b3" using vl c by simp
  show "cmd_ok c"
    using unat_u32_less [of "get32 (drop 1 b)"] unat_u32_less [of "get32 ?b3"] vl
    by (simp add: cmd_ok_def c min_def)
  have "le32 (get32 (drop 1 b)) = take 4 (drop 1 b)" using len by (simp add: le32_get32)
  moreover have "le32 (get32 ?b3) = take 4 ?b3" using kl by (intro le32_get32) simp
  ultimately have "EncodeCommand c = b ! 0 # take 4 (drop 1 b) @ take ?k ?b2 @ take 4 ?b3 @ drop 4 ?b3"
    unfolding EncodeCommand_conv k v using op by (simp add: c byte_op_SomeD)
  also have "\<dots> = b ! 0 # drop 1 b"
    by (metis append_take_drop_id)
  also have "\<dots> = b" using len by (cases b) auto
  finally show "EncodeCommand c = b" .
qed

end
