(* ===== verification/MemStore.thy ===== *)
theory MemStore
  imports Command
begin

text \<open>
  \<^verbatim>\<open>internal/storage/memstore.go\<close>: the map that owns the data. The mutex makes every method
  one atomic step; the copies that \<open>Put\<close> and \<open>Get\<close> take keep the stored slice private, which
  values do by themselves. The locale \<open>kv_map\<close> is the contract the layers above rely on.
\<close>

subsection \<open>The abstract map\<close>

type_synonym kv = "bytes \<rightharpoonup> bytes"

definition kv_apply :: "Command \<Rightarrow> kv \<Rightarrow> kv" where
  "kv_apply c m = (case cOp c of OpPut \<Rightarrow> m(cKey c \<mapsto> cValue c) | OpDelete \<Rightarrow> m(cKey c := None))"

locale kv_map =
  fixes empty :: 'm
    and put :: "bytes \<Rightarrow> bytes \<Rightarrow> 'm \<Rightarrow> 'm"
    and get :: "'m \<Rightarrow> bytes \<Rightarrow> bytes option"
    and del :: "bytes \<Rightarrow> 'm \<Rightarrow> bool \<times> 'm"
    and invar :: "'m \<Rightarrow> bool"
  assumes get_empty: "get empty k = None"
    and get_put: "invar m \<Longrightarrow> get (put k v m) k' = (if k' = k then Some v else get m k')"
    and get_del: "invar m \<Longrightarrow> get (snd (del k m)) k' = (if k' = k then None else get m k')"
    and del_existed: "invar m \<Longrightarrow> fst (del k m) \<longleftrightarrow> get m k \<noteq> None"
    and invar_empty: "invar empty"
    and invar_put: "invar m \<Longrightarrow> invar (put k v m)"
    and invar_del: "invar m \<Longrightarrow> invar (snd (del k m))"
begin

lemma del_idempotent:
  assumes "invar m" shows "get (snd (del k (snd (del k m)))) = get (snd (del k m))" "\<not> fst (del k (snd (del k m)))"
  using assms by (auto simp: get_del del_existed invar_del)

lemma apply_refines:
  assumes "invar m"
  shows "get (case cOp c of OpPut \<Rightarrow> put (cKey c) (cValue c) m | OpDelete \<Rightarrow> snd (del (cKey c) m)) = kv_apply c (get m)"
  using assms by (auto simp: kv_apply_def get_put get_del split: Op.splits)

lemma apply_invar:
  "invar m \<Longrightarrow> invar (case cOp c of OpPut \<Rightarrow> put (cKey c) (cValue c) m | OpDelete \<Rightarrow> snd (del (cKey c) m))"
  by (simp add: invar_put invar_del split: Op.splits)

end

subsection \<open>The store\<close>

record MemStore =
  data :: "(bytes \<times> bytes) list"

definition NewMemStore :: MemStore where
  "NewMemStore = \<lparr>data = []\<rparr>"

definition mem_Put :: "bytes \<Rightarrow> bytes \<Rightarrow> MemStore \<Rightarrow> MemStore" where
  "mem_Put key value s = s\<lparr>data := AList.update key value (data s)\<rparr>"

definition mem_Get :: "MemStore \<Rightarrow> bytes \<Rightarrow> bytes option" where
  "mem_Get s key = map_of (data s) key"

definition mem_Delete :: "bytes \<Rightarrow> MemStore \<Rightarrow> bool \<times> MemStore" where
  "mem_Delete key s = (map_of (data s) key \<noteq> None, s\<lparr>data := AList.delete key (data s)\<rparr>)"

text \<open>\<open>Range\<close> over a callback that threads its own state and may stop the iteration.\<close>

fun range_loop :: "(bytes \<Rightarrow> bytes \<Rightarrow> 'a \<Rightarrow> bool \<times> 'a) \<Rightarrow> (bytes \<times> bytes) list \<Rightarrow> 'a \<Rightarrow> 'a" where
  "range_loop fn [] a = a"
| "range_loop fn ((k, v) # kvs) a = (case fn k v a of (True, a') \<Rightarrow> range_loop fn kvs a' | (False, a') \<Rightarrow> a')"

definition mem_Range :: "MemStore \<Rightarrow> (bytes \<Rightarrow> bytes \<Rightarrow> 'a \<Rightarrow> bool \<times> 'a) \<Rightarrow> 'a \<Rightarrow> 'a" where
  "mem_Range s fn a = range_loop fn (data s) a"

definition mem_Len :: "MemStore \<Rightarrow> nat" where
  "mem_Len s = length (data s)"

definition mem_wf :: "MemStore \<Rightarrow> bool" where
  "mem_wf s \<longleftrightarrow> distinct (keys (data s))"

interpretation mem: kv_map NewMemStore mem_Put mem_Get mem_Delete mem_wf
  by unfold_locales
     (auto simp: NewMemStore_def mem_Put_def mem_Get_def mem_Delete_def mem_wf_def)

text \<open>\<open>Len\<close> counts the stored keys, and \<open>Range\<close> with a callback that never stops visits each
  stored pair once.\<close>

lemma mem_Len_card: "mem_wf s \<Longrightarrow> mem_Len s = card (dom (mem_Get s))"
  unfolding mem_wf_def mem_Len_def mem_Get_def
  by (metis (no_types, lifting) dom_map_of_conv_image_fst distinct_card length_map list.set_map)

lemma range_loop_total: "(\<And>k v a. fst (fn k v a)) \<Longrightarrow> range_loop fn kvs a = fold (\<lambda>(k, v) a. snd (fn k v a)) kvs a"
proof (induction kvs arbitrary: a)
  case (Cons kv kvs)
  then show ?case by (cases kv) (auto split: prod.splits bool.splits, metis fst_conv)
qed simp

lemma mem_Range_visits:
  assumes "\<And>k v a. fst (fn k v a)"
  shows "mem_Range s fn a = fold (\<lambda>(k, v) a. snd (fn k v a)) (data s) a"
  using range_loop_total [OF assms] by (simp add: mem_Range_def)

lemma mem_eqI: "mem_Get s = mem_Get t \<Longrightarrow> map_of (data s) = map_of (data t)"
  by (auto simp: mem_Get_def fun_eq_iff)

end
