(* ===== verification/Snapshot.thy ===== *)
theory Snapshot
  imports Recordio Names MemStore
begin

text \<open>
  \<^verbatim>\<open>internal/storage/snapshot.go\<close>: full dumps of the store, written to a temporary name,
  synced and renamed into place. The buffered writer is one write of the collected bytes at
  \<open>Flush\<close>; a failure inside it leaves a prefix in the temporary file, as any earlier flush
  of the buffer would.
\<close>

definition snapExt :: string where
  "snapExt = ''.snap''"

definition snapTmp :: string where
  "snapTmp = ''.tmp''"

definition snapMagic :: bytes where
  "snapMagic = [0x52, 0x4B, 0x56, 0x53, 0x4E, 0x41, 0x50, 0x31]" \<comment> \<open>RKVSNAP1\<close>

definition snapshotPath :: "string \<Rightarrow> u64 \<Rightarrow> path" where
  "snapshotPath dir lastSeq = (dir, fmt020 lastSeq @ snapExt)"

text \<open>\<open>io.MultiWriter(bw, crc)\<close>: every byte goes to the buffer and into the running checksum.\<close>

definition mw_write :: "bytes \<Rightarrow> bytes \<times> u32 \<Rightarrow> bytes \<times> u32" where
  "mw_write b w = (fst w @ b, crc_update (snd w) b)"

definition write_entry :: "bytes \<Rightarrow> bytes \<Rightarrow> bytes \<times> u32 \<Rightarrow> bool \<times> bytes \<times> u32" where
  "write_entry key value w =
     (let w = mw_write (le32 (len32 key)) w;
          w = mw_write key w;
          w = mw_write (le32 (len32 value)) w
      in (True, mw_write value w))"

definition snapshot_stream :: "u64 \<Rightarrow> MemStore \<Rightarrow> bytes \<times> u32" where
  "snapshot_stream lastSeq mem =
     (let w = mw_write snapMagic ([], 0);
          w = mw_write (le64 lastSeq) w;
          w = mw_write (le64 (word_of_nat (mem_Len mem))) w
      in mem_Range mem write_entry w)"

definition snapshot_bytes :: "u64 \<Rightarrow> MemStore \<Rightarrow> bytes" where
  "snapshot_bytes lastSeq mem = (case snapshot_stream lastSeq mem of (buf, crc) \<Rightarrow> buf @ le32 crc)"

definition writeSnapshot :: "string \<Rightarrow> u64 \<Rightarrow> MemStore \<Rightarrow> fs \<Rightarrow> err option \<times> fs" where
  "writeSnapshot dir lastSeq mem s =
     (let final = snapshotPath dir lastSeq; tmp = (fst final, snd final @ snapTmp)
      in case os_create_trunc tmp s of
           (Some e, s1) \<Rightarrow> (Some e, s1)
         | (None, s1) \<Rightarrow>
             (case and_then (os_write tmp (snapshot_bytes lastSeq mem) s1) (\<lambda>s2.
                   and_then (os_sync tmp s2) (\<lambda>s3.
                   and_then (os_noop s3) (\<lambda>s4.
                   and_then (os_rename tmp final s4) SyncDir))) of
                (None, s5) \<Rightarrow> (None, s5)
              | (Some e, s5) \<Rightarrow> (Some e, snd (os_remove tmp (snd (os_noop s5))))))"

fun read_entries :: "nat \<Rightarrow> u64 \<Rightarrow> bytes \<Rightarrow> MemStore \<Rightarrow> err + MemStore \<times> bytes" where
  "read_entries 0 i body mem = Inr (mem, body)"
| "read_entries (Suc n) i body mem =
     (if length body < 4 then Inl (ErrSnapTruncated i)
      else let keyLen = unat (get32 body); body = drop 4 body
           in if length body < keyLen + 4 then Inl (ErrSnapTruncated i)
              else let key = take keyLen body; body = drop keyLen body;
                       valLen = unat (get32 body); body = drop 4 body
                   in if length body < valLen then Inl (ErrSnapTruncated i)
                      else read_entries n (i + 1) (drop valLen body) (mem_Put key (take valLen body) mem))"

definition parseSnapshot :: "bytes \<Rightarrow> err + MemStore \<times> u64" where
  "parseSnapshot d =
     (if length d < length snapMagic + 8 + 8 + 4 then Inl ErrSnapTooShort
      else let body = take (length d - 4) d; tail = drop (length d - 4) d
           in if Checksum body \<noteq> get32 tail then Inl ErrSnapChecksum
              else if take (length snapMagic) body \<noteq> snapMagic then Inl ErrSnapMagic
              else let body = drop (length snapMagic) body;
                       lastSeq = get64 body; count = get64 (drop 8 body); body = drop 16 body
                   in case read_entries (unat count) 0 body NewMemStore of
                        Inl e \<Rightarrow> Inl e
                      | Inr (mem, rest) \<Rightarrow> if length rest \<noteq> 0 then Inl ErrSnapTrailing else Inr (mem, lastSeq))"

definition readSnapshot :: "path \<Rightarrow> fs \<Rightarrow> (err + MemStore \<times> u64) \<times> fs" where
  "readSnapshot p s = (case os_read p s of
     (Inl e, s1) \<Rightarrow> (Inl e, s1)
   | (Inr d, s1) \<Rightarrow> (parseSnapshot d, s1))"

text \<open>The directory loop of \<open>loadNewestSnapshot\<close>: stray temporary files are removed (errors
  are ignored), every other \<^verbatim>\<open>.snap\<close> name must be a number.\<close>

fun collect_snaps :: "string \<Rightarrow> string list \<Rightarrow> u64 list \<Rightarrow> fs \<Rightarrow> (err + u64 list) \<times> fs" where
  "collect_snaps dir [] seqs s = (Inr seqs, s)"
| "collect_snaps dir (name # names) seqs s =
     (if HasSuffix name snapTmp then collect_snaps dir names seqs (snd (os_remove (dir, name) s))
      else if \<not> HasSuffix name snapExt then collect_snaps dir names seqs s
      else case ParseUint (TrimSuffix name snapExt) of
             None \<Rightarrow> (Inl ErrUnrecognizedFile, s)
           | Some n \<Rightarrow> collect_snaps dir names (seqs @ [n]) s)"

definition loadNewestSnapshot :: "string \<Rightarrow> fs \<Rightarrow> (err + MemStore \<times> u64) \<times> fs" where
  "loadNewestSnapshot dir s =
     (case os_readdir dir s of
        (Inl e, s1) \<Rightarrow> (Inl e, s1)
      | (Inr names, s1) \<Rightarrow>
          (case collect_snaps dir names [] s1 of
             (Inl e, s2) \<Rightarrow> (Inl e, s2)
           | (Inr seqs, s2) \<Rightarrow>
               if seqs = [] then (Inr (NewMemStore, 0), s2)
               else let newest = last (sort seqs)
                    in case readSnapshot (snapshotPath dir newest) s2 of
                         (Inl e, s3) \<Rightarrow> (Inl e, s3)
                       | (Inr (mem, lastSeq), s3) \<Rightarrow>
                           if lastSeq \<noteq> newest then (Inl ErrSnapSeq, s3) else (Inr (mem, lastSeq), s3)))"

fun remove_all :: "path list \<Rightarrow> fs \<Rightarrow> err option \<times> fs" where
  "remove_all [] s = (None, s)"
| "remove_all (p # ps) s = and_then (os_remove p s) (remove_all ps)"

definition pruneSnapshots :: "string \<Rightarrow> nat \<Rightarrow> fs \<Rightarrow> err option \<times> fs" where
  "pruneSnapshots dir keep s =
     (case os_readdir dir s of
        (Inl e, s1) \<Rightarrow> (Some e, s1)
      | (Inr names, s1) \<Rightarrow>
          let names = sort (filter (\<lambda>n. HasSuffix n snapExt) names)
          in remove_all (map (Pair dir) (take (length names - keep) names)) s1)"

subsection \<open>Writing\<close>

lemma mw_write_sum: "snd w = Checksum (fst w) \<Longrightarrow> snd (mw_write b w) = Checksum (fst (mw_write b w))"
  by (simp add: mw_write_def Checksum_def crc_update_append)

definition entry_bytes :: "bytes \<times> bytes \<Rightarrow> bytes" where
  "entry_bytes kv = le32 (len32 (fst kv)) @ fst kv @ le32 (len32 (snd kv)) @ snd kv"

lemma write_entry_conv: "write_entry k v w = (True, mw_write (entry_bytes (k, v)) w)"
  by (simp add: write_entry_def mw_write_def entry_bytes_def crc_update_append)

lemma fold_write_entry:
  "fold (\<lambda>(k, v) a. snd (write_entry k v a)) kvs w = mw_write (concat (map entry_bytes kvs)) w"
  by (induction kvs arbitrary: w) (auto simp: write_entry_conv mw_write_def crc_update_append)

text \<open>The streamed checksum is the checksum of the whole body.\<close>

lemma snapshot_bytes_conv:
  "snapshot_bytes n mem = (let body = snapMagic @ le64 n @ le64 (word_of_nat (mem_Len mem)) @ concat (map entry_bytes (data mem))
     in body @ le32 (Checksum body))"
proof -
  have "mem_Range mem write_entry w = mw_write (concat (map entry_bytes (data mem))) w" for w
    by (subst mem_Range_visits) (simp_all add: write_entry_conv fold_write_entry [unfolded write_entry_conv snd_conv])
  then show ?thesis
    by (simp add: snapshot_bytes_def snapshot_stream_def mw_write_def Checksum_def crc_update_append Let_def)
qed

lemma writeSnapshot_atomic: "writeSnapshot dir n mem s = WriteFileAtomic (snapshotPath dir n) (snapshot_bytes n mem) s"
  unfolding writeSnapshot_def WriteFileAtomic_def tmp_path_def snapTmp_def Let_def by (rule refl)

subsection \<open>Reading back\<close>

definition mem_fits :: "MemStore \<Rightarrow> bool" where
  "mem_fits mem \<longleftrightarrow> mem_wf mem \<and> length (data mem) < 2 ^ 64
     \<and> (\<forall>(k, v) \<in> set (data mem). length k < 2 ^ 32 \<and> length v < 2 ^ 32)"

lemma AList_update_new: "k \<notin> set (keys m) \<Longrightarrow> AList.update k v m = m @ [(k, v)]"
  by (induction m) auto

lemma read_entries_back:
  assumes "\<forall>(k, v) \<in> set kvs. length k < 2 ^ 32 \<and> length v < 2 ^ 32"
    and "distinct (keys (data mem @ kvs))"
  shows "read_entries (length kvs) i (concat (map entry_bytes kvs)) mem = Inr (mem\<lparr>data := data mem @ kvs\<rparr>, [])"
  using assms
proof (induction kvs arbitrary: i mem)
  case (Cons kv kvs)
  obtain k v where kv: "kv = (k, v)" by force
  have "mem_Put k v mem = mem\<lparr>data := data mem @ [(k, v)]\<rparr>"
    using Cons.prems(2) by (auto simp: mem_Put_def kv AList_update_new)
  with Cons.IH [of "mem_Put k v mem" "i + 1"] Cons.prems show ?case
    by (simp add: kv entry_bytes_def Let_def)
qed simp

lemma parse_snapshot_bytes:
  assumes "mem_fits mem"
  shows "parseSnapshot (snapshot_bytes n mem) = Inr (mem, n)"
proof -
  let ?es = "concat (map entry_bytes (data mem))"
  let ?body = "snapMagic @ le64 n @ le64 (word_of_nat (mem_Len mem)) @ ?es"
  have len: "unat (word_of_nat (mem_Len mem) :: u64) = length (data mem)"
    using assms by (simp add: mem_fits_def mem_Len_def)
  have re: "read_entries (length (data mem)) 0 ?es NewMemStore = Inr (mem, [])"
    using read_entries_back [of "data mem" NewMemStore 0] assms
    by (simp add: mem_fits_def mem_wf_def NewMemStore_def)
  have m: "length snapMagic = 8" by (simp add: snapMagic_def)
  show ?thesis
    using len re m by (simp add: snapshot_bytes_conv parseSnapshot_def Let_def)
qed

end
