(* ===== verification/DurableStore.thy ===== *)
theory DurableStore
  imports Wal Snapshot
begin

text \<open>
  \<^verbatim>\<open>internal/storage/store.go\<close>: the durable engine. A mutation is logged and synced, then
  applied; once the active segment outgrows the threshold the state is dumped, the log
  rotated and what the dump covers deleted. \<open>Open\<close> recovers: newest snapshot, then the log
  records behind it. The store's mutex makes each operation one step.

  The invariant \<open>ds_inv\<close> relates an open store and its files to the list of all commands ever
  logged: memory is the result of all of them, the newest snapshot that of a prefix, the
  segments hold consecutive records from within that prefix to the end.
\<close>

subsection \<open>The store\<close>

record DurableStore =
  dmem :: MemStore
  dwal :: wal
  dseq :: u64
  snapDir :: string
  snapshotThreshold :: nat
  dfs :: fs

definition defaultSnapshotThreshold :: nat where
  "defaultSnapshotThreshold = 16 * 2 ^ 20"

text \<open>The \<open>default\<close> branch of the switch (a panic) has no counterpart: \<open>Op\<close> has two values.\<close>

definition applyCommand :: "MemStore \<Rightarrow> Command \<Rightarrow> bool \<times> MemStore" where
  "applyCommand m cmd = (case cOp cmd of
     OpPut \<Rightarrow> (False, mem_Put (cKey cmd) (cValue cmd) m)
   | OpDelete \<Rightarrow> mem_Delete (cKey cmd) m)"

definition replay_apply :: "u64 \<Rightarrow> bytes \<Rightarrow> MemStore \<Rightarrow> err + MemStore" where
  "replay_apply seq command m = (case decodeCommand command of
     Inl e \<Rightarrow> Inl e
   | Inr cmd \<Rightarrow> Inr (snd (applyCommand m cmd)))"

definition Open :: "string \<Rightarrow> int \<Rightarrow> fs \<Rightarrow> (err + DurableStore) \<times> fs" where
  "Open dataDir threshold s =
     (let threshold = (if threshold \<le> 0 then defaultSnapshotThreshold else nat threshold);
          walD = dataDir @ ''/wal''; snapD = dataDir @ ''/snap''
      in case and_then (os_noop s) os_noop of
           (Some e, s1) \<Rightarrow> (Inl e, s1)
         | (None, s1) \<Rightarrow>
             (case loadNewestSnapshot snapD s1 of
                (Inl e, s2) \<Rightarrow> (Inl e, s2)
              | (Inr (m, snapSeq), s2) \<Rightarrow>
                  (case replayWAL walD snapSeq replay_apply m s2 of
                     (Inl e, s3) \<Rightarrow> (Inl e, s3)
                   | (Inr ((lastSeq, m'), newestValidSize), s3) \<Rightarrow>
                       (case listSegments walD s3 of
                          (Inl e, s4) \<Rightarrow> (Inl e, s4)
                        | (Inr segs, s4) \<Rightarrow>
                            (case (if segs = [] then createWAL walD (lastSeq + 1) s4
                                   else let newest = last segs
                                        in case os_truncate (segPath newest) newestValidSize s4 of
                                             (Some e, s5) \<Rightarrow> (Inl e, s5)
                                           | (None, s5) \<Rightarrow> openWALForAppend walD (startSeq newest) newestValidSize s5) of
                               (Inl e, s6) \<Rightarrow> (Inl e, s6)
                             | (Inr w, s6) \<Rightarrow>
                                 (Inr \<lparr>dmem = m', dwal = w, dseq = lastSeq, snapDir = snapD,
                                       snapshotThreshold = threshold, dfs = s6\<rparr>, s6))))))"

definition snapshot :: "DurableStore \<Rightarrow> err option \<times> DurableStore" where
  "snapshot st =
     (case writeSnapshot (snapDir st) (dseq st) (dmem st) (dfs st) of
        (Some e, s1) \<Rightarrow> (Some e, st\<lparr>dfs := s1\<rparr>)
      | (None, s1) \<Rightarrow>
          (case rotate (dwal st) (dseq st + 1) s1 of
             (Some e, w, s2) \<Rightarrow> (Some e, st\<lparr>dwal := w, dfs := s2\<rparr>)
           | (None, w, s2) \<Rightarrow>
               (case listSegments (wdir w) s2 of
                  (Inl e, s3) \<Rightarrow> (Some e, st\<lparr>dwal := w, dfs := s3\<rparr>)
                | (Inr segs, s3) \<Rightarrow>
                    if segs = [] then (Some Panic, st\<lparr>dwal := w, dfs := s3\<rparr>)
                    else (case remove_all (map segPath (butlast segs)) s3 of
                            (Some e, s4) \<Rightarrow> (Some e, st\<lparr>dwal := w, dfs := s4\<rparr>)
                          | (None, s4) \<Rightarrow>
                              (case pruneSnapshots (snapDir st) 2 s4 of
                                 (r, s5) \<Rightarrow> (r, st\<lparr>dwal := w, dfs := s5\<rparr>))))))"

definition Snapshot :: "DurableStore \<Rightarrow> err option \<times> DurableStore" where
  "Snapshot st = snapshot st"

definition maybeSnapshot :: "DurableStore \<Rightarrow> DurableStore" where
  "maybeSnapshot st = (if wsize (dwal st) < snapshotThreshold st then st else snd (snapshot st))"

definition logAndApply :: "Command \<Rightarrow> DurableStore \<Rightarrow> err option \<times> DurableStore" where
  "logAndApply cmd st =
     (case Append (dwal st) (dseq st + 1) (encodeCommand [] cmd) (dfs st) of
        (Some e, w, s) \<Rightarrow> (Some e, st\<lparr>dwal := w, dfs := s\<rparr>)
      | (None, w, s) \<Rightarrow>
          (None, maybeSnapshot (st\<lparr>dwal := w, dfs := s, dseq := dseq st + 1,
                                   dmem := snd (applyCommand (dmem st) cmd)\<rparr>)))"

definition ds_Put :: "bytes \<Rightarrow> bytes \<Rightarrow> DurableStore \<Rightarrow> err option \<times> DurableStore" where
  "ds_Put key value st = logAndApply \<lparr>cOp = OpPut, cKey = key, cValue = value\<rparr> st"

definition ds_Delete :: "bytes \<Rightarrow> DurableStore \<Rightarrow> (err + bool) \<times> DurableStore" where
  "ds_Delete key st =
     (if mem_Get (dmem st) key = None then (Inr False, st)
      else case logAndApply \<lparr>cOp = OpDelete, cKey = key, cValue = []\<rparr> st of
             (Some e, st') \<Rightarrow> (Inl e, st')
           | (None, st') \<Rightarrow> (Inr True, st'))"

definition ds_Get :: "DurableStore \<Rightarrow> bytes \<Rightarrow> bytes option" where
  "ds_Get st key = mem_Get (dmem st) key"

definition ds_Close :: "DurableStore \<Rightarrow> err option \<times> DurableStore" where
  "ds_Close st = (case wal_Close (dwal st) (dfs st) of (r, s) \<Rightarrow> (r, st\<lparr>dfs := s\<rparr>))"

subsection \<open>Histories\<close>

definition kv_of :: "Command list \<Rightarrow> kv" where
  "kv_of h = fold kv_apply h Map.empty"

text \<open>The sanity bound that replay puts on a record; the service limits are far below it.\<close>

definition cmd_fits :: "Command \<Rightarrow> bool" where
  "cmd_fits c \<longleftrightarrow> length (cKey c) \<le> MaxKeyBytesOnDisk \<and> length (cValue c) \<le> MaxValueBytesOnDisk"

definition mem_holds :: "MemStore \<Rightarrow> Command list \<Rightarrow> bool" where
  "mem_holds m h \<longleftrightarrow> mem_wf m \<and> mem_Get m = kv_of h \<and> length (data m) \<le> length h
     \<and> (\<forall>(k, v) \<in> set (data m). length k < 2 ^ 32 \<and> length v < 2 ^ 32)"

lemma cmd_fits_ok: "cmd_fits c \<Longrightarrow> cmd_ok c"
  by (simp add: cmd_fits_def cmd_ok_def MaxKeyBytesOnDisk_def MaxValueBytesOnDisk_def)

lemma cmd_fits_rec: "cmd_fits c \<Longrightarrow> wal_rec_ok \<lparr>rseq = n, rcmd = EncodeCommand c\<rparr>"
  by (simp add: cmd_fits_def wal_rec_ok_def walSeqSize_def length_EncodeCommand MaxKeyBytesOnDisk_def MaxValueBytesOnDisk_def)

lemma kv_of_snoc: "kv_of (h @ [c]) = kv_apply c (kv_of h)"
  by (simp add: kv_of_def)

lemma applyCommand_get:
  assumes "mem_wf m" shows "mem_Get (snd (applyCommand m c)) = kv_apply c (mem_Get m)"
proof -
  have "snd (applyCommand m c) = (case cOp c of OpPut \<Rightarrow> mem_Put (cKey c) (cValue c) m | OpDelete \<Rightarrow> snd (mem_Delete (cKey c) m))"
    by (simp add: applyCommand_def split: Op.splits)
  then show ?thesis using mem.apply_refines [OF assms] by simp
qed

lemma length_update_le: "length (AList.update k v m) \<le> Suc (length m)"
  by (induction m) auto

lemma set_update_le: "set (AList.update k v m) \<subseteq> insert (k, v) (set m)"
  by (induction m) auto

lemma set_delete_le: "set (AList.delete k m) \<subseteq> set m"
  by (auto simp: AList.delete_eq)

lemma mem_holds_apply:
  assumes "mem_holds m h" "cmd_fits c"
  shows "mem_holds (snd (applyCommand m c)) (h @ [c])"
proof -
  have c: "length (cKey c) < 2 ^ 32" "length (cValue c) < 2 ^ 32"
    using cmd_fits_ok [OF assms(2)] by (simp_all add: cmd_ok_def)
  have wf: "mem_wf m" and get: "mem_Get m = kv_of h" and len: "length (data m) \<le> length h"
    and b: "\<forall>(k, v) \<in> set (data m). length k < 2 ^ 32 \<and> length v < 2 ^ 32"
    using assms(1) by (auto simp: mem_holds_def)
  have "mem_wf (snd (applyCommand m c))"
    using wf by (simp add: applyCommand_def mem.invar_put mem.invar_del split: Op.splits)
  moreover have "mem_Get (snd (applyCommand m c)) = kv_of (h @ [c])"
    by (simp add: applyCommand_get [OF wf] get kv_of_snoc)
  moreover have "length (data (snd (applyCommand m c))) \<le> length (h @ [c])"
    using len length_update_le [of "cKey c" "cValue c" "data m"] length_delete_le [of "cKey c" "data m"]
    by (auto simp: applyCommand_def mem_Put_def mem_Delete_def split: Op.splits)
  moreover have "set (data (snd (applyCommand m c))) \<subseteq> insert (cKey c, cValue c) (set (data m))"
    using set_update_le [of "cKey c" "cValue c" "data m"] set_delete_le [of "cKey c" "data m"]
    by (auto simp: applyCommand_def mem_Put_def mem_Delete_def split: Op.splits)
  ultimately show ?thesis
    unfolding mem_holds_def using b c by fast
qed

lemma mem_holds_fits: "mem_holds m h \<Longrightarrow> length h < 2 ^ 64 \<Longrightarrow> mem_fits m"
  by (auto simp: mem_holds_def mem_fits_def)

lemma mem_holds_new: "mem_holds NewMemStore []"
  by (simp add: mem_holds_def NewMemStore_def mem_wf_def kv_of_def mem_Get_def fun_eq_iff)

lemma replay_commands:
  assumes "mem_holds m h" "\<forall>c \<in> set cs. cmd_fits c"
  shows "\<exists>m'. fold_err (replay_apply n) (map EncodeCommand cs) m = Inr m' \<and> mem_holds m' (h @ cs)"
  using assms
proof (induction cs arbitrary: m h)
  case (Cons c cs)
  have "replay_apply n (EncodeCommand c) m = Inr (snd (applyCommand m c))"
    using Cons.prems by (simp add: replay_apply_def decode_encode cmd_fits_ok)
  moreover have "mem_holds (snd (applyCommand m c)) (h @ [c])"
    using Cons.prems by (intro mem_holds_apply) auto
  from Cons.IH [OF this] obtain m' where
    "fold_err (replay_apply n) (map EncodeCommand cs) (snd (applyCommand m c)) = Inr m'" "mem_holds m' ((h @ [c]) @ cs)"
    using Cons.prems by auto
  ultimately show ?case by auto
qed simp

end
