(* ===== verification/Recovery.thy ===== *)
theory Recovery
  imports DurableStore
begin

text \<open>
  Correctness of the durable engine of \<^verbatim>\<open>internal/storage/store.go\<close>: the relation between the
  files and the history of commands, that every operation keeps it under arbitrary I/O faults,
  and that \<open>Open\<close> after any crash finds the state of the history again.
\<close>

subsection \<open>Files named by numbers\<close>

lemma dir_numbered:
  assumes "{n. lookup s (d, n) \<noteq> None \<and> HasSuffix n ext} = (\<lambda>q. fmt020 q @ ext) ` set qs"
    and "sorted_wrt (<) qs"
  shows "filter (\<lambda>n. HasSuffix n ext) (dir_names s d) = map (\<lambda>q. fmt020 q @ ext) qs"
proof (rule sorted_distinct_set_unique)
  show "sorted (filter (\<lambda>n. HasSuffix n ext) (dir_names s d))"
    "distinct (filter (\<lambda>n. HasSuffix n ext) (dir_names s d))"
    by (simp_all add: dir_names_def sorted_filter [where f = "\<lambda>x. x", simplified])
  have "sorted_wrt (<) (map (\<lambda>q. fmt020 q @ ext) qs)"
    using assms(2) by (simp add: sorted_wrt_map)
  then show "sorted (map (\<lambda>q. fmt020 q @ ext) qs)" "distinct (map (\<lambda>q. fmt020 q @ ext) qs)"
    by (simp_all add: strict_sorted_iff)
  show "set (filter (\<lambda>n. HasSuffix n ext) (dir_names s d)) = set (map (\<lambda>q. fmt020 q @ ext) qs)"
    using assms(1) by (auto simp: set_dir_names)
qed

lemma collect_segments_filter:
  "collect_segments d names = collect_segments d (filter (\<lambda>n. HasSuffix n walExt) names)"
  by (induction names) (auto split: option.splits sum.splits)

lemma collect_segments_map:
  "collect_segments d (map (\<lambda>q. fmt020 q @ walExt) qs) = Inr (map (\<lambda>q. \<lparr>startSeq = q, segPath = segmentPath d q\<rparr>) qs)"
  by (induction qs) (auto simp: segmentPath_def)

lemma listSegments_numbered:
  assumes "{n. lookup s (d, n) \<noteq> None \<and> HasSuffix n walExt} = (\<lambda>q. fmt020 q @ walExt) ` set qs"
    and "sorted_wrt (<) qs" and "faults s = []"
  shows "listSegments d s = (Inr (map (\<lambda>q. \<lparr>startSeq = q, segPath = segmentPath d q\<rparr>) qs), s)"
proof -
  have "collect_segments d (dir_names s d) = Inr (map (\<lambda>q. \<lparr>startSeq = q, segPath = segmentPath d q\<rparr>) qs)"
    by (subst collect_segments_filter) (simp add: dir_numbered [OF assms(1,2)] collect_segments_map)
  moreover have "sort_key startSeq (map (\<lambda>q. \<lparr>startSeq = q, segPath = segmentPath d q\<rparr>) qs) =
    map (\<lambda>q. \<lparr>startSeq = q, segPath = segmentPath d q\<rparr>) qs"
    using assms(2) by (intro sort_key_id_if_sorted) (simp add: o_def strict_sorted_iff)
  ultimately show ?thesis
    using assms(3) by (simp add: listSegments_def os_readdir_def)
qed

lemma snap_not_tmp: "HasSuffix n snapTmp \<Longrightarrow> HasSuffix n snapExt \<Longrightarrow> False"
proof -
  assume "HasSuffix n snapTmp" "HasSuffix n snapExt"
  then have "TrimSuffix n snapTmp @ ''.tmp'' = TrimSuffix n snapExt @ ''.snap''"
    by (metis HasSuffixD snapTmp_def snapExt_def)
  then have "rev ''.tmp'' @ rev (TrimSuffix n snapTmp) = rev ''.snap'' @ rev (TrimSuffix n snapExt)"
    by (metis rev_append)
  then show False by simp
qed

lemma collect_snaps_numbered:
  assumes "filter (\<lambda>n. HasSuffix n snapExt) names = map (\<lambda>q. fmt020 q @ snapExt) qs" "faults s = []"
  shows "\<exists>s'. collect_snaps d names acc s = (Inr (acc @ qs), s') \<and> faults s' = []
    \<and> (\<forall>p. (fst p = d \<longrightarrow> \<not> HasSuffix (snd p) snapTmp) \<longrightarrow> lookup s' p = lookup s p)"
  using assms
proof (induction names arbitrary: qs acc s)
  case (Cons n names)
  show ?case
  proof (cases "HasSuffix n snapTmp")
    case True
    obtain r s1 where rm: "os_remove (d, n) s = (r, s1)" by force
    have f1: "faults s1 = []" using rm Cons.prems(2) by (auto simp: os_remove_def split: option.splits)
    have l1: "p \<noteq> (d, n) \<Longrightarrow> lookup s1 p = lookup s p" for p using os_remove_lookup [OF rm, of p] by auto
    have "filter (\<lambda>n. HasSuffix n snapExt) names = map (\<lambda>q. fmt020 q @ snapExt) qs"
      using Cons.prems(1) snap_not_tmp [OF True] by (auto split: if_splits)
    from Cons.IH [OF this f1, of acc] obtain s' where
      s': "collect_snaps d names acc s1 = (Inr (acc @ qs), s')" "faults s' = []"
      "\<forall>p. (fst p = d \<longrightarrow> \<not> HasSuffix (snd p) snapTmp) \<longrightarrow> lookup s' p = lookup s1 p" by blast
    have "\<forall>p. (fst p = d \<longrightarrow> \<not> HasSuffix (snd p) snapTmp) \<longrightarrow> lookup s' p = lookup s p"
      using s'(3) l1 True by (metis fst_conv snd_conv)
    then show ?thesis using True rm s'(1,2) by simp
  next
    case False
    show ?thesis
    proof (cases "HasSuffix n snapExt")
      case True
      then obtain q qs' where q: "qs = q # qs'" "n = fmt020 q @ snapExt"
        "filter (\<lambda>n. HasSuffix n snapExt) names = map (\<lambda>q. fmt020 q @ snapExt) qs'"
        using Cons.prems(1) by (cases qs) auto
      then show ?thesis using Cons.IH [OF q(3) Cons.prems(2), of "acc @ [q]"] False True by auto
    qed (use False Cons in auto)
  qed
qed auto

subsection \<open>The files and the history\<close>

text \<open>The newest snapshot holds the state after the first \<open>k\<close> commands; with no snapshot at
  all, \<open>k\<close> is zero.\<close>

definition snap_holds :: "fs \<Rightarrow> string \<Rightarrow> Command list \<Rightarrow> nat \<Rightarrow> bool" where
  "snap_holds s d h k \<longleftrightarrow> k \<le> length h
     \<and> (\<forall>n. lookup s (d, n) \<noteq> None \<longrightarrow> HasSuffix n snapExt \<longrightarrow> (\<exists>j \<le> k. n = fmt020 (word_of_nat j) @ snapExt))
     \<and> (k = 0 \<and> (\<forall>n. HasSuffix n snapExt \<longrightarrow> lookup s (d, n) = None)
        \<or> (\<exists>m. replaced (snapshotPath d (word_of_nat k)) (snapshot_bytes (word_of_nat k) m) s \<and> mem_holds m (take k h)))"

text \<open>The segments: full and synced ones \<open>Ls\<close>, then the newest, which starts at \<open>q\<close>, holds the
  records \<open>rs\<close> and ends in the bytes \<open>t\<close>. Together they hold every command from some point
  not after the snapshot.\<close>

definition log_holds ::
  "fs \<Rightarrow> string \<Rightarrow> Command list \<Rightarrow> nat \<Rightarrow> (u64 \<times> walRecord list) list \<Rightarrow> u64 \<Rightarrow> walRecord list \<Rightarrow> bytes \<Rightarrow> bool" where
  "log_holds s d h k Ls q rs t \<longleftrightarrow>
     (\<forall>n. lookup s (d, n) \<noteq> None \<longrightarrow> HasSuffix n walExt \<longrightarrow> (\<exists>q' \<in> set (map fst Ls @ [q]). n = fmt020 q' @ walExt))
     \<and> sorted_wrt (<) (map fst Ls @ [q])
     \<and> (\<forall>(q', rs') \<in> set Ls. replaced (segmentPath d q') (wal_frames rs') s)
     \<and> contents s (segmentPath d q) = Some (wal_frames rs @ t)
     \<and> (\<exists>i \<le> k. i \<le> length h \<and> concat (map snd Ls) @ rs = numbered i (map EncodeCommand (drop i h)))
     \<and> unat q \<le> length h + 1"

lemma log_holdsI:
  assumes "\<And>n. lookup s (d, n) \<noteq> None \<Longrightarrow> HasSuffix n walExt \<Longrightarrow> \<exists>q' \<in> set (map fst Ls @ [q]). n = fmt020 q' @ walExt"
    and "sorted_wrt (<) (map fst Ls @ [q])"
    and "\<And>q' rs'. (q', rs') \<in> set Ls \<Longrightarrow> replaced (segmentPath d q') (wal_frames rs') s"
    and "contents s (segmentPath d q) = Some (wal_frames rs @ t)"
    and "i \<le> k" "i \<le> length h" "concat (map snd Ls) @ rs = numbered i (map EncodeCommand (drop i h))"
    and "unat q \<le> length h + 1"
  shows "log_holds s d h k Ls q rs t"
  unfolding log_holds_def using assms by blast

definition log_empty :: "fs \<Rightarrow> string \<Rightarrow> bool" where
  "log_empty s d \<longleftrightarrow> (\<forall>n. HasSuffix n walExt \<longrightarrow> lookup s (d, n) = None)"

definition hist_ok :: "Command list \<Rightarrow> bool" where
  "hist_ok h \<longleftrightarrow> length h + 1 < 2 ^ 64 \<and> (\<forall>c \<in> set h. cmd_fits c)"

text \<open>What \<open>Open\<close> can recover the history \<open>h\<close> from.\<close>

definition disk_holds :: "fs \<Rightarrow> string \<Rightarrow> string \<Rightarrow> Command list \<Rightarrow> bytes \<Rightarrow> bool" where
  "disk_holds s wd sd h t \<longleftrightarrow> hist_ok h \<and> torn_tail t \<and>
     (\<exists>k. snap_holds s sd h k \<and>
        (log_empty s wd \<and> k = length h \<or> (\<exists>Ls q rs. log_holds s wd h k Ls q rs t)))"

text \<open>An open store and its files.\<close>

definition ds_inv :: "DurableStore \<Rightarrow> Command list \<Rightarrow> bool" where
  "ds_inv st h \<longleftrightarrow> hist_ok h \<and> mem_holds (dmem st) h \<and> dseq st = word_of_nat (length h)
     \<and> \<not> wfailed (dwal st) \<and> wdir (dwal st) \<noteq> snapDir st
     \<and> (\<exists>k Ls q rs. snap_holds (dfs st) (snapDir st) h k \<and> log_holds (dfs st) (wdir (dwal st)) h k Ls q rs []
          \<and> wf (dwal st) = segmentPath (wdir (dwal st)) q \<and> stable (dfs st) (wf (dwal st)))"

subsection \<open>Crashes\<close>

lemma replaced_crash: "replaced p b s \<Longrightarrow> replaced p b (crash f s)"
  by (simp add: replaced_def lookup_crash)

lemma lookup_crash_None: "lookup (crash f s) p = None \<longleftrightarrow> lookup s p = None"
  by (simp add: lookup_crash)

lemma snap_holds_crash: "snap_holds s d h k \<Longrightarrow> snap_holds (crash f s) d h k"
  unfolding snap_holds_def using replaced_crash [where f = f and s = s]
  by (simp add: lookup_crash_None) blast

lemma snap_holds_cong:
  "(\<And>n. HasSuffix n snapExt \<Longrightarrow> lookup s' (d, n) = lookup s (d, n)) \<Longrightarrow> snap_holds s d h k \<Longrightarrow> snap_holds s' d h k"
  unfolding snap_holds_def replaced_def snapshotPath_def by (simp cong: conj_cong) metis

lemma log_holds_crash:
  "log_holds s d h k Ls q rs t \<Longrightarrow> contents (crash f s) (segmentPath d q) = Some (wal_frames rs @ t')
     \<Longrightarrow> log_holds (crash f s) d h k Ls q rs t'"
  unfolding log_holds_def using replaced_crash [where f = f and s = s]
  by (simp add: lookup_crash_None) blast

lemma ds_inv_crash:
  assumes "ds_inv st h"
  shows "disk_holds (crash f (dfs st)) (wdir (dwal st)) (snapDir st) h []"
proof -
  obtain k Ls q rs where *: "snap_holds (dfs st) (snapDir st) h k" "log_holds (dfs st) (wdir (dwal st)) h k Ls q rs []"
    "wf (dwal st) = segmentPath (wdir (dwal st)) q" "stable (dfs st) (wf (dwal st))"
    using assms by (auto simp: ds_inv_def)
  have "contents (crash f (dfs st)) (segmentPath (wdir (dwal st)) q) = Some (wal_frames rs @ [])"
    using *(2-4) crash_stable by (auto simp: log_holds_def)
  from log_holds_crash [OF *(2) this] snap_holds_crash [OF *(1)] show ?thesis
    using assms by (auto simp: disk_holds_def ds_inv_def)
qed

subsection \<open>Open\<close>

lemma hist_ok_word: "hist_ok h \<Longrightarrow> j \<le> length h + 1 \<Longrightarrow> unat (word_of_nat j :: u64) = j"
  by (simp add: hist_ok_def unat_of_nat)

lemma last_sorted_Max:
  assumes "sorted xs" "xs \<noteq> []" shows "last xs = Max (set xs)"
proof (rule Max_eqI [symmetric])
  fix y assume "y \<in> set xs"
  then show "y \<le> last xs"
    using assms by (auto simp: in_set_conv_nth last_conv_nth intro: sorted_nth_mono)
qed (use assms in auto)

lemma load_holds:
  assumes "snap_holds s d h k" "faults s = []" "hist_ok h"
  shows "\<exists>m s'. loadNewestSnapshot d s = (Inr (m, word_of_nat k), s') \<and> mem_holds m (take k h) \<and> faults s' = []
    \<and> (\<forall>p. (fst p = d \<longrightarrow> \<not> HasSuffix (snd p) snapTmp) \<longrightarrow> lookup s' p = lookup s p)"
proof -
  define Q :: "u64 set" where "Q = {q. lookup s (d, fmt020 q @ snapExt) \<noteq> None}"
  define qs where "qs = sorted_list_of_set Q"
  have fin: "finite Q" by simp
  have "{n. lookup s (d, n) \<noteq> None \<and> HasSuffix n snapExt} = (\<lambda>q. fmt020 q @ snapExt) ` set qs"
    using assms(1) fin by (fastforce simp: snap_holds_def qs_def Q_def)
  moreover have "sorted_wrt (<) qs" by (simp add: qs_def)
  ultimately have "filter (\<lambda>n. HasSuffix n snapExt) (dir_names s d) = map (\<lambda>q. fmt020 q @ snapExt) qs"
    by (rule dir_numbered)
  from collect_snaps_numbered [OF this assms(2), of d "[]"] obtain s' where
    s': "collect_snaps d (dir_names s d) [] s = (Inr qs, s')" "faults s' = []"
      "\<forall>p. (fst p = d \<longrightarrow> \<not> HasSuffix (snd p) snapTmp) \<longrightarrow> lookup s' p = lookup s p" by auto
  have rd: "os_readdir d s = (Inr (dir_names s d), s)" using assms(2) by (simp add: os_readdir_def)
  consider (none) "k = 0" "\<forall>n. HasSuffix n snapExt \<longrightarrow> lookup s (d, n) = None"
    | (some) m where "replaced (snapshotPath d (word_of_nat k)) (snapshot_bytes (word_of_nat k) m) s" "mem_holds m (take k h)"
    using assms(1) by (auto simp: snap_holds_def)
  then show ?thesis
  proof cases
    case none
    then have "qs = []" by (simp add: qs_def Q_def)
    then show ?thesis using s' rd none by (auto simp: loadNewestSnapshot_def mem_holds_new)
  next
    case some
    have kh: "k \<le> length h" using assms(1) by (simp add: snap_holds_def)
    have mem: "word_of_nat k \<in> Q" using some by (simp add: Q_def replaced_def snapshotPath_def)
    have le: "q \<le> word_of_nat k" if q: "q \<in> Q" for q
    proof -
      obtain j where j: "j \<le> k" "fmt020 q @ snapExt = fmt020 (word_of_nat j) @ snapExt"
        using assms(1) q by (fastforce simp: snap_holds_def Q_def)
      then show ?thesis using hist_ok_word [OF assms(3)] kh by (simp add: word_le_nat_alt)
    qed
    have ne: "qs \<noteq> []" using mem fin by (auto simp: qs_def)
    have lst: "last (sort qs) = word_of_nat k"
    proof -
      have "sort qs = qs" by (simp add: qs_def sorted_sort_id)
      moreover have "last qs = Max Q" using fin ne by (simp add: qs_def last_sorted_Max)
      moreover have "Max Q = word_of_nat k" using mem le fin by (intro Max_eqI) auto
      ultimately show ?thesis by simp
    qed
    have "\<not> HasSuffix (fmt020 (word_of_nat k) @ snapExt) snapTmp" using snap_not_tmp by fastforce
    then have "contents s' (snapshotPath d (word_of_nat k)) = Some (snapshot_bytes (word_of_nat k) m)"
      using some(1) s'(3) by (simp add: contents_def replaced_def snapshotPath_def)
    then have "readSnapshot (snapshotPath d (word_of_nat k)) s' = (Inr (m, word_of_nat k), s')"
      using mem_holds_fits [OF some(2)] assms(3) kh s'(2)
      by (simp add: readSnapshot_def os_read_contents parse_snapshot_bytes hist_ok_def)
    then show ?thesis using s' rd some ne lst by (simp add: loadNewestSnapshot_def)
  qed
qed

lemma log_holds_names:
  assumes "log_holds s d h k Ls q rs t"
  shows "{n. lookup s (d, n) \<noteq> None \<and> HasSuffix n walExt} = (\<lambda>q. fmt020 q @ walExt) ` set (map fst Ls @ [q])"
proof -
  have "lookup s (d, fmt020 q' @ walExt) \<noteq> None" if "q' \<in> set (map fst Ls @ [q])" for q'
    using assms that by (auto simp: log_holds_def replaced_def segmentPath_def contents_def)
  then show ?thesis using assms unfolding log_holds_def by (fastforce simp del: set_append set_map)
qed

lemma log_holds_segments:
  assumes "log_holds s d h k Ls q rs t" "faults s = []"
  shows "listSegments d s = (Inr (map (\<lambda>q. \<lparr>startSeq = q, segPath = segmentPath d q\<rparr>) (map fst Ls @ [q])), s)"
  by (rule listSegments_numbered [OF log_holds_names [OF assms(1)] _ assms(2)])
     (use assms(1) in \<open>simp add: log_holds_def\<close>)

lemma numbered_recs_ok:
  assumes "hist_ok h" "r \<in> set (numbered i (map EncodeCommand (drop i h)))"
  shows "wal_rec_ok r"
proof -
  obtain c where "c \<in> set (drop i h)" "rcmd r = EncodeCommand c" using set_numbered [OF assms(2)] by auto
  then show ?thesis using cmd_fits_rec [of c "rseq r"] assms(1) in_set_dropD
    by (metis hist_ok_def walRecord.surjective old.unit.exhaust walRecord.select_convs(1,2))
qed

lemma replay_holds:
  assumes "log_holds s d h k Ls q rs t" "faults s = []" "hist_ok h" "torn_tail t" "k \<le> length h" "mem_holds m (take k h)"
  shows "\<exists>m'. replayWAL d (word_of_nat k) replay_apply m s =
    (Inr ((word_of_nat (length h), m'), length (wal_frames rs)), s) \<and> mem_holds m' h"
proof -
  obtain i where i: "i \<le> k" "concat (map snd Ls) @ rs = numbered i (map EncodeCommand (drop i h))"
    using assms(1) by (auto simp: log_holds_def)
  let ?seg = "\<lambda>q. \<lparr>startSeq = q, segPath = segmentPath d q\<rparr>"
  have ih: "i \<le> length h" using i assms(5) by simp
  have full: "list_all2 (\<lambda>seg rs. contents s (segPath seg) = Some (wal_frames rs)) (map ?seg (map fst Ls)) (map snd Ls)"
    using assms(1) by (fastforce simp: log_holds_def list_all2_conv_all_nth replaced_def contents_def in_set_conv_nth)
  have newest: "contents s (segPath (?seg q)) = Some (wal_frames rs @ t)" using assms(1) by (simp add: log_holds_def)
  have ok: "\<forall>r \<in> set (concat (map snd Ls) @ rs). wal_rec_ok r" using i(2) numbered_recs_ok [OF assms(3)] by simp
  have const: "replay_apply = (\<lambda>n. replay_apply 0)" by (simp add: fun_eq_iff replay_apply_def)
  obtain m' where m': "fold_err (replay_apply 0) (map EncodeCommand (drop k h)) m = Inr m'" "mem_holds m' h"
    using replay_commands [OF assms(6), of "drop k h" 0] assms(3) by (auto simp: hist_ok_def dest: in_set_dropD)
  have "fold_err (replay_step replay_apply) (concat (map snd Ls) @ rs) (word_of_nat k, m) =
      Inr (word_of_nat (length h), m')"
    using replay_numbered [of i k "map EncodeCommand (drop i h)" "replay_apply 0" m] i ih assms(3,5) m'(1)
    by (subst const) (simp add: hist_ok_def drop_map)
  then show ?thesis
    using replay_segs_holds [OF full newest assms(4,2) ok, of replay_apply "(word_of_nat k, m)"] m'(2)
    by (simp add: replayWAL_def log_holds_segments [OF assms(1,2)])
qed

lemma log_holds_cong:
  "(\<And>n. HasSuffix n walExt \<Longrightarrow> lookup s' (d, n) = lookup s (d, n)) \<Longrightarrow> log_holds s d h k Ls q rs t \<Longrightarrow> log_holds s' d h k Ls q rs t"
  unfolding log_holds_def replaced_def segmentPath_def contents_def by (simp cong: conj_cong) metis

lemma log_empty_segments: "log_empty s d \<Longrightarrow> faults s = [] \<Longrightarrow> listSegments d s = (Inr [], s)"
  using listSegments_numbered [of s d "[]"] by (fastforce simp: log_empty_def)

text \<open>A fresh segment behind a snapshot of everything.\<close>

lemma log_holds_fresh:
  assumes "log_empty s d" "lookup s' (segmentPath d (word_of_nat (length h + 1))) = Some new_file"
    "\<And>p. p \<noteq> segmentPath d (word_of_nat (length h + 1)) \<Longrightarrow> lookup s' p = lookup s p" "hist_ok h"
  shows "log_holds s' d h (length h) [] (word_of_nat (length h + 1)) [] []"
proof -
  have "n = fmt020 (word_of_nat (length h + 1)) @ walExt" if "lookup s' (d, n) \<noteq> None" "HasSuffix n walExt" for n
    using that assms(1) assms(3) [of "(d, n)"] unfolding log_empty_def segmentPath_def by fastforce
  moreover have "\<exists>i \<le> length h. i \<le> length h \<and> [] = numbered i (map EncodeCommand (drop i h))"
    by (rule exI [of _ "length h"]) simp
  ultimately show ?thesis
    using assms(2) hist_ok_word [OF assms(4), of "length h + 1"]
    by (simp add: log_holds_def contents_def new_file_def)
qed

lemma createWAL_fresh:
  assumes "lookup s (segmentPath d q) = None" "faults s = []"
  shows "\<exists>s'. createWAL d q s = (Inr \<lparr>wdir = d, wf = segmentPath d q, wsize = 0, wfailed = False\<rparr>, s')
    \<and> faults s' = [] \<and> (\<forall>p. lookup s' p = (if p = segmentPath d q then Some new_file else lookup s p))"
  using assms by (simp add: createWAL_def os_create_excl_def SyncDir_def os_noop_def and_then_def)

lemma log_holds_older: "log_holds s d h k Ls q rs t \<Longrightarrow> (q', rs') \<in> set Ls \<Longrightarrow> q' < q"
  by (fastforce simp: log_holds_def sorted_wrt_append)

lemma truncate_tail:
  assumes "log_holds s d h k Ls q rs t" "faults s = []" "hist_ok h"
  shows "\<exists>s'. os_truncate (segmentPath d q) (length (wal_frames rs)) s = (None, s') \<and> faults s' = []
    \<and> log_holds s' d h k Ls q rs [] \<and> (\<forall>p. p \<noteq> segmentPath d q \<longrightarrow> lookup s' p = lookup s p)
    \<and> (stable s (segmentPath d q) \<longrightarrow> stable s' (segmentPath d q))"
proof -
  obtain f where f: "lookup s (segmentPath d q) = Some f" "fdata f = wal_frames rs @ t"
    using assms(1) by (auto simp: log_holds_def contents_def)
  let ?f = "f\<lparr>fdata := wal_frames rs, fsynced := min (length (wal_frames rs)) (fsynced f)\<rparr>"
  let ?s = "put_file (segmentPath d q) ?f s"
  have tr: "os_truncate (segmentPath d q) (length (wal_frames rs)) s = (None, ?s)"
    using f assms(2) by (simp add: os_truncate_def)
  have "\<forall>(q', rs') \<in> set Ls. replaced (segmentPath d q') (wal_frames rs') ?s"
    using assms(1) log_holds_older [OF assms(1)] by (fastforce simp: log_holds_def replaced_def segmentPath_def)
  then have "log_holds ?s d h k Ls q rs []"
    using assms(1) unfolding log_holds_def by (auto simp: contents_def segmentPath_def)
  then show ?thesis using tr assms(2) f by (auto simp: stable_def)
qed

lemma Open_holds:
  assumes "disk_holds s (dir @ ''/wal'') (dir @ ''/snap'') h t" "faults s = []"
  shows "\<exists>st. Open dir thr s = (Inr st, dfs st) \<and> mem_holds (dmem st) h \<and> dseq st = word_of_nat (length h)
    \<and> snapDir st = dir @ ''/snap'' \<and> wdir (dwal st) = dir @ ''/wal'' \<and> faults (dfs st) = [] \<and> 0 < snapshotThreshold st
    \<and> ((\<forall>p. stable s p) \<longrightarrow> ds_inv st h)"
proof -
  let ?wd = "dir @ ''/wal''" and ?sd = "dir @ ''/snap''"
  obtain k where k: "snap_holds s ?sd h k"
    "log_empty s ?wd \<and> k = length h \<or> (\<exists>Ls q rs. log_holds s ?wd h k Ls q rs t)"
    and ok: "hist_ok h" "torn_tail t" using assms(1) by (auto simp: disk_holds_def)
  obtain m s1 where l: "loadNewestSnapshot ?sd s = (Inr (m, word_of_nat k), s1)" "mem_holds m (take k h)" "faults s1 = []"
    and same: "\<And>p. (fst p = ?sd \<longrightarrow> \<not> HasSuffix (snd p) snapTmp) \<Longrightarrow> lookup s1 p = lookup s p"
    using load_holds [OF k(1) assms(2) ok(1)] by blast
  have kh: "k \<le> length h" using k(1) by (simp add: snap_holds_def)
  have snap1: "snap_holds s1 ?sd h k"
    by (rule snap_holds_cong [OF _ k(1)]) (auto intro!: same dest: snap_not_tmp)
  have wal1: "lookup s1 (?wd, n) = lookup s (?wd, n)" for n by (rule same) simp
  have np: "and_then (os_noop s) os_noop = (None, s)" using assms(2) by (simp add: os_noop_def)
  have thr: "0 < (if thr \<le> 0 then defaultSnapshotThreshold else nat thr)" by (simp add: defaultSnapshotThreshold_def)
  from k(2) consider (new) "log_empty s ?wd" "k = length h" | (old) Ls q rs where "log_holds s ?wd h k Ls q rs t" by blast
  then show ?thesis
  proof cases
    case new
    let ?q = "word_of_nat (length h + 1) :: u64"
    have e1: "log_empty s1 ?wd" using new(1) wal1 by (simp add: log_empty_def)
    have "lookup s1 (segmentPath ?wd ?q) = None" using e1 by (simp add: log_empty_def segmentPath_def)
    then obtain s2 where c: "createWAL ?wd ?q s1 = (Inr \<lparr>wdir = ?wd, wf = segmentPath ?wd ?q, wsize = 0, wfailed = False\<rparr>, s2)"
      "faults s2 = []" "\<And>p. lookup s2 p = (if p = segmentPath ?wd ?q then Some new_file else lookup s1 p)"
      using createWAL_fresh l(3) by blast
    have lg: "log_holds s2 ?wd h (length h) [] ?q [] []"
      by (rule log_holds_fresh [OF e1 _ _ ok(1)]) (simp_all add: c(3))
    have sn: "snap_holds s2 ?sd h k"
      by (rule snap_holds_cong [OF _ snap1]) (simp add: c(3) segmentPath_def)
    have st: "stable s2 (segmentPath ?wd ?q)" by (simp add: stable_def c(3) new_file_def)
    have rp: "replayWAL ?wd (word_of_nat k) replay_apply m s1 = (Inr ((word_of_nat k, m), 0), s1)"
      by (simp add: replayWAL_def log_empty_segments [OF e1 l(3)])
    have q: "word_of_nat k + 1 = ?q" using new(2) by simp
    have op: "Open dir thr s = (Inr \<lparr>dmem = m, dwal = \<lparr>wdir = ?wd, wf = segmentPath ?wd ?q, wsize = 0, wfailed = False\<rparr>,
        dseq = word_of_nat k, snapDir = ?sd, snapshotThreshold = if thr \<le> 0 then defaultSnapshotThreshold else nat thr, dfs = s2\<rparr>, s2)"
      using np l rp(1) log_empty_segments [OF e1 l(3)] c(1) by (simp add: Open_def Let_def q del: of_nat_add of_nat_Suc)
    have "mem_holds m h" using l(2) new(2) by simp
    then show ?thesis
      unfolding op using ok(1) c(2) lg sn st thr new(2) by (auto simp: ds_inv_def simp del: of_nat_add of_nat_Suc)
  next
    case old
    have o1: "log_holds s1 ?wd h k Ls q rs t" by (rule log_holds_cong [OF wal1 old])
    obtain m' where rp: "replayWAL ?wd (word_of_nat k) replay_apply m s1 =
        (Inr ((word_of_nat (length h), m'), length (wal_frames rs)), s1)" "mem_holds m' h"
      using replay_holds [OF o1 l(3) ok kh l(2)] by blast
    obtain s2 where t: "os_truncate (segmentPath ?wd q) (length (wal_frames rs)) s1 = (None, s2)" "faults s2 = []"
      "log_holds s2 ?wd h k Ls q rs []" "\<And>p. p \<noteq> segmentPath ?wd q \<Longrightarrow> lookup s2 p = lookup s1 p"
      "stable s1 (segmentPath ?wd q) \<Longrightarrow> stable s2 (segmentPath ?wd q)"
      using truncate_tail [OF o1 l(3) ok(1)] by blast
    have oa: "openWALForAppend ?wd q (length (wal_frames rs)) s2 =
        (Inr \<lparr>wdir = ?wd, wf = segmentPath ?wd q, wsize = length (wal_frames rs), wfailed = False\<rparr>, s2)"
      using t(2,3) by (auto simp: openWALForAppend_def os_open_append_def log_holds_def contents_def)
    have sn: "snap_holds s2 ?sd h k"
      by (rule snap_holds_cong [OF _ snap1]) (simp add: t(4) segmentPath_def)
    have st: "(\<forall>p. stable s p) \<longrightarrow> stable s2 (segmentPath ?wd q)"
      using t(5) wal1 by (simp add: stable_def segmentPath_def)
    have op: "Open dir thr s = (Inr \<lparr>dmem = m', dwal = \<lparr>wdir = ?wd, wf = segmentPath ?wd q, wsize = length (wal_frames rs), wfailed = False\<rparr>,
        dseq = word_of_nat (length h), snapDir = ?sd, snapshotThreshold = if thr \<le> 0 then defaultSnapshotThreshold else nat thr, dfs = s2\<rparr>, s2)"
      using np l rp(1) log_holds_segments [OF o1 l(3)] t(1) oa by (simp add: Open_def Let_def)
    show ?thesis
      unfolding op using rp(2) ok(1) t(2,3) sn st thr by (auto simp: ds_inv_def)
  qed
qed

subsection \<open>Appending\<close>

lemma Append_result:
  assumes "Append w n c s = (r, w', s')" "\<not> wfailed w" "replaced (wf w) D s"
  defines "b \<equiv> Frame [] (walPayload \<lparr>rseq = n, rcmd = c\<rparr>)"
  shows "r = None \<Longrightarrow> replaced (wf w) (D @ b) s' \<and> w' = w\<lparr>wsize := wsize w + length b\<rparr>"
    and "r \<noteq> None \<Longrightarrow> w' = w\<lparr>wfailed := True\<rparr> \<and> (\<exists>m. lookup s' (wf w) = Some \<lparr>fdata = D @ take m b, fsynced = length D\<rparr>)"
    and "p \<noteq> wf w \<Longrightarrow> lookup s' p = lookup s p"
proof -
  obtain r1 s1 where w: "os_write (wf w) b s = (r1, s1)" by force
  obtain r2 s2 where y: "os_sync (wf w) s1 = (r2, s2)" by force
  have D: "lookup s (wf w) = Some \<lparr>fdata = D, fsynced = length D\<rparr>" using assms(3) by (simp add: replaced_def)
  note ow = os_write_other [OF w] and oy = os_sync_other [OF y]
  have "(r = None \<longrightarrow> replaced (wf w) (D @ b) s' \<and> w' = w\<lparr>wsize := wsize w + length b\<rparr>)
    \<and> (r \<noteq> None \<longrightarrow> w' = w\<lparr>wfailed := True\<rparr> \<and> (\<exists>m. lookup s' (wf w) = Some \<lparr>fdata = D @ take m b, fsynced = length D\<rparr>))
    \<and> (\<forall>p. p \<noteq> wf w \<longrightarrow> lookup s' p = lookup s p)"
  proof (cases r1)
    case (Some e)
    then show ?thesis using assms(1,2) w D os_write_fail [of "wf w" b s e s1] ow
      by (auto simp: Append_def b_def [symmetric])
  next
    case None
    then have l1: "lookup s1 (wf w) = Some \<lparr>fdata = D @ b, fsynced = length D\<rparr>"
      using D os_write_ok [of "wf w" b s s1] w by simp
    show ?thesis
    proof (cases r2)
      case (Some e)
      then show ?thesis using assms(1,2) w y None l1 os_sync_fail [of "wf w" s1 e s2] ow oy
        by (auto simp: Append_def b_def [symmetric])
    next
      case None2: None
      then show ?thesis using assms(1,2) w y None l1 os_sync_ok [of "wf w" s1 s2] ow oy
        by (auto simp: Append_def b_def [symmetric] replaced_def)
    qed
  qed
  then show "r = None \<Longrightarrow> replaced (wf w) (D @ b) s' \<and> w' = w\<lparr>wsize := wsize w + length b\<rparr>"
    "r \<noteq> None \<Longrightarrow> w' = w\<lparr>wfailed := True\<rparr> \<and> (\<exists>m. lookup s' (wf w) = Some \<lparr>fdata = D @ take m b, fsynced = length D\<rparr>)"
    "p \<noteq> wf w \<Longrightarrow> lookup s' p = lookup s p" by blast+
qed

lemma Append_faultless: "faults s = [] \<Longrightarrow> faults (snd (snd (Append w n c s))) = []"
  by (simp add: Append_def Let_def os_write_def os_sync_def)

text \<open>The newest segment may change: other bytes behind its records, or one record more.\<close>

lemma log_holds_newest:
  assumes "log_holds s d h k Ls q rs t" "contents s' (segmentPath d q) = Some (wal_frames rs @ t')"
    "\<And>p. p \<noteq> segmentPath d q \<Longrightarrow> lookup s' p = lookup s p"
  shows "log_holds s' d h k Ls q rs t'"
proof -
  have "replaced (segmentPath d q') (wal_frames rs') s'" if "(q', rs') \<in> set Ls" for q' rs'
    using assms(1) that log_holds_older [OF assms(1) that] assms(3) [of "segmentPath d q'"]
    by (auto simp: log_holds_def replaced_def segmentPath_def)
  moreover have "lookup s' (d, n) \<noteq> None \<Longrightarrow> HasSuffix n walExt \<Longrightarrow> \<exists>q' \<in> set (map fst Ls @ [q]). n = fmt020 q' @ walExt" for n
    using assms(1) assms(3) [of "(d, n)"] by (cases "(d, n) = segmentPath d q") (auto simp: log_holds_def segmentPath_def)
  ultimately show ?thesis using assms(1,2) unfolding log_holds_def by blast
qed

lemma log_holds_more:
  assumes "log_holds s d h k Ls q rs []"
    "contents s (segmentPath d q) = Some (wal_frames rs) \<Longrightarrow>
       contents s' (segmentPath d q) = Some (wal_frames (rs @ [\<lparr>rseq = word_of_nat (length h) + 1, rcmd = EncodeCommand c\<rparr>]))"
    "\<And>p. p \<noteq> segmentPath d q \<Longrightarrow> lookup s' p = lookup s p"
  shows "log_holds s' d (h @ [c]) k Ls q (rs @ [\<lparr>rseq = word_of_nat (length h) + 1, rcmd = EncodeCommand c\<rparr>]) []"
proof -
  let ?r = "\<lparr>rseq = word_of_nat (length h) + 1, rcmd = EncodeCommand c\<rparr>"
  obtain i where i: "i \<le> k" "i \<le> length h" "concat (map snd Ls) @ rs = numbered i (map EncodeCommand (drop i h))"
    using assms(1) by (auto simp: log_holds_def)
  have l: "log_holds s' d h k Ls q rs (wal_frames [?r])"
  proof (rule log_holds_newest [OF assms(1) _ assms(3)])
    show "contents s' (segmentPath d q) = Some (wal_frames rs @ wal_frames [?r])"
      using assms(1,2) by (simp add: log_holds_def)
  qed
  have "concat (map snd Ls) @ rs @ [?r] = numbered i (map EncodeCommand (drop i (h @ [c])))"
    using i by (simp add: numbered_append flip: append_assoc)
  then have "\<exists>i \<le> k. i \<le> length (h @ [c]) \<and> concat (map snd Ls) @ rs @ [?r] = numbered i (map EncodeCommand (drop i (h @ [c])))"
    using i by (intro exI [of _ i]) simp
  then show ?thesis using l by (simp add: log_holds_def)
qed

lemma snap_holds_more: "snap_holds s d h k \<Longrightarrow> snap_holds s d (h @ [c]) k"
  by (auto simp: snap_holds_def)

end
