(* ===== verification/Durability.thy ===== *)
theory Durability
  imports Recovery
begin

text \<open>
  Snapshots and mutations of the durable engine (\<^verbatim>\<open>internal/storage/store.go\<close>) keep the
  history recoverable whatever I/O operation fails and wherever the machine stops.
\<close>

subsection \<open>Pieces of a snapshot\<close>

lemma tmp_not_snap: "HasSuffix n snapExt \<Longrightarrow> (d, n) \<noteq> tmp_path p"
  using snap_not_tmp [of n] HasSuffix_append(1) [of "snd p" snapTmp] by (auto simp: tmp_path_def snapTmp_def)

lemma snap_holds_written:
  assumes "snap_holds s d h k" "mem_holds m h" "hist_ok h"
    "replaced (snapshotPath d (word_of_nat (length h))) (snapshot_bytes (word_of_nat (length h)) m) s'"
    "\<And>p. p \<noteq> snapshotPath d (word_of_nat (length h)) \<Longrightarrow> p \<noteq> tmp_path (snapshotPath d (word_of_nat (length h))) \<Longrightarrow> lookup s' p = lookup s p"
  shows "snap_holds s' d h (length h)"
proof -
  let ?p = "snapshotPath d (word_of_nat (length h))"
  have "\<exists>j \<le> length h. n = fmt020 (word_of_nat j) @ snapExt" if n: "lookup s' (d, n) \<noteq> None" "HasSuffix n snapExt" for n
  proof (cases "(d, n) = ?p")
    case False
    then have "lookup s (d, n) \<noteq> None" using n(1) assms(5) tmp_not_snap [OF n(2)] by simp
    then show ?thesis using assms(1) n(2) unfolding snap_holds_def by (meson le_trans)
  qed (auto simp: snapshotPath_def)
  then show ?thesis using assms(2,4) by (auto simp: snap_holds_def)
qed

lemma snapshot_written:
  assumes "writeSnapshot d (word_of_nat (length h)) m s = (r, s')" "snap_holds s d h k" "mem_holds m h" "hist_ok h"
  shows "\<exists>k' \<ge> k. snap_holds s' d h k'" "r = None \<Longrightarrow> snap_holds s' d h (length h)"
    and "fst p \<noteq> d \<Longrightarrow> lookup s' p = lookup s p"
proof -
  let ?p = "snapshotPath d (word_of_nat (length h))"
  have w: "WriteFileAtomic ?p (snapshot_bytes (word_of_nat (length h)) m) s = (r, s')"
    using assms(1) by (simp add: writeSnapshot_atomic)
  note res = WriteFileAtomic_result [OF w]
  have new: "snap_holds s' d h (length h)" if "replaced ?p (snapshot_bytes (word_of_nat (length h)) m) s'"
    using snap_holds_written [OF assms(2-4) that res(3)] .
  have old: "snap_holds s' d h k" if "lookup s' ?p = lookup s ?p"
  proof (rule snap_holds_cong [OF _ assms(2)])
    fix n assume "HasSuffix n snapExt"
    then show "lookup s' (d, n) = lookup s (d, n)" using that res(3) tmp_not_snap by metis
  qed
  have "k \<le> length h" using assms(2) by (simp add: snap_holds_def)
  then show "\<exists>k' \<ge> k. snap_holds s' d h k'" using res(1) new old by blast
  show "r = None \<Longrightarrow> snap_holds s' d h (length h)" using res(2) new by blast
  show "fst p \<noteq> d \<Longrightarrow> lookup s' p = lookup s p"
    by (rule res(3)) (auto simp: tmp_path_def snapshotPath_def)
qed

lemma log_holds_mono: "log_holds s d h k Ls q rs t \<Longrightarrow> k \<le> k' \<Longrightarrow> log_holds s d h k' Ls q rs t"
  unfolding log_holds_def by (meson le_trans)

lemma log_holds_rotated:
  assumes "log_holds s d h k Ls q rs []" "stable s (segmentPath d q)" "hist_ok h"
    "lookup s (segmentPath d (word_of_nat (length h) + 1)) = None"
    "\<And>p. lookup s' p = (if p = segmentPath d (word_of_nat (length h) + 1) then Some new_file else lookup s p)"
  shows "log_holds s' d h k (Ls @ [(q, rs)]) (word_of_nat (length h) + 1) [] []"
proof -
  let ?q = "word_of_nat (length h) + 1 :: u64"
  obtain f where f: "lookup s (segmentPath d q) = Some f" "fdata f = wal_frames rs"
    using assms(1) by (auto simp: log_holds_def contents_def)
  obtain i where i: "i \<le> k" "i \<le> length h" "concat (map snd (Ls @ [(q, rs)])) @ [] = numbered i (map EncodeCommand (drop i h))"
    using assms(1) by (auto simp: log_holds_def)
  have sz: "unat ?q = length h + 1" using hist_ok_word [OF assms(3), of "length h + 1"] by (simp add: add.commute)
  have "q \<noteq> ?q" using f assms(4) by auto
  then have lt: "q < ?q" using assms(1) sz by (simp add: log_holds_def word_less_nat_alt word_unat_eq_iff)
  have older: "fst x < ?q" if "x \<in> set (Ls @ [(q, rs)])" for x
    using that lt log_holds_older [OF assms(1), of "fst x" "snd x"] by auto
  show ?thesis
  proof (rule log_holdsI [OF _ _ _ _ i])
    show "sorted_wrt (<) (map fst (Ls @ [(q, rs)]) @ [?q])"
      using assms(1) lt older unfolding sorted_wrt_append by (auto simp: log_holds_def sorted_wrt_append)
  next
    fix q' rs' assume x: "(q', rs') \<in> set (Ls @ [(q, rs)])"
    have "replaced (segmentPath d q') (wal_frames rs') s"
    proof (cases "(q', rs') \<in> set Ls")
      case True
      then show ?thesis using assms(1) by (auto simp: log_holds_def)
    next
      case False
      then show ?thesis using x f assms(2) by (auto simp: replaced_def stable_def)
    qed
    then show "replaced (segmentPath d q') (wal_frames rs') s'"
      using assms(5) older [OF x] by (auto simp: replaced_def segmentPath_def)
  next
    fix n assume "lookup s' (d, n) \<noteq> None" "HasSuffix n walExt"
    then show "\<exists>q' \<in> set (map fst (Ls @ [(q, rs)]) @ [?q]). n = fmt020 q' @ walExt"
      using assms(1) assms(5) [of "(d, n)"]
      by (cases "(d, n) = segmentPath d ?q") (auto simp: log_holds_def segmentPath_def)
  qed (use assms(5) sz in \<open>simp_all add: contents_def new_file_def\<close>)
qed

lemma log_holds_drop_oldest:
  assumes "log_holds s d h (length h) ((q0, rs0) # Ls) q rs t"
    "\<And>p. lookup s' p = (if p = segmentPath d q0 then None else lookup s p)"
  shows "log_holds s' d h (length h) Ls q rs t"
proof -
  obtain i where i: "i \<le> length h" "rs0 @ concat (map snd Ls) @ rs = numbered i (map EncodeCommand (drop i h))"
    using assms(1) by (auto simp: log_holds_def)
  have "length (rs0 @ concat (map snd Ls) @ rs) = length h - i" unfolding i(2) by simp
  then have le: "i + length rs0 \<le> length h" using i(1) by simp
  have "drop (length rs0) (rs0 @ concat (map snd Ls) @ rs) = concat (map snd Ls) @ rs" by simp
  then have eq: "concat (map snd Ls) @ rs = numbered (i + length rs0) (map EncodeCommand (drop (i + length rs0) h))"
    unfolding i(2) by (simp add: numbered_drop drop_map add.commute)
  have lt: "q0 < q'" if "q' \<in> set (map fst Ls @ [q])" for q' using assms(1) that by (auto simp: log_holds_def)
  show ?thesis
  proof (rule log_holdsI [OF _ _ _ _ le le eq])
    fix n assume n: "lookup s' (d, n) \<noteq> None" "HasSuffix n walExt"
    then have n': "(d, n) \<noteq> segmentPath d q0" "lookup s (d, n) \<noteq> None" using assms(2) [of "(d, n)"] by metis+
    obtain q' where "q' \<in> set (map fst ((q0, rs0) # Ls) @ [q])" "n = fmt020 q' @ walExt"
      using assms(1) n(2) n'(2) unfolding log_holds_def by blast
    then show "\<exists>q' \<in> set (map fst Ls @ [q]). n = fmt020 q' @ walExt"
      using n'(1) by (auto simp: segmentPath_def)
  next
    fix q' rs' assume x: "(q', rs') \<in> set Ls"
    then have "q0 < q'" by (intro lt) force
    then show "replaced (segmentPath d q') (wal_frames rs') s'"
      using assms(1) x assms(2) [of "segmentPath d q'"] by (auto simp: log_holds_def replaced_def segmentPath_def)
  next
    show "contents s' (segmentPath d q) = Some (wal_frames rs @ t)"
      using assms(1) assms(2) [of "segmentPath d q"] lt [of q]
      by (simp add: log_holds_def contents_def segmentPath_def)
  qed (use assms(1) in \<open>simp_all add: log_holds_def\<close>)
qed

lemma rotate_result:
  assumes "rotate w q s = (r, w', s')" "\<not> wfailed w"
  defines "P \<equiv> segmentPath (wdir w) q"
  shows "(r \<noteq> None \<and> w' = w \<and> (\<forall>p. lookup s' p = lookup s p))
    \<or> (lookup s P = None \<and> (\<forall>p. lookup s' p = (if p = P then Some new_file else lookup s p))
        \<and> (w' = w\<lparr>wf := P, wsize := 0\<rparr> \<or> w' = w \<and> r \<noteq> None \<and> faults s \<noteq> []))"
proof -
  obtain r1 s1 where 1: "os_create_excl P s = (r1, s1)" by force
  note l1 = os_create_excl_lookup [OF 1]
  obtain r2 s2 where 2: "SyncDir s1 = (r2, s2)" by force
  note l2 = SyncDir_lookup [OF 2]
  obtain r3 s3 where 3: "os_noop s2 = (r3, s3)" by force
  note l3 = os_noop_lookup [OF 3]
  show ?thesis
  proof (cases r1)
    case (Some e)
    then show ?thesis using assms(1,2) 1 l1 by (auto simp: rotate_def createWAL_def P_def)
  next
    case None
    then have c: "lookup s P = None" "lookup s1 p = (if p = P then Some new_file else lookup s p)" for p
      using l1 by auto
    show ?thesis
    proof (cases r2)
      case (Some e)
      have "faults s \<noteq> []"
      proof
        assume "faults s = []"
        then have "faults s1 = []" using os_faultless(4) [of s P] 1 by simp
        then show False using 2 Some by (simp add: SyncDir_def os_noop_def split: if_splits)
      qed
      then show ?thesis using assms(1,2) 1 2 3 None Some c l2 l3 by (auto simp: rotate_def createWAL_def P_def [symmetric])
    next
      case None2: None
      then show ?thesis using assms(1,2) 1 2 3 None c l2 l3 by (auto simp: rotate_def createWAL_def P_def [symmetric])
    qed
  qed
qed

lemma rotate_faultless: "faults s = [] \<Longrightarrow> faults (snd (snd (rotate w q s))) = []"
  by (simp add: rotate_def createWAL_def os_create_excl_def SyncDir_def os_noop_def split: option.splits)

lemma listSegments_any:
  assumes "log_holds s d h k Ls q rs t" "listSegments d s = (x, s')"
  shows "lookup s' p = lookup s p"
    and "x = Inr segs \<Longrightarrow> segs = map (\<lambda>q. \<lparr>startSeq = q, segPath = segmentPath d q\<rparr>) (map fst Ls @ [q])"
    and "faults s = [] \<Longrightarrow> faults s' = []"
proof -
  obtain r1 s1 where 1: "os_readdir d s = (r1, s1)" by force
  have s': "s' = s1" using assms(2) 1 by (auto simp: listSegments_def split: sum.splits)
  show "lookup s' p = lookup s p" using os_readdir_lookup [OF 1] s' by simp
  show "faults s = [] \<Longrightarrow> faults s' = []" using os_faultless(12) [of s d] 1 s' by simp
  assume x: "x = Inr segs"
  let ?s = "s\<lparr>faults := []\<rparr>"
  have "log_holds ?s d h k Ls q rs t" by (rule log_holds_cong [OF _ assms(1)]) simp
  from log_holds_segments [OF this]
  have "listSegments d ?s = (Inr (map (\<lambda>q. \<lparr>startSeq = q, segPath = segmentPath d q\<rparr>) (map fst Ls @ [q])), ?s)" by simp
  moreover have "r1 = Inr (dir_names s d)" if "r1 = Inr ns" for ns
    using 1 that next_fault_files by (auto simp: os_readdir_def dir_names_def split: prod.splits option.splits)
  moreover have "dir_names ?s d = dir_names s d" by (simp add: dir_names_def)
  ultimately show "segs = map (\<lambda>q. \<lparr>startSeq = q, segPath = segmentPath d q\<rparr>) (map fst Ls @ [q])"
    using assms(2) 1 x by (auto simp: listSegments_def os_readdir_def split: sum.splits)
qed

lemma remove_all_lookup:
  "remove_all ps s = (r, s') \<Longrightarrow> lookup s' p = lookup s p \<or> p \<in> set ps \<and> lookup s' p = None"
proof (induction ps arbitrary: s)
  case (Cons q ps)
  obtain r1 s1 where 1: "os_remove q s = (r1, s1)" by force
  show ?case using Cons.prems Cons.IH [of s1] os_remove_lookup [OF 1, of p] 1
    by (cases r1) (auto simp: and_then_def split: if_splits)
qed simp

lemma remove_all_faultless: "faults s = [] \<Longrightarrow> faults (snd (remove_all ps s)) = []"
  by (induction ps arbitrary: s) (simp_all add: and_then_faultless)

text \<open>Deleting covered segments oldest first never leaves a gap.\<close>

lemma remove_segments:
  assumes "log_holds s d h (length h) Ls q rs t" "remove_all (map (segmentPath d) (map fst Ls)) s = (r, s')"
  shows "\<exists>Ls'. log_holds s' d h (length h) Ls' q rs t"
  using assms
proof (induction Ls arbitrary: s)
  case (Cons x Ls)
  obtain q0 rs0 where x: "x = (q0, rs0)" by force
  obtain r1 s1 where 1: "os_remove (segmentPath d q0) s = (r1, s1)" by force
  note l1 = os_remove_lookup [OF 1]
  show ?case
  proof (cases r1)
    case (Some e)
    then have "s' = s1" using Cons.prems(2) 1 x by (simp add: and_then_def)
    moreover have "log_holds s1 d h (length h) (x # Ls) q rs t"
      by (rule log_holds_cong [OF _ Cons.prems(1)]) (simp add: l1 Some)
    ultimately show ?thesis by blast
  next
    case None
    have "log_holds s1 d h (length h) Ls q rs t"
      by (rule log_holds_drop_oldest [OF Cons.prems(1) [unfolded x]]) (use l1 None in auto)
    then show ?thesis using Cons.IH Cons.prems(2) 1 None x by simp
  qed
qed auto

lemma remove_segments_ok:
  assumes "remove_all ps s = (None, s')" "p \<in> set ps" shows "lookup s' p = None"
  using assms
proof (induction ps arbitrary: s)
  case (Cons q ps)
  obtain r1 s1 where 1: "os_remove q s = (r1, s1)" by force
  then have r1: "r1 = None" "remove_all ps s1 = (None, s')" using Cons.prems(1) by (cases r1; simp)+
  show ?case
  proof (cases "p \<in> set ps")
    case True
    then show ?thesis using Cons.IH r1 by blast
  next
    case False
    then show ?thesis using remove_all_lookup [OF r1(2), of p] os_remove_lookup [OF 1, of p] Cons.prems(2) r1 by auto
  qed
qed simp

lemma take_not_max:
  fixes xs :: "'a::linorder list"
  assumes "sorted xs" "distinct xs" "\<forall>y \<in> set xs. y \<le> x" "0 < n"
  shows "x \<notin> set (take (length xs - n) xs)"
proof
  assume "x \<in> set (take (length xs - n) xs)"
  then obtain i where i: "i < length xs - n" "xs ! i = x" by (auto simp: in_set_conv_nth)
  then have "xs ! i \<le> xs ! Suc i" "xs ! i \<noteq> xs ! Suc i"
    using assms by (auto intro: sorted_nth_mono simp: nth_eq_iff_index_eq)
  moreover have "xs ! Suc i \<le> x" using assms(3,4) i by auto
  ultimately show False using i by simp
qed

lemma prune_keeps_newest:
  assumes "pruneSnapshots d n s = (r, s')" "snap_holds s d h k" "hist_ok h" "0 < n"
  shows "snap_holds s' d h k" and "fst p \<noteq> d \<Longrightarrow> lookup s' p = lookup s p"
    and "faults s = [] \<Longrightarrow> faults s' = []"
proof -
  obtain r1 s1 where 1: "os_readdir d s = (r1, s1)" by force
  note l1 = os_readdir_lookup [OF 1]
  have f1: "faults s = [] \<Longrightarrow> faults s1 = []" using os_faultless(12) [of s d] 1 by simp
  have "\<exists>ps. (r, s') = remove_all ps s1 \<and> (\<forall>p \<in> set ps. fst p = d \<and> p \<noteq> snapshotPath d (word_of_nat k)) \<or> s' = s1"
  proof (cases r1)
    case (Inr ns)
    have ns: "ns = dir_names s d"
      using 1 Inr next_fault_files by (auto simp: os_readdir_def dir_names_def split: prod.splits option.splits)
    define names where "names = sort (filter (\<lambda>n. HasSuffix n snapExt) ns)"
    have "y \<le> fmt020 (word_of_nat k) @ snapExt" if y: "y \<in> set names" for y
    proof -
      have "lookup s (d, y) \<noteq> None" "HasSuffix y snapExt" using y by (auto simp: names_def ns set_dir_names)
      then obtain j where j: "j \<le> k" "k \<le> length h" "y = fmt020 (word_of_nat j) @ snapExt"
        using assms(2) unfolding snap_holds_def by blast
      then have "\<not> (word_of_nat k :: u64) < word_of_nat j" using assms(3) by (simp add: word_of_nat_less_iff hist_ok_def)
      then show ?thesis by (simp add: j(3) not_less [symmetric])
    qed
    then have "fmt020 (word_of_nat k) @ snapExt \<notin> set (take (length names - n) names)"
      using assms(4) by (intro take_not_max) (auto simp: names_def ns dir_names_def)
    then have "\<forall>p \<in> set (map (Pair d) (take (length names - n) names)). fst p = d \<and> p \<noteq> snapshotPath d (word_of_nat k)"
      by (auto simp: snapshotPath_def)
    moreover have "(r, s') = remove_all (map (Pair d) (take (length names - n) names)) s1"
      using assms(1) 1 Inr by (simp add: pruneSnapshots_def names_def Let_def)
    ultimately show ?thesis by blast
  qed (use assms(1) 1 in \<open>simp add: pruneSnapshots_def\<close>)
  then consider ps where "remove_all ps s1 = (r, s')" "\<forall>p \<in> set ps. fst p = d \<and> p \<noteq> snapshotPath d (word_of_nat k)" | "s' = s1"
    by metis
  then have *: "(\<forall>p. lookup s' p = lookup s p \<or> fst p = d \<and> p \<noteq> snapshotPath d (word_of_nat k) \<and> lookup s' p = None)
    \<and> (faults s = [] \<longrightarrow> faults s' = [])"
  proof cases
    case (1 ps)
    then show ?thesis using remove_all_lookup [OF 1(1)] remove_all_faultless [of s1 ps] f1 l1 by (metis snd_conv)
  qed (use l1 f1 in auto)
  then show "fst p \<noteq> d \<Longrightarrow> lookup s' p = lookup s p" "faults s = [] \<Longrightarrow> faults s' = []" by blast+
  have "lookup s' (snapshotPath d (word_of_nat k)) = lookup s (snapshotPath d (word_of_nat k))"
    "\<And>n. lookup s' (d, n) \<noteq> None \<Longrightarrow> lookup s (d, n) \<noteq> None" using * by metis+
  then show "snap_holds s' d h k" using assms(2) unfolding snap_holds_def replaced_def by metis
qed

subsection \<open>A snapshot as a whole\<close>

text \<open>The part of the invariant that recovery needs: everything the history consists of is on
  disk and synced.\<close>

definition disk_safe :: "DurableStore \<Rightarrow> Command list \<Rightarrow> bool" where
  "disk_safe st h \<longleftrightarrow> (\<exists>k Ls q rs. snap_holds (dfs st) (snapDir st) h k
     \<and> log_holds (dfs st) (wdir (dwal st)) h k Ls q rs [] \<and> stable (dfs st) (segmentPath (wdir (dwal st)) q))"

lemma disk_safeI:
  "snap_holds (dfs st) (snapDir st) h k \<Longrightarrow> log_holds (dfs st) (wdir (dwal st)) h k Ls q rs [] \<Longrightarrow>
     stable (dfs st) (segmentPath (wdir (dwal st)) q) \<Longrightarrow> disk_safe st h"
  unfolding disk_safe_def by blast

lemma disk_safe_crash:
  assumes "disk_safe st h" "hist_ok h"
  shows "disk_holds (crash f (dfs st)) (wdir (dwal st)) (snapDir st) h []"
proof -
  obtain k Ls q rs where *: "snap_holds (dfs st) (snapDir st) h k" "log_holds (dfs st) (wdir (dwal st)) h k Ls q rs []"
    "stable (dfs st) (segmentPath (wdir (dwal st)) q)" using assms(1) unfolding disk_safe_def by blast
  have "contents (crash f (dfs st)) (segmentPath (wdir (dwal st)) q) = Some (wal_frames rs @ [])"
    using *(2,3) crash_stable by (simp add: log_holds_def)
  from log_holds_crash [OF *(2) this] snap_holds_crash [OF *(1)] assms(2) show ?thesis
    unfolding disk_holds_def using torn_tail_Nil by blast
qed

lemma ds_inv_safe: "ds_inv st h \<Longrightarrow> disk_safe st h"
  unfolding ds_inv_def disk_safe_def by metis

lemma ds_inv_build:
  assumes "hist_ok h" "mem_holds (dmem st) h" "dseq st = word_of_nat (length h)" "\<not> wfailed (dwal st)"
    "wdir (dwal st) \<noteq> snapDir st" "snap_holds (dfs st) (snapDir st) h k"
    "log_holds (dfs st) (wdir (dwal st)) h k Ls q rs []" "wf (dwal st) = segmentPath (wdir (dwal st)) q"
    "stable (dfs st) (wf (dwal st))"
  shows "ds_inv st h"
  unfolding ds_inv_def using assms by blast

text \<open>The rotated log: recoverable, and the store writes to the newest segment unless the
  directory sync failed.\<close>

lemma rotate_keeps:
  assumes "rotate w (word_of_nat (length h) + 1) s = (r, w', s')" "\<not> wfailed w" "hist_ok h"
    "log_holds s (wdir w) h k Ls q rs []" "stable s (segmentPath (wdir w) q)" "wf w = segmentPath (wdir w) q"
  shows "wdir w' = wdir w" "\<not> wfailed w'" "fst p \<noteq> wdir w \<Longrightarrow> lookup s' p = lookup s p"
    and "\<exists>Ls' q' rs'. log_holds s' (wdir w) h k Ls' q' rs' [] \<and> stable s' (segmentPath (wdir w) q')
      \<and> (faults s = [] \<or> r = None \<longrightarrow> wf w' = segmentPath (wdir w) q')"
proof -
  let ?P = "segmentPath (wdir w) (word_of_nat (length h) + 1)"
  consider (a) "r \<noteq> None" "w' = w" "\<forall>p. lookup s' p = lookup s p"
    | (b) "lookup s ?P = None" "\<forall>p. lookup s' p = (if p = ?P then Some new_file else lookup s p)"
      "w' = w\<lparr>wf := ?P, wsize := 0\<rparr> \<or> w' = w \<and> r \<noteq> None \<and> faults s \<noteq> []"
    using rotate_result [OF assms(1,2)] by (elim disjE conjE; assumption?) metis+
  then have "wdir w' = wdir w \<and> \<not> wfailed w' \<and> (\<forall>p. fst p \<noteq> wdir w \<longrightarrow> lookup s' p = lookup s p) \<and>
    (\<exists>Ls' q' rs'. log_holds s' (wdir w) h k Ls' q' rs' [] \<and> stable s' (segmentPath (wdir w) q')
      \<and> (faults s = [] \<or> r = None \<longrightarrow> wf w' = segmentPath (wdir w) q'))"
  proof cases
    case a
    have "log_holds s' (wdir w) h k Ls q rs []" by (rule log_holds_cong [OF _ assms(4)]) (simp add: a(3))
    moreover have "stable s' (segmentPath (wdir w) q)" using assms(5) a(3) [rule_format, of "segmentPath (wdir w) q"] by (simp add: stable_def)
    ultimately show ?thesis using a assms(2,6) by blast
  next
    case b
    have "log_holds s' (wdir w) h k (Ls @ [(q, rs)]) (word_of_nat (length h) + 1) [] []"
      by (rule log_holds_rotated [OF assms(4,5,3) b(1) b(2) [rule_format]])
    moreover have "stable s' ?P" using b(2) [rule_format, of ?P] by (simp add: stable_def new_file_def)
    moreover have "\<forall>p. fst p \<noteq> wdir w \<longrightarrow> lookup s' p = lookup s p" using b(2) by (auto simp: segmentPath_def)
    moreover have "wdir w' = wdir w" "\<not> wfailed w'" "faults s = [] \<or> r = None \<longrightarrow> wf w' = ?P"
      using b(3) assms(2) by auto
    ultimately show ?thesis by blast
  qed
  then show "wdir w' = wdir w" "\<not> wfailed w'" "fst p \<noteq> wdir w \<Longrightarrow> lookup s' p = lookup s p"
    "\<exists>Ls' q' rs'. log_holds s' (wdir w) h k Ls' q' rs' [] \<and> stable s' (segmentPath (wdir w) q')
      \<and> (faults s = [] \<or> r = None \<longrightarrow> wf w' = segmentPath (wdir w) q')" by blast+
qed

text \<open>Whatever fails in a snapshot, the history stays recoverable; without faults the store
  stays usable.\<close>

definition kept :: "DurableStore \<Rightarrow> DurableStore \<Rightarrow> Command list \<Rightarrow> bool" where
  "kept st st' h \<longleftrightarrow> dmem st' = dmem st \<and> dseq st' = dseq st \<and> snapDir st' = snapDir st
     \<and> wdir (dwal st') = wdir (dwal st) \<and> snapshotThreshold st' = snapshotThreshold st \<and> disk_safe st' h
     \<and> (faults (dfs st) = [] \<longrightarrow> ds_inv st' h \<and> faults (dfs st') = [])"

lemma keptI:
  assumes "ds_inv st h" "st' = st\<lparr>dwal := w, dfs := s\<rparr>" "wdir w = wdir (dwal st)" "\<not> wfailed w"
    "snap_holds s (snapDir st) h k" "log_holds s (wdir (dwal st)) h k Ls q rs []" "stable s (segmentPath (wdir (dwal st)) q)"
    "faults (dfs st) = [] \<Longrightarrow> wf w = segmentPath (wdir (dwal st)) q \<and> faults s = []"
  shows "kept st st' h"
proof -
  have "disk_safe st' h" using assms(2,3,5-7) by (intro disk_safeI [of st' h k Ls q rs]) simp_all
  moreover have "ds_inv st' h" if "faults (dfs st) = []"
    using assms that by (intro ds_inv_build [of h st' k Ls q rs]) (simp_all add: ds_inv_def)
  ultimately show ?thesis using assms(2,3,8) by (simp add: kept_def)
qed

lemma snapshot_keeps:
  assumes "ds_inv st h" "snapshot st = (r, st')"
  shows "kept st st' h"
proof -
  let ?wd = "wdir (dwal st)" and ?sd = "snapDir st"
  obtain k Ls q rs where inv: "snap_holds (dfs st) ?sd h k" "log_holds (dfs st) ?wd h k Ls q rs []"
    "wf (dwal st) = segmentPath ?wd q" "stable (dfs st) (segmentPath ?wd q)"
    and ok: "hist_ok h" "mem_holds (dmem st) h" "dseq st = word_of_nat (length h)" "\<not> wfailed (dwal st)" "?wd \<noteq> ?sd"
    using assms(1) unfolding ds_inv_def by metis
  obtain r1 s1 where 1: "writeSnapshot ?sd (word_of_nat (length h)) (dmem st) (dfs st) = (r1, s1)" by force
  note w1 = snapshot_written [OF 1 inv(1) ok(2,1)]
  have f1: "faults (dfs st) = [] \<Longrightarrow> faults s1 = []"
    using WriteFileAtomic_faultless 1 by (metis writeSnapshot_atomic snd_conv)
  obtain k1 where k1: "k \<le> k1" "snap_holds s1 ?sd h k1" "r1 = None \<Longrightarrow> k1 = length h" using w1(1,2) inv(1) unfolding snap_holds_def by blast
  have same1: "lookup s1 (?wd, n) = lookup (dfs st) (?wd, n)" for n using w1(3) [of "(?wd, n)"] ok(5) by simp
  have log1: "log_holds s1 ?wd h k1 Ls q rs []" by (rule log_holds_mono [OF log_holds_cong [OF same1 inv(2)] k1(1)])
  have st1: "stable s1 (segmentPath ?wd q)" using inv(4) same1 by (simp add: stable_def segmentPath_def)
  show ?thesis
  proof (cases r1)
    case (Some e)
    then have "st' = st\<lparr>dwal := dwal st, dfs := s1\<rparr>" using assms(2) 1 ok(3) by (simp add: snapshot_def)
    from keptI [OF assms(1) this _ _ k1(2) log1 st1] show ?thesis using ok(4) inv(3) f1 by simp
  next
    case N1: None
    obtain r2 w2 s2 where 2: "rotate (dwal st) (word_of_nat (length h) + 1) s1 = (r2, w2, s2)" by (metis prod_cases3)
    note w2 = rotate_keeps [OF 2 ok(4,1) log1 st1 inv(3)]
    obtain L2 q2 rs2 where l2: "log_holds s2 ?wd h k1 L2 q2 rs2 []" "stable s2 (segmentPath ?wd q2)"
      "faults s1 = [] \<or> r2 = None \<Longrightarrow> wf w2 = segmentPath ?wd q2" using w2(4) by blast
    have f2: "faults (dfs st) = [] \<Longrightarrow> faults s2 = []" using rotate_faultless f1 2 by (metis snd_conv)
    have k2: "snap_holds s2 ?sd h k1" by (rule snap_holds_cong [OF w2(3) k1(2)]) (use ok(5) in auto)
    show ?thesis
    proof (cases r2)
      case (Some e)
      then have "st' = st\<lparr>dwal := w2, dfs := s2\<rparr>" using assms(2) 1 2 N1 ok(3) by (simp add: snapshot_def)
      from keptI [OF assms(1) this w2(1,2) k2 l2(1,2)] show ?thesis using f1 f2 l2(3) by blast
    next
      case N2: None
      have wf2: "wf w2 = segmentPath ?wd q2" using l2(3) N2 by blast
      obtain x s3 where 3: "listSegments ?wd s2 = (x, s3)" by force
      note w3 = listSegments_any [OF l2(1) 3]
      have log3: "log_holds s3 ?wd h k1 L2 q2 rs2 []" by (rule log_holds_cong [OF w3(1) l2(1)])
      have snap3: "snap_holds s3 ?sd h k1" by (rule snap_holds_cong [OF w3(1) k2])
      have st3: "stable s3 (segmentPath ?wd q2)" using l2(2) w3(1) by (simp add: stable_def)
      show ?thesis
      proof (cases x)
        case (Inl e)
        then have "st' = st\<lparr>dwal := w2, dfs := s3\<rparr>" using assms(2) 1 2 3 N1 N2 ok(3) w2(1) by (simp add: snapshot_def)
        from keptI [OF assms(1) this w2(1,2) snap3 log3 st3] show ?thesis using f2 w3(3) wf2 by blast
      next
        case (Inr segs)
        have kl: "k1 = length h" using k1(3) N1 by blast
        note log3' = log3 [unfolded kl] and snap3' = snap3 [unfolded kl]
        have sp: "map segPath (butlast segs) = map (segmentPath ?wd) (map fst L2)" "segs \<noteq> []"
          using w3(2) [OF Inr] by (simp_all add: butlast_append)
        obtain r4 s4 where 4: "remove_all (map (segmentPath ?wd) (map fst L2)) s3 = (r4, s4)" by force
        obtain L4 where log4: "log_holds s4 ?wd h (length h) L4 q2 rs2 []" using remove_segments [OF log3' 4] by blast
        have same4: "fst p \<noteq> ?wd \<Longrightarrow> lookup s4 p = lookup s3 p" for p
          using remove_all_lookup [OF 4, of p] by (auto simp: segmentPath_def)
        have snap4: "snap_holds s4 ?sd h (length h)" by (rule snap_holds_cong [OF same4 snap3']) (use ok(5) in auto)
        have st4: "stable s4 (segmentPath ?wd q2)"
          using remove_all_lookup [OF 4, of "segmentPath ?wd q2"] st3 by (auto simp: stable_def)
        have f4: "faults (dfs st) = [] \<Longrightarrow> faults s4 = []" using remove_all_faultless f2 w3(3) 4 by (metis snd_conv)
        show ?thesis
        proof (cases r4)
          case (Some e)
          then have "st' = st\<lparr>dwal := w2, dfs := s4\<rparr>"
            using assms(2) 1 2 3 4 N1 N2 Inr ok(3) w2(1) sp by (simp add: snapshot_def)
          from keptI [OF assms(1) this w2(1,2) snap4 log4 st4] show ?thesis using f4 wf2 by blast
        next
          case N4: None
          obtain r5 s5 where 5: "pruneSnapshots ?sd 2 s4 = (r5, s5)" by force
          note w5 = prune_keeps_newest [OF 5 snap4 ok(1)]
          have same5: "lookup s5 (?wd, n) = lookup s4 (?wd, n)" for n using w5(2) [of "(?wd, n)"] ok(5) by simp
          have "st' = st\<lparr>dwal := w2, dfs := s5\<rparr>"
            using assms(2) 1 2 3 4 5 N1 N2 N4 Inr ok(3) w2(1) sp by (simp add: snapshot_def)
          moreover have "log_holds s5 ?wd h (length h) L4 q2 rs2 []" by (rule log_holds_cong [OF same5 log4])
          moreover have "stable s5 (segmentPath ?wd q2)" using st4 same5 by (simp add: stable_def segmentPath_def)
          ultimately show ?thesis
            using keptI [OF assms(1) _ w2(1,2) w5(1)] f4 w5(3) wf2 by simp
        qed
      qed
    qed
  qed
qed

subsection \<open>Mutations\<close>

lemma kept_trans_mem: "kept st st' h \<Longrightarrow> mem_holds (dmem st) h \<Longrightarrow> mem_holds (dmem st') h"
  by (simp add: kept_def)

lemma kept_refl: "ds_inv st h \<Longrightarrow> kept st st h"
  by (simp add: kept_def ds_inv_safe)

lemma maybeSnapshot_keeps: "ds_inv st h \<Longrightarrow> kept st (maybeSnapshot st) h"
  using snapshot_keeps [of st h "fst (snapshot st)" "snd (snapshot st)"]
  by (simp add: maybeSnapshot_def kept_refl)

lemma hist_ok_snocD: "hist_ok (h @ [c]) \<Longrightarrow> hist_ok h \<and> cmd_fits c"
  by (auto simp: hist_ok_def)

text \<open>The logged and applied command, before any snapshot.\<close>

lemma append_result:
  assumes "ds_inv st h" "hist_ok (h @ [c])" "Append (dwal st) (dseq st + 1) (EncodeCommand c) (dfs st) = (r, w', s')"
  shows "r = None \<Longrightarrow> ds_inv (st\<lparr>dwal := w', dfs := s', dseq := dseq st + 1, dmem := snd (applyCommand (dmem st) c)\<rparr>) (h @ [c])
      \<and> wdir w' = wdir (dwal st)"
    and "r \<noteq> None \<Longrightarrow> wdir w' = wdir (dwal st) \<and> wfailed w' \<and>
      ((\<exists>t. disk_holds (crash f s') (wdir (dwal st)) (snapDir st) h t) \<or> disk_holds (crash f s') (wdir (dwal st)) (snapDir st) (h @ [c]) [])"
proof -
  let ?wd = "wdir (dwal st)" and ?sd = "snapDir st" and ?p = "wf (dwal st)"
  let ?r = "\<lparr>rseq = word_of_nat (length h) + 1, rcmd = EncodeCommand c\<rparr>"
  let ?b = "Frame [] (walPayload ?r)"
  obtain k Ls q rs where inv: "snap_holds (dfs st) ?sd h k" "log_holds (dfs st) ?wd h k Ls q rs []"
    "?p = segmentPath ?wd q" "stable (dfs st) ?p"
    and ok: "hist_ok h" "mem_holds (dmem st) h" "dseq st = word_of_nat (length h)" "\<not> wfailed (dwal st)" "?wd \<noteq> ?sd"
    using assms(1) unfolding ds_inv_def by metis
  have rp: "replaced ?p (wal_frames rs) (dfs st)"
    using inv(2-4) by (auto simp: log_holds_def contents_def stable_def replaced_def)
  note res = Append_result [OF assms(3)[unfolded ok(3)] ok(4) rp]
  have cs: "contents (dfs st) (segmentPath ?wd q) = Some (wal_frames rs)" using inv(2) by (simp add: log_holds_def)
  have other: "\<And>p. p \<noteq> segmentPath ?wd q \<Longrightarrow> lookup s' p = lookup (dfs st) p" using res(3) inv(3) by simp
  have snap: "snap_holds s' ?sd h k"
    by (rule snap_holds_cong [OF _ inv(1)]) (rule other, use ok(5) in \<open>simp add: segmentPath_def\<close>)
  show "ds_inv (st\<lparr>dwal := w', dfs := s', dseq := dseq st + 1, dmem := snd (applyCommand (dmem st) c)\<rparr>) (h @ [c])
      \<and> wdir w' = wdir (dwal st)" if "r = None"
  proof -
    have n: "replaced ?p (wal_frames rs @ ?b) s'" "w' = dwal st\<lparr>wsize := wsize (dwal st) + length ?b\<rparr>"
      using res(1) [OF that] by auto
    have "contents s' (segmentPath ?wd q) = Some (wal_frames (rs @ [?r]))"
      using n(1) inv(3) by (simp add: replaced_def contents_def)
    from log_holds_more [OF inv(2) this other]
    have "log_holds s' ?wd (h @ [c]) k Ls q (rs @ [?r]) []" .
    then show ?thesis
      using n inv(3) ok snap_holds_more [OF snap, of c] assms(2) mem_holds_apply [OF ok(2)] hist_ok_snocD [OF assms(2)]
      by (intro conjI ds_inv_build [of _ _ k Ls q "rs @ [?r]"]) (auto simp: replaced_def stable_def add.commute)
  qed
  show "wdir w' = wdir (dwal st) \<and> wfailed w' \<and>
      ((\<exists>t. disk_holds (crash f s') ?wd ?sd h t) \<or> disk_holds (crash f s') ?wd ?sd (h @ [c]) [])" if r: "r \<noteq> None"
  proof -
    obtain m where m: "lookup s' ?p = Some \<lparr>fdata = wal_frames rs @ take m ?b, fsynced = length (wal_frames rs)\<rparr>"
      and w': "w' = dwal st\<lparr>wfailed := True\<rparr>" using res(2) [OF r] by auto
    define j where "j = min (f ?p) m"
    have cr: "contents (crash f s') (segmentPath ?wd q) = Some (wal_frames rs @ take j ?b)"
      using crash_prefix [OF m] inv(3) by (simp add: j_def)
    have oc: "lookup (crash f s') p = lookup (crash f (dfs st)) p" if "p \<noteq> segmentPath ?wd q" for p
      using other [OF that] by (simp add: lookup_crash)
    have sc: "snap_holds (crash f s') ?sd h k" by (rule snap_holds_crash [OF snap])
    have cc: "contents (crash f (dfs st)) (segmentPath ?wd q) = Some (wal_frames rs @ [])"
      using crash_stable inv(3,4) cs by simp
    have lc: "log_holds (crash f (dfs st)) ?wd h k Ls q rs []" by (rule log_holds_crash [OF inv(2) cc])
    show ?thesis
    proof (cases "j < length ?b")
      case True
      have tt: "torn_tail (take j ?b)"
        unfolding torn_tail_def using True cmd_fits_rec hist_ok_snocD [OF assms(2)] by blast
      have "log_holds (crash f s') ?wd h k Ls q rs (take j ?b)" by (rule log_holds_newest [OF lc cr oc])
      then show ?thesis using sc ok(1) w' tt unfolding disk_holds_def by auto
    next
      case False
      then have "contents (crash f s') (segmentPath ?wd q) = Some (wal_frames (rs @ [?r]))" using cr by simp
      from log_holds_more [OF lc this oc] have "log_holds (crash f s') ?wd (h @ [c]) k Ls q (rs @ [?r]) []" .
      then show ?thesis using snap_holds_more [OF sc, of c] assms(2) w' unfolding disk_holds_def by auto
    qed
  qed
qed

lemma logAndApply_ok:
  assumes "ds_inv st h" "hist_ok (h @ [c])" "logAndApply c st = (None, st')"
  shows "mem_holds (dmem st') (h @ [c])" "disk_safe st' (h @ [c])" "snapDir st' = snapDir st"
    "wdir (dwal st') = wdir (dwal st)" "snapshotThreshold st' = snapshotThreshold st"
    "faults (dfs st) = [] \<Longrightarrow> ds_inv st' (h @ [c]) \<and> faults (dfs st') = []"
proof -
  obtain r w' s' where a: "Append (dwal st) (dseq st + 1) (EncodeCommand c) (dfs st) = (r, w', s')" by (metis prod_cases3)
  have r: "r = None" using assms(3) a by (cases r) (auto simp: logAndApply_def EncodeCommand_def)
  let ?st = "st\<lparr>dwal := w', dfs := s', dseq := dseq st + 1, dmem := snd (applyCommand (dmem st) c)\<rparr>"
  have st': "st' = maybeSnapshot ?st" using assms(3) a r by (simp add: logAndApply_def EncodeCommand_def)
  have i: "ds_inv ?st (h @ [c])" "wdir w' = wdir (dwal st)" using append_result(1) [OF assms(1,2) a r] by auto
  have f: "faults (dfs st) = [] \<Longrightarrow> faults s' = []" using Append_faultless a by (metis snd_conv)
  have m: "mem_holds (dmem ?st) (h @ [c])" using i(1) unfolding ds_inv_def by blast
  have k: "kept ?st st' (h @ [c])" unfolding st' by (rule maybeSnapshot_keeps [OF i(1)])
  then show "mem_holds (dmem st') (h @ [c])" "disk_safe st' (h @ [c])" "snapDir st' = snapDir st"
    "wdir (dwal st') = wdir (dwal st)" "snapshotThreshold st' = snapshotThreshold st"
    "faults (dfs st) = [] \<Longrightarrow> ds_inv st' (h @ [c]) \<and> faults (dfs st') = []"
    using m i(2) f unfolding kept_def by simp_all
qed

lemma logAndApply_fail:
  assumes "ds_inv st h" "hist_ok (h @ [c])" "logAndApply c st = (Some e, st')"
  shows "dmem st' = dmem st" "wfailed (dwal st')"
    "(\<exists>t. disk_holds (crash f (dfs st')) (wdir (dwal st)) (snapDir st) h t)
      \<or> disk_holds (crash f (dfs st')) (wdir (dwal st)) (snapDir st) (h @ [c]) []"
proof -
  obtain r w' s' where a: "Append (dwal st) (dseq st + 1) (EncodeCommand c) (dfs st) = (r, w', s')" by (metis prod_cases3)
  have r: "r \<noteq> None" "st' = st\<lparr>dwal := w', dfs := s'\<rparr>"
    using assms(3) a by (auto simp: logAndApply_def EncodeCommand_def split: option.splits)
  then show "dmem st' = dmem st" "wfailed (dwal st')"
    "(\<exists>t. disk_holds (crash f (dfs st')) (wdir (dwal st)) (snapDir st) h t)
      \<or> disk_holds (crash f (dfs st')) (wdir (dwal st)) (snapDir st) (h @ [c]) []"
    using append_result(2) [OF assms(1,2) a r(1), of f] by simp_all
qed

lemma logAndApply_succeeds:
  "faults (dfs st) = [] \<Longrightarrow> \<not> wfailed (dwal st) \<Longrightarrow> fst (logAndApply c st) = None"
  by (simp add: logAndApply_def Append_def Let_def os_write_def os_sync_def)

lemma crash_all_stable: "stable (crash f s) p"
  by (simp add: stable_def lookup_crash Let_def split: option.splits)

lemma Open_after_crash:
  assumes "disk_holds (crash f s) (dir @ ''/wal'') (dir @ ''/snap'') h t"
  shows "\<exists>st. Open dir thr (crash f s) = (Inr st, dfs st) \<and> ds_inv st h \<and> ds_Get st = kv_of h
    \<and> snapDir st = dir @ ''/snap'' \<and> wdir (dwal st) = dir @ ''/wal'' \<and> faults (dfs st) = []"
  using Open_holds [OF assms, of thr] crash_all_stable [of f s] by (auto simp: mem_holds_def ds_Get_def fun_eq_iff)

text \<open>A store just created in an empty directory.\<close>

definition fresh_store :: "nat option list \<Rightarrow> DurableStore" where
  "fresh_store fl = \<lparr>dmem = NewMemStore,
     dwal = \<lparr>wdir = ''d'' @ ''/wal'', wf = segmentPath (''d'' @ ''/wal'') 1, wsize = 0, wfailed = False\<rparr>,
     dseq = 0, snapDir = ''d'' @ ''/snap'', snapshotThreshold = defaultSnapshotThreshold,
     dfs = \<lparr>files = [(segmentPath (''d'' @ ''/wal'') 1, new_file)], faults = fl, windows = False\<rparr>\<rparr>"

lemma fresh_store_fields [simp]:
  "dmem (fresh_store fl) = NewMemStore" "dseq (fresh_store fl) = 0" "snapDir (fresh_store fl) = ''d'' @ ''/snap''"
  "wdir (dwal (fresh_store fl)) = ''d'' @ ''/wal''" "wfailed (dwal (fresh_store fl)) = False"
  "wf (dwal (fresh_store fl)) = segmentPath (''d'' @ ''/wal'') 1" "faults (dfs (fresh_store fl)) = fl"
  by (simp_all add: fresh_store_def)

lemma fresh_store_lookup:
  "lookup (dfs (fresh_store fl)) p = (if p = segmentPath (''d'' @ ''/wal'') 1 then Some new_file else None)"
  by (simp add: fresh_store_def lookup_def)

lemma fresh_store_log: "log_holds (dfs (fresh_store fl)) (''d'' @ ''/wal'') [] 0 [] 1 [] []"
  by (rule log_holdsI [of _ _ _ _ _ _ 0])
     (auto simp: fresh_store_lookup segmentPath_def contents_def new_file_def split: if_splits)

lemma fresh_store_snap: "snap_holds (dfs (fresh_store fl)) (''d'' @ ''/snap'') [] 0"
  by (auto simp: snap_holds_def fresh_store_lookup segmentPath_def)

lemma hist_ok_Nil [simp]: "hist_ok []"
  by (simp add: hist_ok_def)

lemma fresh_store_inv [simp]: "ds_inv (fresh_store fl) []"
  by (rule ds_inv_build [of _ _ 0 "[]" 1 "[]"])
     (use fresh_store_log fresh_store_snap in \<open>auto simp: mem_holds_new stable_def fresh_store_lookup new_file_def\<close>)

subsection \<open>The life of a store\<close>

text \<open>The stores that a process can have open, with the commands that took effect so far: it
  starts in an empty directory, mutates and snapshots; at any moment operations may begin to
  fail as \<open>fl\<close> says, the machine stops, and the store is opened again from what is left. A
  command that failed took effect when the sequence number shows so.\<close>

inductive ds_reach :: "string \<Rightarrow> int \<Rightarrow> DurableStore \<Rightarrow> Command list \<Rightarrow> bool" for dir thr where
  born: "Open dir thr \<lparr>files = [], faults = [], windows = w\<rparr> = (Inr st, s) \<Longrightarrow> ds_reach dir thr st []"
| log: "ds_reach dir thr st h \<Longrightarrow> hist_ok (h @ [c]) \<Longrightarrow> logAndApply c st = (None, st') \<Longrightarrow> ds_reach dir thr st' (h @ [c])"
| snap: "ds_reach dir thr st h \<Longrightarrow> Snapshot st = (r, st') \<Longrightarrow> ds_reach dir thr st' h"
| write_crash: "ds_reach dir thr st h \<Longrightarrow> hist_ok (h @ [c]) \<Longrightarrow>
    logAndApply c (st\<lparr>dfs := dfs st\<lparr>faults := fl\<rparr>\<rparr>) = (None, st') \<Longrightarrow>
    Open dir thr (crash f (dfs st')) = (Inr st'', s) \<Longrightarrow> ds_reach dir thr st'' (h @ [c])"
| fail_crash: "ds_reach dir thr st h \<Longrightarrow> hist_ok (h @ [c]) \<Longrightarrow>
    logAndApply c (st\<lparr>dfs := dfs st\<lparr>faults := fl\<rparr>\<rparr>) = (Some e, st') \<Longrightarrow>
    Open dir thr (crash f (dfs st')) = (Inr st'', s) \<Longrightarrow> h' \<in> {h, h @ [c]} \<Longrightarrow> dseq st'' = word_of_nat (length h') \<Longrightarrow>
    ds_reach dir thr st'' h'"
| snap_crash: "ds_reach dir thr st h \<Longrightarrow> Snapshot (st\<lparr>dfs := dfs st\<lparr>faults := fl\<rparr>\<rparr>) = (r, st') \<Longrightarrow>
    Open dir thr (crash f (dfs st')) = (Inr st'', s) \<Longrightarrow> ds_reach dir thr st'' h"

definition ds_open :: "string \<Rightarrow> DurableStore \<Rightarrow> Command list \<Rightarrow> bool" where
  "ds_open dir st h \<longleftrightarrow> ds_inv st h \<and> snapDir st = dir @ ''/snap'' \<and> wdir (dwal st) = dir @ ''/wal'' \<and> faults (dfs st) = []"

lemma ds_inv_faults: "ds_inv st h \<Longrightarrow> ds_inv (st\<lparr>dfs := dfs st\<lparr>faults := fl\<rparr>\<rparr>) h"
proof -
  assume "ds_inv st h"
  then obtain k Ls q rs where inv: "snap_holds (dfs st) (snapDir st) h k" "log_holds (dfs st) (wdir (dwal st)) h k Ls q rs []"
    "wf (dwal st) = segmentPath (wdir (dwal st)) q" "stable (dfs st) (wf (dwal st))"
    and ok: "hist_ok h" "mem_holds (dmem st) h" "dseq st = word_of_nat (length h)" "\<not> wfailed (dwal st)"
      "wdir (dwal st) \<noteq> snapDir st" unfolding ds_inv_def by blast
  show ?thesis
  proof (rule ds_inv_build [of _ _ k Ls q rs])
    show "snap_holds (dfs (st\<lparr>dfs := dfs st\<lparr>faults := fl\<rparr>\<rparr>)) (snapDir (st\<lparr>dfs := dfs st\<lparr>faults := fl\<rparr>\<rparr>)) h k"
      using snap_holds_cong [OF _ inv(1)] by simp
    show "log_holds (dfs (st\<lparr>dfs := dfs st\<lparr>faults := fl\<rparr>\<rparr>)) (wdir (dwal (st\<lparr>dfs := dfs st\<lparr>faults := fl\<rparr>\<rparr>))) h k Ls q rs []"
      using log_holds_cong [OF _ inv(2)] by simp
  qed (use inv ok in \<open>simp_all add: stable_def\<close>)
qed

lemma ds_open_crash:
  assumes "disk_holds (crash f s) (dir @ ''/wal'') (dir @ ''/snap'') h t" "Open dir thr (crash f s) = (Inr st, s')"
  shows "ds_open dir st h"
  using Open_after_crash [OF assms(1), of thr] assms(2) by (auto simp: ds_open_def)

lemma empty_disk_holds: "disk_holds (\<lparr>files = [], faults = [], windows = w\<rparr>) wd sd [] []"
  by (auto simp: disk_holds_def snap_holds_def log_empty_def lookup_def)

lemma ds_inv_seq: "ds_inv st h \<Longrightarrow> dseq st = word_of_nat (length h) \<and> hist_ok h"
  unfolding ds_inv_def by blast

lemma ds_reach_open: "ds_reach dir thr st h \<Longrightarrow> ds_open dir st h"
proof (induction rule: ds_reach.induct)
  case (born w st s)
  have "\<forall>p. stable \<lparr>files = [], faults = [], windows = w\<rparr> p" by (simp add: stable_def lookup_def)
  then show ?case using Open_holds [OF empty_disk_holds, of w dir thr] born by (auto simp: ds_open_def)
next
  case (log st h c st')
  then show ?case using logAndApply_ok [of st h c st'] by (simp add: ds_open_def)
next
  case (snap st h r st')
  then show ?case using snapshot_keeps [of st h r st'] by (simp add: ds_open_def kept_def Snapshot_def)
next
  case (write_crash st h c fl st' f st'' s)
  let ?st = "st\<lparr>dfs := dfs st\<lparr>faults := fl\<rparr>\<rparr>"
  have i: "ds_inv ?st h" using write_crash.IH ds_inv_faults unfolding ds_open_def by blast
  note res = logAndApply_ok [OF i write_crash.hyps(2,3)]
  have "disk_holds (crash f (dfs st')) (dir @ ''/wal'') (dir @ ''/snap'') (h @ [c]) []"
    using disk_safe_crash [OF res(2) write_crash.hyps(2), of f] res(3,4) write_crash.IH by (simp add: ds_open_def)
  then show ?case using ds_open_crash write_crash.hyps(4) by blast
next
  case (fail_crash st h c fl e st' f st'' s h')
  let ?st = "st\<lparr>dfs := dfs st\<lparr>faults := fl\<rparr>\<rparr>"
  have i: "ds_inv ?st h" using fail_crash.IH ds_inv_faults unfolding ds_open_def by blast
  have "(\<exists>t. disk_holds (crash f (dfs st')) (dir @ ''/wal'') (dir @ ''/snap'') h t)
      \<or> disk_holds (crash f (dfs st')) (dir @ ''/wal'') (dir @ ''/snap'') (h @ [c]) []"
    using logAndApply_fail(3) [OF i fail_crash.hyps(2,3), of f] fail_crash.IH by (simp add: ds_open_def)
  then have o: "ds_open dir st'' h \<or> ds_open dir st'' (h @ [c])" using ds_open_crash fail_crash.hyps(4) by blast
  have "(word_of_nat (length h) :: u64) \<noteq> word_of_nat (length (h @ [c]))"
    using fail_crash.hyps(2) by (subst word_of_nat_u64_eq_iff) (simp_all add: hist_ok_def)
  moreover have "dseq st'' = word_of_nat (length x)" if "ds_open dir st'' x" for x
    using that ds_inv_seq unfolding ds_open_def by blast
  ultimately show ?case using o fail_crash.hyps(5,6) by (metis insertE singletonD)
next
  case (snap_crash st h fl r st' f st'' s)
  let ?st = "st\<lparr>dfs := dfs st\<lparr>faults := fl\<rparr>\<rparr>"
  have i: "ds_inv ?st h" using snap_crash.IH ds_inv_faults unfolding ds_open_def by blast
  have k: "kept ?st st' h" using snapshot_keeps [OF i] snap_crash.hyps(2) by (simp add: Snapshot_def)
  have "disk_holds (crash f (dfs st')) (dir @ ''/wal'') (dir @ ''/snap'') h []"
    using disk_safe_crash [of st' h f] k snap_crash.IH ds_inv_seq [OF i] by (simp add: ds_open_def kept_def)
  then show ?case using ds_open_crash snap_crash.hyps(3) by blast
qed

subsection \<open>Main results\<close>

lemma ds_inv_Get: "ds_inv st h \<Longrightarrow> ds_Get st = kv_of h"
  unfolding ds_inv_def mem_holds_def ds_Get_def by auto

lemma fresh_open: "ds_open ''d'' (fresh_store []) []"
  by (simp add: ds_open_def)

lemma hist_ok_small: "length (cKey c) \<le> 100 \<Longrightarrow> length (cValue c) \<le> 100 \<Longrightarrow> hist_ok [c]"
  by (simp add: hist_ok_def cmd_fits_def MaxKeyBytesOnDisk_def MaxValueBytesOnDisk_def)

lemma logAndApply_recovers:
  assumes "ds_open dir st h" "hist_ok (h @ [c])"
    and "logAndApply c (st\<lparr>dfs := dfs st\<lparr>faults := fl\<rparr>\<rparr>) = (r, st')"
  shows "\<exists>st'' h'. Open dir thr (crash f (dfs st')) = (Inr st'', dfs st'') \<and> ds_open dir st'' h'
    \<and> ds_Get st'' = kv_of h' \<and> (if r = None then h' = h @ [c] else h' \<in> {h, h @ [c]})"
proof -
  let ?st = "st\<lparr>dfs := dfs st\<lparr>faults := fl\<rparr>\<rparr>"
  have i: "ds_inv ?st h" and d: "wdir (dwal st) = dir @ ''/wal''" "snapDir st = dir @ ''/snap''"
    using assms(1) ds_inv_faults unfolding ds_open_def by blast+
  have "\<exists>h' t. disk_holds (crash f (dfs st')) (dir @ ''/wal'') (dir @ ''/snap'') h' t
    \<and> (if r = None then h' = h @ [c] else h' \<in> {h, h @ [c]})"
  proof (cases r)
    case None
    note res = logAndApply_ok [OF i assms(2) assms(3) [unfolded None]]
    show ?thesis using disk_safe_crash [OF res(2) assms(2), of f] res(3,4) d None by auto
  next
    case (Some e)
    then show ?thesis using logAndApply_fail(3) [OF i assms(2) assms(3) [unfolded Some], of f] d by auto
  qed
  then show ?thesis using Open_after_crash [of f "dfs st'" dir _ _ thr] unfolding ds_open_def by blast
qed





text \<open>C8. A snapshot is safe: whichever of its steps fail (writing, renaming, rotating, deleting
  old segments or old snapshots), a crash afterwards recovers the same contents, and memory is
  untouched. Without failures the store stays in good order, even when \<open>Snapshot\<close> itself
  reports an error.\<close>

theorem snapshot_is_safe:
  assumes "ds_open dir st h" "Snapshot (st\<lparr>dfs := dfs st\<lparr>faults := fl\<rparr>\<rparr>) = (r, st')"
  shows "(\<exists>st''. Open dir thr (crash f (dfs st')) = (Inr st'', dfs st'') \<and> ds_open dir st'' h \<and> ds_Get st'' = ds_Get st)
    \<and> ds_Get st' = ds_Get st \<and> (fl = [] \<longrightarrow> ds_open dir st' h)"
proof -
  let ?st = "st\<lparr>dfs := dfs st\<lparr>faults := fl\<rparr>\<rparr>"
  have i: "ds_inv ?st h" and d: "wdir (dwal st) = dir @ ''/wal''" "snapDir st = dir @ ''/snap''" "ds_inv st h"
    using assms(1) ds_inv_faults unfolding ds_open_def by blast+
  have k: "kept ?st st' h" using snapshot_keeps [OF i] assms(2) by (simp add: Snapshot_def)
  have "disk_holds (crash f (dfs st')) (dir @ ''/wal'') (dir @ ''/snap'') h []"
    using disk_safe_crash [of st' h f] k d ds_inv_seq [OF i] by (simp add: kept_def)
  from Open_after_crash [OF this, of thr] show ?thesis
    using k d ds_inv_Get [OF d(3)] by (auto simp: kept_def ds_open_def ds_Get_def fun_eq_iff)
qed

theorem snapshot_is_safe_witness:
  "ds_Get (snd (Snapshot (fresh_store [None, Some 5]))) = ds_Get (fresh_store [])"
proof -
  have f: "fresh_store []\<lparr>dfs := dfs (fresh_store [])\<lparr>faults := [None, Some 5]\<rparr>\<rparr> = fresh_store [None, Some 5]"
    by (simp add: fresh_store_def)
  show ?thesis using snapshot_is_safe [OF fresh_open, of "[None, Some 5]"] unfolding f by (metis prod.collapse)
qed

end
