(* ===== verification/RaftState.thy ===== *)
theory RaftState
  imports Recordio
begin

text \<open>
  \<^verbatim>\<open>internal/raft/state.go\<close>: the term and the vote of a node, in a small file that is replaced
  atomically before anything they promise is said.
\<close>

definition stateFileName :: string where
  "stateFileName = ''state''"

definition stateMagic :: bytes where
  "stateMagic = [0x52, 0x4B, 0x56, 0x56, 0x4F, 0x54, 0x45, 0x31]" \<comment> \<open>RKVVOTE1\<close>

definition stateFileSize :: nat where
  "stateFileSize = length stateMagic + 8 + 8 + 4"

definition noVote :: u64 where
  "noVote = 0"

definition state_bytes :: "u64 \<Rightarrow> u64 \<Rightarrow> bytes" where
  "state_bytes trm vote =
     (let b = stateMagic; b = b @ le64 trm; b = b @ le64 vote in b @ le32 (Checksum b))"

definition saveTermAndVote :: "string \<Rightarrow> u64 \<Rightarrow> u64 \<Rightarrow> fs \<Rightarrow> err option \<times> fs" where
  "saveTermAndVote dir trm vote s = WriteFileAtomic (dir, stateFileName) (state_bytes trm vote) s"

definition parse_state :: "bytes \<Rightarrow> err + u64 \<times> u64" where
  "parse_state d =
     (if length d \<noteq> stateFileSize then Inl ErrStateSize
      else let body = take (length d - 4) d; tail = drop (length d - 4) d
           in if Checksum body \<noteq> get32 tail then Inl ErrStateChecksum
              else if take (length stateMagic) body \<noteq> stateMagic then Inl ErrStateMagic
              else Inr (get64 (drop (length stateMagic) body), get64 (drop (length stateMagic + 8) body)))"

definition loadTermAndVote :: "string \<Rightarrow> fs \<Rightarrow> (err + u64 \<times> u64) \<times> fs" where
  "loadTermAndVote dir s =
     (case os_read (dir, stateFileName) s of
        (Inl e, s1) \<Rightarrow> (if e = ErrNotExist then (Inr (0, noVote), s1) else (Inl e, s1))
      | (Inr d, s1) \<Rightarrow> (parse_state d, s1))"

lemma length_state_bytes: "length (state_bytes t v) = stateFileSize"
  by (simp add: state_bytes_def stateFileSize_def Let_def)

lemma parse_state_bytes [simp]: "parse_state (state_bytes t v) = Inr (t, v)"
  by (simp add: parse_state_def state_bytes_def stateFileSize_def stateMagic_def Let_def)

text \<open>The term and vote the files hold, durably.\<close>

definition state_holds :: "fs \<Rightarrow> string \<Rightarrow> u64 \<Rightarrow> u64 \<Rightarrow> bool" where
  "state_holds s dir t v \<longleftrightarrow>
     (lookup s (dir, stateFileName) = None \<and> t = 0 \<and> v = noVote) \<or> replaced (dir, stateFileName) (state_bytes t v) s"

lemma state_holds_load:
  "state_holds s dir t v \<Longrightarrow> faults s = [] \<Longrightarrow> loadTermAndVote dir s = (Inr (t, v), s)"
  by (auto simp: state_holds_def loadTermAndVote_def os_read_def replaced_def)

lemma state_holds_crash: "state_holds s dir t v \<Longrightarrow> state_holds (crash f s) dir t v"
  by (auto simp: state_holds_def replaced_def lookup_crash)

lemma state_holds_cong:
  "lookup s' (dir, stateFileName) = lookup s (dir, stateFileName) \<Longrightarrow> state_holds s' dir t v = state_holds s dir t v"
  by (simp add: state_holds_def replaced_def)

text \<open>A save that fails leaves the old pair or the new one, and says nothing in between.\<close>

lemma saveTermAndVote_result:
  assumes "saveTermAndVote dir t v s = (r, s')" "state_holds s dir t0 v0"
  shows "r = None \<Longrightarrow> state_holds s' dir t v"
    and "state_holds s' dir t0 v0 \<or> state_holds s' dir t v"
    and "snd p \<noteq> stateFileName \<Longrightarrow> snd p \<noteq> stateFileName @ ''.tmp'' \<Longrightarrow> lookup s' p = lookup s p"
proof -
  note res = WriteFileAtomic_result [OF assms(1) [unfolded saveTermAndVote_def]]
  show "r = None \<Longrightarrow> state_holds s' dir t v" using res(2) by (simp add: state_holds_def)
  show "state_holds s' dir t0 v0 \<or> state_holds s' dir t v"
    using res(1) state_holds_cong [of s' dir s t0 v0] assms(2) by (auto simp: state_holds_def)
  show "snd p \<noteq> stateFileName \<Longrightarrow> snd p \<noteq> stateFileName @ ''.tmp'' \<Longrightarrow> lookup s' p = lookup s p"
    by (rule res(3)) (auto simp: tmp_path_def)
qed

lemma saveTermAndVote_faultless: "faults s = [] \<Longrightarrow> faults (snd (saveTermAndVote dir t v s)) = []"
  by (simp add: saveTermAndVote_def WriteFileAtomic_faultless)

end
