(* ===== verification/RaftLog.thy ===== *)
theory RaftLog
  imports Recordio
begin

text \<open>
  \<^verbatim>\<open>internal/raft/log.go\<close>: the Raft log file. Records are only ever appended; an entry whose
  index is not past the end supersedes everything from that index on, and replay applies that
  rule. \<open>EntryType\<close> is the 32-bit enum of the wire format, of which one byte is stored.
\<close>

record Entry =
  eTerm :: u64
  eIndex :: u64
  eType :: u32
  eCommand :: bytes

definition ENTRY_TYPE_NORMAL :: u32 where "ENTRY_TYPE_NORMAL = 1"
definition ENTRY_TYPE_NOOP :: u32 where "ENTRY_TYPE_NOOP = 2"
definition ENTRY_TYPE_CONFIG :: u32 where "ENTRY_TYPE_CONFIG = 3"

text \<open>The wire message \<open>LogEntry\<close> has the same fields.\<close>

record LogEntry =
  pTerm :: u64
  pIndex :: u64
  pType :: u32
  pCommand :: bytes

definition toProto :: "Entry \<Rightarrow> LogEntry" where
  "toProto e = \<lparr>pTerm = eTerm e, pIndex = eIndex e, pType = eType e, pCommand = eCommand e\<rparr>"

definition entryFromProto :: "LogEntry \<Rightarrow> Entry" where
  "entryFromProto p = \<lparr>eTerm = pTerm p, eIndex = pIndex p, eType = pType p, eCommand = pCommand p\<rparr>"

definition logFileName :: string where
  "logFileName = ''log''"

definition entryHeaderLen :: nat where
  "entryHeaderLen = 17"

definition maxEntryPayload :: u32 where
  "maxEntryPayload = word_of_nat (entryHeaderLen + 64 * 2 ^ 20)"

record logStore =
  ldir :: string
  lfailed :: bool

definition logPath :: "string \<Rightarrow> path" where
  "logPath dir = (dir, logFileName)"

definition entryPayload :: "Entry \<Rightarrow> bytes" where
  "entryPayload e = le64 (eTerm e) @ le64 (eIndex e) @ [ucast (eType e)] @ eCommand e"

definition entryDecode :: "bytes \<Rightarrow> Entry option" where
  "entryDecode payload =
     (if length payload < entryHeaderLen then None
      else Some \<lparr>eTerm = get64 payload, eIndex = get64 (drop 8 payload), eType = ucast (payload ! 16),
                 eCommand = drop entryHeaderLen payload\<rparr>)"

text \<open>The switch in the replay loop: the log starts behind the snapshot, grows by one, or rewinds.\<close>

definition replay_entry :: "u64 \<Rightarrow> Entry \<Rightarrow> Entry list \<Rightarrow> err + Entry list" where
  "replay_entry base e entries =
     (if entries = []
      then if eIndex e \<noteq> base + 1 then Inl (ErrLogStart (eIndex e)) else Inr [e]
      else if eIndex e = eIndex (last entries) + 1 then Inr (entries @ [e])
      else if eIndex (hd entries) \<le> eIndex e \<and> eIndex e \<le> eIndex (last entries)
      then Inr (take (unat (eIndex e - eIndex (hd entries))) entries @ [e])
      else Inl (ErrLogJump (eIndex (last entries)) (eIndex e)))"

definition openLog :: "string \<Rightarrow> u64 \<Rightarrow> fs \<Rightarrow> (err + logStore \<times> Entry list) \<times> fs" where
  "openLog dir base s =
     (case os_read (logPath dir) s of
        (r, s1) \<Rightarrow>
          (case (case r of Inr d \<Rightarrow> Inr d | Inl e \<Rightarrow> if e = ErrNotExist then Inr [] else Inl e) of
             Inl e \<Rightarrow> (Inl e, s1)
           | Inr d \<Rightarrow>
               (case frame_loop maxEntryPayload entryDecode (replay_entry base) d 0 [] of
                  Inl e \<Rightarrow> (Inl e, s1)
                | Inr (entries, off, clean) \<Rightarrow>
                    (case os_truncate (logPath dir) off s1 of
                       (r2, s2) \<Rightarrow>
                         if r2 \<noteq> None \<and> r2 \<noteq> Some ErrNotExist then (Inl (the r2), s2)
                         else (case os_create_append (logPath dir) s2 of
                                 (Some e, s3) \<Rightarrow> (Inl e, s3)
                               | (None, s3) \<Rightarrow>
                                   (case SyncDir s3 of
                                      (Some e, s4) \<Rightarrow> (Inl e, snd (os_noop s4))
                                    | (None, s4) \<Rightarrow> (Inr (\<lparr>ldir = dir, lfailed = False\<rparr>, entries), s4)))))))"

fun first_gap :: "Entry list \<Rightarrow> err option" where
  "first_gap (e1 # e2 # es) =
     (if eIndex e2 \<noteq> eIndex e1 + 1 then Some (ErrNonContiguous (eIndex e2) (eIndex e1)) else first_gap (e2 # es))"
| "first_gap es = None"

fun frame_entries :: "bytes \<Rightarrow> Entry list \<Rightarrow> bytes" where
  "frame_entries b [] = b"
| "frame_entries b (e # es) = frame_entries (Frame b (entryPayload e)) es"

definition log_append :: "logStore \<Rightarrow> Entry list \<Rightarrow> fs \<Rightarrow> err option \<times> logStore \<times> fs" where
  "log_append l entries s =
     (if lfailed l then (Some ErrLogFailed, l, s)
      else if entries = [] then (None, l, s)
      else case first_gap entries of
             Some e \<Rightarrow> (Some e, l, s)
           | None \<Rightarrow>
               (case os_write (logPath (ldir l)) (frame_entries [] entries) s of
                  (Some e, s1) \<Rightarrow> (Some e, l\<lparr>lfailed := True\<rparr>, s1)
                | (None, s1) \<Rightarrow>
                    (case os_sync (logPath (ldir l)) s1 of
                       (Some e, s2) \<Rightarrow> (Some e, l\<lparr>lfailed := True\<rparr>, s2)
                     | (None, s2) \<Rightarrow> (None, l, s2))))"

definition log_close :: "logStore \<Rightarrow> fs \<Rightarrow> err option \<times> fs" where
  "log_close l s = os_noop s"

definition log_rewrite :: "logStore \<Rightarrow> Entry list \<Rightarrow> fs \<Rightarrow> err option \<times> logStore \<times> fs" where
  "log_rewrite l entries s =
     (if lfailed l then (Some ErrLogFailed, l, s)
      else case os_noop s of
             (Some e, s1) \<Rightarrow> (Some e, l\<lparr>lfailed := True\<rparr>, s1)
           | (None, s1) \<Rightarrow>
               (case WriteFileAtomic (logPath (ldir l)) (frame_entries [] entries) s1 of
                  (Some e, s2) \<Rightarrow> (Some e, l\<lparr>lfailed := True\<rparr>, s2)
                | (None, s2) \<Rightarrow>
                    (case os_open_append (logPath (ldir l)) s2 of
                       (Some e, s3) \<Rightarrow> (Some e, l\<lparr>lfailed := True\<rparr>, s3)
                     | (None, s3) \<Rightarrow> (None, l, s3))))"

subsection \<open>Encoding\<close>

text \<open>An entry that replay reads back: its type fits the stored byte, its payload the bound.\<close>

definition entry_ok :: "Entry \<Rightarrow> bool" where
  "entry_ok e \<longleftrightarrow> unat (eType e) < 256 \<and> length (eCommand e) \<le> 64 * 2 ^ 20"

lemma toProto_inverse [simp]: "entryFromProto (toProto e) = e" "toProto (entryFromProto p) = p"
  by (simp_all add: toProto_def entryFromProto_def)

lemma entryDecode_entryPayload: "unat (eType e) < 256 \<Longrightarrow> entryDecode (entryPayload e) = Some e"
proof -
  assume "unat (eType e) < 256"
  then have "ucast (ucast (eType e) :: byte) = eType e"
    by (simp add: word_unat_eq_iff unsigned_ucast_eq unsigned_take_bit_eq take_bit_nat_eq_self)
  then show ?thesis
    by (simp add: entryDecode_def entryPayload_def entryHeaderLen_def nth_append)
qed

lemma unat_maxEntryPayload [simp]: "unat maxEntryPayload = 67108881"
  by (simp add: maxEntryPayload_def entryHeaderLen_def)

interpretation logf: framing maxEntryPayload entryPayload entryDecode entry_ok
  by unfold_locales (auto simp: entry_ok_def entryDecode_entryPayload, simp add: entryPayload_def)

abbreviation entry_frames :: "Entry list \<Rightarrow> bytes" where
  "entry_frames es \<equiv> concat (map (\<lambda>e. Frame [] (entryPayload e)) es)"

lemma frame_entries_conv: "frame_entries b es = b @ entry_frames es"
  by (induction es arbitrary: b) (simp_all add: Frame_def)

subsection \<open>The supersede rule\<close>

text \<open>A log behind \<open>base\<close>: consecutive indices from \<open>base + 1\<close>, none of which wraps.\<close>

definition contig :: "u64 \<Rightarrow> Entry list \<Rightarrow> bool" where
  "contig base es \<longleftrightarrow> (\<forall>i < length es. unat (eIndex (es ! i)) = unat base + i + 1)"

text \<open>What an append of \<open>new\<close> means: everything from its first index on is replaced.\<close>

definition supersede :: "u64 \<Rightarrow> Entry list \<Rightarrow> Entry list \<Rightarrow> Entry list" where
  "supersede base es new = (case new of [] \<Rightarrow> es | e # _ \<Rightarrow> take (unat (eIndex e) - unat base - 1) es @ new)"

text \<open>A batch that fits on a log: consecutive, and its first index is not beyond the next.\<close>

definition fits :: "u64 \<Rightarrow> Entry list \<Rightarrow> Entry list \<Rightarrow> bool" where
  "fits base es new \<longleftrightarrow> (case new of [] \<Rightarrow> True | e # _ \<Rightarrow>
     unat base < unat (eIndex e) \<and> unat (eIndex e) \<le> unat base + length es + 1
     \<and> (\<forall>i < length new. unat (eIndex (new ! i)) = unat (eIndex e) + i))"

lemma contig_last: "contig base es \<Longrightarrow> es \<noteq> [] \<Longrightarrow> unat (eIndex (last es)) = unat base + length es"
  unfolding contig_def by (simp add: last_conv_nth)

lemma contig_hd: "contig base es \<Longrightarrow> es \<noteq> [] \<Longrightarrow> unat (eIndex (hd es)) = unat base + 1"
  unfolding contig_def by (simp add: hd_conv_nth)

lemma contig_take: "contig base es \<Longrightarrow> contig base (take n es)"
  by (simp add: contig_def)

lemma contig_snoc:
  "contig base es \<Longrightarrow> unat (eIndex e) = unat base + length es + 1 \<Longrightarrow> contig base (es @ [e])"
  by (auto simp: contig_def nth_append less_Suc_eq)

lemma replay_entry_supersedes:
  assumes "contig base es" "unat base < unat (eIndex e)" "unat (eIndex e) \<le> unat base + length es + 1"
  shows "replay_entry base e es = Inr (take (unat (eIndex e) - unat base - 1) es @ [e])"
proof (cases "es = []")
  case True
  then have u: "unat (eIndex e) = unat base + 1" using assms(2,3) by simp
  then have "unat base + 1 < 2 ^ 64" using unat_u64_less [of "eIndex e"] by simp
  then have "eIndex e = base + 1" using u by (simp add: word_unat_eq_iff unat_succ)
  then show ?thesis using True by (simp add: replay_entry_def)
next
  case False
  note l = contig_last [OF assms(1) False] and h = contig_hd [OF assms(1) False]
  show ?thesis
  proof (cases "unat (eIndex e) = unat base + length es + 1")
    case True
    then have "unat (eIndex (last es)) + 1 < 2 ^ 64" using unat_u64_less [of "eIndex e"] l by simp
    then have "eIndex e = eIndex (last es) + 1" using True l by (simp add: word_unat_eq_iff unat_succ)
    then show ?thesis using False True by (simp add: replay_entry_def)
  next
    case nl: False
    then have le: "unat (eIndex e) \<le> unat (eIndex (last es))" using assms(3) l by simp
    then have "eIndex e \<noteq> eIndex (last es) + 1"
      using assms(2) by unat_arith
    moreover have "eIndex (hd es) \<le> eIndex e" "eIndex e \<le> eIndex (last es)"
      using h le assms(2) by (simp_all add: word_le_nat_alt)
    moreover have "unat (eIndex e - eIndex (hd es)) = unat (eIndex e) - unat base - 1"
      using calculation(2) h by (simp add: unat_sub)
    ultimately show ?thesis using False by (simp add: replay_entry_def)
  qed
qed

lemma fits_tl:
  assumes "contig base es" "fits base es (e # new)"
  shows "fits base (take (unat (eIndex e) - unat base - 1) es @ [e]) new"
    "contig base (take (unat (eIndex e) - unat base - 1) es @ [e])"
proof -
  have e: "unat base < unat (eIndex e)" "unat (eIndex e) \<le> unat base + length es + 1"
    and idx: "\<And>i. i < length (e # new) \<Longrightarrow> unat (eIndex ((e # new) ! i)) = unat (eIndex e) + i"
    using assms(2) by (auto simp: fits_def)
  have len: "length (take (unat (eIndex e) - unat base - 1) es) = unat (eIndex e) - unat base - 1" using e by simp
  show "contig base (take (unat (eIndex e) - unat base - 1) es @ [e])"
    by (rule contig_snoc [OF contig_take [OF assms(1)]]) (use e len in simp)
  have n: "unat (eIndex (new ! i)) = unat (eIndex e) + Suc i" if "i < length new" for i using idx [of "Suc i"] that by simp
  show "fits base (take (unat (eIndex e) - unat base - 1) es @ [e]) new"
  proof (cases new)
    case (Cons a as)
    then have "unat (eIndex a) = unat (eIndex e) + 1" using n [of 0] by simp
    then show ?thesis using e len n Cons by (simp add: fits_def)
  qed (simp add: fits_def)
qed

lemma fold_replay:
  assumes "contig base es" "fits base es new"
  shows "fold_err (replay_entry base) new es = Inr (supersede base es new) \<and> contig base (supersede base es new)"
  using assms
proof (induction new arbitrary: es)
  case (Cons e new)
  let ?es = "take (unat (eIndex e) - unat base - 1) es @ [e]"
  have e: "unat base < unat (eIndex e)" "unat (eIndex e) \<le> unat base + length es + 1"
    using Cons.prems(2) by (auto simp: fits_def)
  note tl = fits_tl [OF Cons.prems]
  have "supersede base ?es new = supersede base es (e # new)"
  proof (cases new)
    case (Cons e' new')
    then have "unat (eIndex e') = unat (eIndex e) + 1" using Cons.prems(2) by (auto simp: fits_def dest: spec [of _ 1])
    then show ?thesis using e Cons by (simp add: supersede_def)
  qed (simp add: supersede_def)
  then show ?case using Cons.IH [OF tl(2,1)] replay_entry_supersedes [OF Cons.prems(1) e] by simp
qed (simp add: supersede_def)

lemma first_gap_None: "first_gap es = None \<Longrightarrow> Suc i < length es \<Longrightarrow> eIndex (es ! Suc i) = eIndex (es ! i) + 1"
proof (induction es arbitrary: i rule: first_gap.induct)
  case (1 e1 e2 es)
  then show ?case by (cases i) (auto split: if_splits)
qed auto

lemma fits_first_gap: "fits base es new \<Longrightarrow> first_gap new = None"
proof -
  have "first_gap new = None" if "\<forall>i < length new. unat (eIndex (new ! i)) = k + i" for k
    using that
  proof (induction new arbitrary: k rule: first_gap.induct)
    case (1 e1 e2 es)
    have u: "unat (eIndex e1) = k" "unat (eIndex e2) = k + 1" using 1(2) by (auto dest: spec [of _ 0] spec [of _ 1])
    then have "eIndex e2 = eIndex e1 + 1"
      using unat_u64_less [of "eIndex e2"] by (simp add: word_unat_eq_iff unat_succ)
    moreover have "\<forall>i < length (e2 # es). unat (eIndex ((e2 # es) ! i)) = (k + 1) + i"
    proof (intro allI impI)
      fix i assume "i < length (e2 # es)"
      then show "unat (eIndex ((e2 # es) ! i)) = (k + 1) + i" using 1(2) [rule_format, of "Suc i"] by simp
    qed
    ultimately show ?case using 1(1) [of "k + 1"] by simp
  qed auto
  then show "fits base es new \<Longrightarrow> first_gap new = None" by (auto simp: fits_def split: list.splits)
qed

subsection \<open>The file and the log in memory\<close>

text \<open>The log file holds \<open>es\<close>: its records replay to them.\<close>

definition log_rep :: "fs \<Rightarrow> string \<Rightarrow> u64 \<Rightarrow> Entry list \<Rightarrow> bool" where
  "log_rep s dir base es \<longleftrightarrow> contig base es \<and>
     (\<exists>rs. replaced (logPath dir) (entry_frames rs) s \<and> (\<forall>e \<in> set rs. entry_ok e)
        \<and> fold_err (replay_entry base) rs [] = Inr es)"

lemma log_rep_crash: "log_rep s dir base es \<Longrightarrow> log_rep (crash f s) dir base es"
  unfolding log_rep_def by (auto simp: replaced_def lookup_crash)

lemma log_rep_cong: "lookup s' (logPath dir) = lookup s (logPath dir) \<Longrightarrow> log_rep s' dir base es = log_rep s dir base es"
  by (simp add: log_rep_def replaced_def)

lemma log_append_result:
  assumes "log_append l new s = (r, l', s')" "\<not> lfailed l" "log_rep s (ldir l) base es" "fits base es new" "\<forall>e \<in> set new. entry_ok e"
  shows "r = None \<Longrightarrow> log_rep s' (ldir l) base (supersede base es new) \<and> l' = l"
    and "r \<noteq> None \<Longrightarrow> lfailed l'"
    and "ldir l' = ldir l" "p \<noteq> logPath (ldir l) \<Longrightarrow> lookup s' p = lookup s p"
proof -
  obtain rs where rs: "replaced (logPath (ldir l)) (entry_frames rs) s" "\<forall>e \<in> set rs. entry_ok e"
    "fold_err (replay_entry base) rs [] = Inr es" and c: "contig base es" using assms(3) by (auto simp: log_rep_def)
  obtain r1 s1 where 1: "os_write (logPath (ldir l)) (entry_frames new) s = (r1, s1)" by force
  obtain r2 s2 where 2: "os_sync (logPath (ldir l)) s1 = (r2, s2)" by force
  note fold = fold_replay [OF c assms(4)]
  have fo: "fold_err (replay_entry base) (rs @ new) [] = Inr (supersede base es new)" using fold rs(3) by (simp add: fold_err_append)
  have ok2: "log_rep s2 (ldir l) base (supersede base es new)" if "r1 = None" "r2 = None"
  proof -
    have "replaced (logPath (ldir l)) (entry_frames (rs @ new)) s2"
      using that os_write_ok [of "logPath (ldir l)" "entry_frames new" s s1] os_sync_ok [of "logPath (ldir l)" s1 s2] 1 2 rs(1)
      by (simp add: replaced_def)
    then show ?thesis unfolding log_rep_def using fo fold rs(2) assms(5) by (intro conjI exI [of _ "rs @ new"]) auto
  qed
  have "(r = None \<longrightarrow> log_rep s' (ldir l) base (supersede base es new) \<and> l' = l) \<and> (r \<noteq> None \<longrightarrow> lfailed l')
    \<and> ldir l' = ldir l \<and> (\<forall>p. p \<noteq> logPath (ldir l) \<longrightarrow> lookup s' p = lookup s p)"
  proof (cases "new = []")
    case True
    then show ?thesis using assms(1-3) by (auto simp: log_append_def supersede_def)
  next
    case False
    note o = os_write_other [OF 1] os_sync_other [OF 2]
    show ?thesis
      using assms(1,2) fits_first_gap [OF assms(4)] 1 2 False ok2 o
      by (cases r1; cases r2) (auto simp: log_append_def frame_entries_conv)
  qed
  then show "r = None \<Longrightarrow> log_rep s' (ldir l) base (supersede base es new) \<and> l' = l" "r \<noteq> None \<Longrightarrow> lfailed l'"
    "ldir l' = ldir l" "p \<noteq> logPath (ldir l) \<Longrightarrow> lookup s' p = lookup s p" by blast+
qed

subsection \<open>Opening the log\<close>

text \<open>What is on disk when the node starts: no file yet, or complete records and then a part of
  one that was being written.\<close>

definition log_disk :: "fs \<Rightarrow> string \<Rightarrow> u64 \<Rightarrow> Entry list \<Rightarrow> bool" where
  "log_disk s dir base es \<longleftrightarrow> (lookup s (logPath dir) = None \<and> es = []) \<or>
     (contig base es \<and> (\<exists>rs e n. contents s (logPath dir) = Some (entry_frames rs @ take n (Frame [] (entryPayload e)))
        \<and> stable s (logPath dir) \<and> (\<forall>e \<in> set (e # rs). entry_ok e) \<and> n < length (Frame [] (entryPayload e))
        \<and> fold_err (replay_entry base) rs [] = Inr es))"

lemma log_rep_disk: "log_rep s dir base es \<Longrightarrow> log_disk s dir base es"
proof -
  assume "log_rep s dir base es"
  then obtain rs where rs: "replaced (logPath dir) (entry_frames rs) s" "\<forall>e \<in> set rs. entry_ok e"
    "fold_err (replay_entry base) rs [] = Inr es" "contig base es" by (auto simp: log_rep_def)
  let ?e = "\<lparr>eTerm = 0, eIndex = 0, eType = 0, eCommand = []\<rparr>"
  have "entry_ok ?e" by (simp add: entry_ok_def)
  then show ?thesis using rs unfolding log_disk_def
    by (intro disjI2 conjI exI [of _ rs] exI [of _ ?e] exI [of _ 0])
       (auto simp: replaced_def contents_def stable_def HeaderSize_def)
qed

lemma openLog_disk:
  assumes "log_disk s dir base es" "faults s = []"
  shows "\<exists>s'. openLog dir base s = (Inr (\<lparr>ldir = dir, lfailed = False\<rparr>, es), s') \<and> log_rep s' dir base es
    \<and> faults s' = [] \<and> (\<forall>p. p \<noteq> logPath dir \<longrightarrow> lookup s' p = lookup s p)"
  using assms(1) unfolding log_disk_def
proof (elim disjE conjE exE)
  assume n: "lookup s (logPath dir) = None" "es = []"
  let ?s = "put_file (logPath dir) new_file s"
  have "openLog dir base s = (Inr (\<lparr>ldir = dir, lfailed = False\<rparr>, es), ?s)"
    using n assms(2) by (simp add: openLog_def os_read_def os_truncate_def os_create_append_def SyncDir_def os_noop_def)
  moreover have "log_rep ?s dir base es"
    using n unfolding log_rep_def by (intro conjI exI [of _ "[]"]) (auto simp: contig_def replaced_def new_file_def)
  ultimately show ?thesis using assms(2) by simp
next
  fix rs e n
  assume c: "contig base es" "contents s (logPath dir) = Some (entry_frames rs @ take n (Frame [] (entryPayload e)))"
    "stable s (logPath dir)" "\<forall>e \<in> set (e # rs). entry_ok e" "n < length (Frame [] (entryPayload e))"
    "fold_err (replay_entry base) rs [] = Inr es"
  obtain f where f: "lookup s (logPath dir) = Some f" "fdata f = entry_frames rs @ take n (Frame [] (entryPayload e))"
    "fsynced f = length (fdata f)" using c(2,3) by (auto simp: contents_def stable_def)
  have loop: "frame_loop maxEntryPayload entryDecode (replay_entry base) (fdata f) 0 [] = Inr (es, length (entry_frames rs), n = 0)"
    using logf.loop_torn [of rs e n "replay_entry base" 0 "[]"] c(4,5,6) f(2) by simp
  let ?f = "f\<lparr>fdata := entry_frames rs, fsynced := length (entry_frames rs)\<rparr>"
  let ?s = "put_file (logPath dir) ?f s"
  have "openLog dir base s = (Inr (\<lparr>ldir = dir, lfailed = False\<rparr>, es), ?s)"
    using f assms(2) loop
    by (simp add: openLog_def os_read_def os_truncate_def os_create_append_def SyncDir_def os_noop_def)
  moreover have "log_rep ?s dir base es"
    using c f unfolding log_rep_def by (intro conjI exI [of _ rs]) (auto simp: replaced_def)
  ultimately show ?thesis using assms(2) by auto
qed

lemma take_entry_frames:
  assumes "m < length (entry_frames new)"
  shows "\<exists>j n. j < length new \<and> n < length (Frame [] (entryPayload (new ! j)))
    \<and> take m (entry_frames new) = entry_frames (take j new) @ take n (Frame [] (entryPayload (new ! j)))"
  using assms
proof (induction new arbitrary: m)
  case (Cons e new)
  show ?case
  proof (cases "m < length (Frame [] (entryPayload e))")
    case True
    then show ?thesis by (intro exI [of _ 0] exI [of _ m]) simp
  next
    case False
    then have "m - length (Frame [] (entryPayload e)) < length (entry_frames new)" using Cons.prems by simp
    then obtain j n where "j < length new" "n < length (Frame [] (entryPayload (new ! j)))"
      "take (m - length (Frame [] (entryPayload e))) (entry_frames new) = entry_frames (take j new) @ take n (Frame [] (entryPayload (new ! j)))"
      using Cons.IH by blast
    then show ?thesis using False by (intro exI [of _ "Suc j"] exI [of _ n]) simp
  qed
qed simp

text \<open>An append that fails, and then a crash: of the batch a prefix survives.\<close>

lemma fits_take: "fits base es new \<Longrightarrow> fits base es (take j new)"
proof (cases new; cases j)
  fix a as k assume "fits base es new" "new = a # as" "j = Suc k"
  moreover have "(a # take k as) ! i = (a # as) ! i" if "i < Suc (min (length as) k)" for i using that by (cases i) auto
  ultimately show "fits base es (take j new)" by (simp add: fits_def)
qed (auto simp: fits_def)

lemma log_append_crash:
  assumes "log_append l new s = (r, l', s')" "\<not> lfailed l" "log_rep s (ldir l) base es" "fits base es new" "\<forall>e \<in> set new. entry_ok e"
  shows "\<exists>j \<le> length new. (r = None \<longrightarrow> j = length new) \<and> log_disk (crash f s') (ldir l) base (supersede base es (take j new))"
proof (cases "r = None")
  case True
  then show ?thesis
    using log_append_result(1) [OF assms] log_rep_disk [OF log_rep_crash] by (intro exI [of _ "length new"]) simp
next
  case False
  obtain rs where rs: "replaced (logPath (ldir l)) (entry_frames rs) s" "\<forall>e \<in> set rs. entry_ok e"
    "fold_err (replay_entry base) rs [] = Inr es" and c: "contig base es" using assms(3) by (auto simp: log_rep_def)
  obtain r1 s1 where 1: "os_write (logPath (ldir l)) (entry_frames new) s = (r1, s1)" by force
  obtain r2 s2 where 2: "os_sync (logPath (ldir l)) s1 = (r2, s2)" by force
  have ne: "new \<noteq> []" using False assms(1,2) by (auto simp: log_append_def)
  have "\<exists>m. lookup s' (logPath (ldir l)) = Some \<lparr>fdata = entry_frames rs @ take m (entry_frames new), fsynced = length (entry_frames rs)\<rparr>"
  proof (cases r1)
    case (Some e)
    then show ?thesis using assms(1,2) 1 ne fits_first_gap [OF assms(4)] os_write_fail [of _ _ s e s1] rs(1)
      by (fastforce simp: log_append_def frame_entries_conv replaced_def)
  next
    case None
    obtain e where e: "r2 = Some e" using False assms(1,2) 1 2 None ne fits_first_gap [OF assms(4)]
      by (auto simp: log_append_def frame_entries_conv split: option.splits)
    have "s' = s2" using assms(1,2) 1 2 None ne fits_first_gap [OF assms(4)] e by (simp add: log_append_def frame_entries_conv)
    moreover have "lookup s1 (logPath (ldir l)) = Some \<lparr>fdata = entry_frames rs @ entry_frames new, fsynced = length (entry_frames rs)\<rparr>"
      using os_write_ok 1 None rs(1) by (fastforce simp: replaced_def)
    ultimately show ?thesis using os_sync_fail [of _ s1 e s2] 2 e by fastforce
  qed
  then obtain m where m: "lookup s' (logPath (ldir l)) = Some \<lparr>fdata = entry_frames rs @ take m (entry_frames new), fsynced = length (entry_frames rs)\<rparr>" ..
  define k where "k = min (f (logPath (ldir l))) m"
  have cr: "contents (crash f s') (logPath (ldir l)) = Some (entry_frames rs @ take k (entry_frames new))"
    using crash_prefix [OF m] by (simp add: k_def)
  have st: "stable (crash f s') (logPath (ldir l))" by (simp add: stable_def lookup_crash Let_def split: option.splits)
  show ?thesis
  proof (cases "k < length (entry_frames new)")
    case True
    obtain j n where j: "j < length new" "n < length (Frame [] (entryPayload (new ! j)))"
      "take k (entry_frames new) = entry_frames (take j new) @ take n (Frame [] (entryPayload (new ! j)))"
      using take_entry_frames [OF True] by blast
    note fr = fold_replay [OF c fits_take [OF assms(4), of j]]
    have "log_disk (crash f s') (ldir l) base (supersede base es (take j new))"
      unfolding log_disk_def
      by (intro disjI2 conjI exI [of _ "rs @ take j new"] exI [of _ "new ! j"] exI [of _ n])
         (use fr cr st j rs assms(5) in \<open>auto simp: fold_err_append dest: in_set_takeD\<close>)
    then show ?thesis using j(1) False by (intro exI [of _ j]) simp
  next
    case full: False
    have "replaced (logPath (ldir l)) (entry_frames (rs @ new)) (crash f s')"
      using cr st full by (auto simp: replaced_def contents_def stable_def split: option.splits)
    then have "log_rep (crash f s') (ldir l) base (supersede base es new)"
      unfolding log_rep_def using fold_replay [OF c assms(4)] rs assms(5)
      by (intro conjI exI [of _ "rs @ new"]) (auto simp: fold_err_append)
    then show ?thesis using log_rep_disk False by (intro exI [of _ "length new"]) simp
  qed
qed

lemma log_rewrite_result:
  assumes "log_rewrite l es s = (r, l', s')" "\<not> lfailed l" "contig base es" "\<forall>e \<in> set es. entry_ok e"
  shows "r = None \<Longrightarrow> log_rep s' (ldir l) base es \<and> l' = l" and "r \<noteq> None \<Longrightarrow> lfailed l'"
    and "ldir l' = ldir l"
    and "lookup s' (logPath (ldir l)) = lookup s (logPath (ldir l)) \<or> log_rep s' (ldir l) base es"
    and "p \<noteq> logPath (ldir l) \<Longrightarrow> p \<noteq> tmp_path (logPath (ldir l)) \<Longrightarrow> lookup s' p = lookup s p"
proof -
  obtain r1 s1 where 1: "os_noop s = (r1, s1)" by force
  obtain r2 s2 where 2: "WriteFileAtomic (logPath (ldir l)) (entry_frames es) s1 = (r2, s2)" by force
  obtain r3 s3 where 3: "os_open_append (logPath (ldir l)) s2 = (r3, s3)" by force
  note l1 = os_noop_lookup [OF 1] and w = WriteFileAtomic_result [OF 2]
  have l3: "lookup s3 p = lookup s2 p" for p
    using 3 by (auto simp: os_open_append_def next_fault_lookup split: prod.splits option.splits)
  have "fits base [] es" using assms(3) contig_hd [OF assms(3)] by (auto simp: fits_def contig_def split: list.splits)
  from fold_replay [OF _ this] have "fold_err (replay_entry base) es [] = Inr es"
    by (simp add: contig_def supersede_def split: list.splits)
  then have rep: "replaced (logPath (ldir l)) (entry_frames es) s' \<Longrightarrow> log_rep s' (ldir l) base es"
    unfolding log_rep_def using assms(3,4) by blast
  have "(r = None \<longrightarrow> log_rep s' (ldir l) base es \<and> l' = l) \<and> (r \<noteq> None \<longrightarrow> lfailed l') \<and> ldir l' = ldir l
    \<and> (lookup s' (logPath (ldir l)) = lookup s (logPath (ldir l)) \<or> log_rep s' (ldir l) base es)
    \<and> (\<forall>p. p \<noteq> logPath (ldir l) \<longrightarrow> p \<noteq> tmp_path (logPath (ldir l)) \<longrightarrow> lookup s' p = lookup s p)"
    using assms(1,2) 1 2 3 l1 w l3 rep
    by (cases r1; cases r2; cases r3) (auto simp: log_rewrite_def frame_entries_conv replaced_def)
  then show "r = None \<Longrightarrow> log_rep s' (ldir l) base es \<and> l' = l" "r \<noteq> None \<Longrightarrow> lfailed l'" "ldir l' = ldir l"
    "lookup s' (logPath (ldir l)) = lookup s (logPath (ldir l)) \<or> log_rep s' (ldir l) base es"
    "p \<noteq> logPath (ldir l) \<Longrightarrow> p \<noteq> tmp_path (logPath (ldir l)) \<Longrightarrow> lookup s' p = lookup s p" by blast+
qed

end
