(* ===== verification/Membership.thy ===== *)
theory Membership
  imports Recordio
begin

text \<open>
  The encodings of \<^verbatim>\<open>internal/raft/membership.go\<close>: a configuration change as the command of a
  log entry, a membership table inside a snapshot. A table is an association list from node
  ids to addresses.
\<close>

type_synonym members = "(u64 \<times> bytes) list"

definition confChangeAdd :: byte where "confChangeAdd = 1"
definition confChangeRemove :: byte where "confChangeRemove = 2"

record confChange =
  ccOp :: byte
  ccId :: u64
  ccAddr :: bytes

definition encodeConfChange :: "confChange \<Rightarrow> bytes" where
  "encodeConfChange cc = [ccOp cc] @ le64 (ccId cc) @ le32 (len32 (ccAddr cc)) @ ccAddr cc"

definition decodeConfChange :: "bytes \<Rightarrow> err + confChange" where
  "decodeConfChange b =
     (if length b < 1 + 8 + 4 then Inl ErrConfTruncated
      else let opb = b ! 0; i = get64 (drop 1 b); n = get32 (drop 9 b)
           in if length b - 13 \<noteq> unat n then Inl ErrConfLength
              else if opb \<noteq> confChangeAdd \<and> opb \<noteq> confChangeRemove then Inl ErrConfOp
              else Inr \<lparr>ccOp = opb, ccId = i, ccAddr = drop 13 b\<rparr>)"

definition member_bytes :: "members \<Rightarrow> u64 \<Rightarrow> bytes" where
  "member_bytes m i = (let a = the (map_of m i) in le64 i @ le32 (len32 a) @ a)"

definition encodeMembers :: "members \<Rightarrow> bytes" where
  "encodeMembers m = (let ids = sort (keys m) in le32 (len32 ids) @ concat (map (member_bytes m) ids))"

fun decode_entries :: "nat \<Rightarrow> bytes \<Rightarrow> members \<Rightarrow> err + members" where
  "decode_entries 0 b m = Inr m"
| "decode_entries (Suc k) b m =
     (if length b < 12 then Inl ErrMembersTruncated
      else let i = get64 b; alen = unat (get32 (drop 8 b)); b = drop 12 b
           in if length b < alen then Inl ErrMembersTruncated
              else decode_entries k (drop alen b) (AList.update i (take alen b) m))"

definition decodeMembers :: "bytes \<Rightarrow> err + members" where
  "decodeMembers b =
     (if length b < 4 then Inl ErrMembersTruncated
      else decode_entries (unat (get32 b)) (drop 4 b) [])"

subsection \<open>Round trips\<close>

definition conf_ok :: "confChange \<Rightarrow> bool" where
  "conf_ok cc \<longleftrightarrow> (ccOp cc = confChangeAdd \<or> ccOp cc = confChangeRemove) \<and> length (ccAddr cc) < 2 ^ 32"

lemma decode_encode_conf: "conf_ok cc \<Longrightarrow> decodeConfChange (encodeConfChange cc) = Inr cc"
  by (auto simp: decodeConfChange_def encodeConfChange_def conf_ok_def Let_def nth_append)

lemma decode_conf_ok:
  assumes "decodeConfChange b = Inr cc" "length b < 2 ^ 32"
  shows "conf_ok cc" "encodeConfChange cc = b"
proof -
  let ?n = "get32 (drop 9 b)"
  have len: "13 \<le> length b" "length b - 13 = unat ?n"
    and cc: "cc = \<lparr>ccOp = b ! 0, ccId = get64 (drop 1 b), ccAddr = drop 13 b\<rparr>"
    and op: "b ! 0 = confChangeAdd \<or> b ! 0 = confChangeRemove"
    using assms(1) by (auto simp: decodeConfChange_def Let_def split: if_splits)
  show "conf_ok cc" using op assms(2) by (auto simp: cc conf_ok_def)
  have i: "le64 (get64 (drop 1 b)) = take 8 (drop 1 b)" using len by (intro le64_get64) simp
  have n: "le32 (len32 (drop 13 b)) = take 4 (drop 9 b)"
  proof -
    have "len32 (drop 13 b) = ?n" using len(2) by (simp add: word_unat_eq_iff unat_of_nat unat_u32_less)
    then show ?thesis using len by (simp add: le32_get32)
  qed
  have "b = [b ! 0] @ drop 1 b" using len by (cases b) auto
  also have "drop 1 b = take 8 (drop 1 b) @ drop 9 b" using drop_split [of 1 b 8] by simp
  also have "drop 9 b = take 4 (drop 9 b) @ drop 13 b" using drop_split [of 9 b 4] by simp
  finally show "encodeConfChange cc = b" unfolding encodeConfChange_def cc using i n by simp
qed

definition members_ok :: "members \<Rightarrow> bool" where
  "members_ok m \<longleftrightarrow> distinct (keys m) \<and> length m < 2 ^ 32 \<and> (\<forall>(i, a) \<in> set m. length a < 2 ^ 32)"

lemma decode_entries_back:
  assumes "distinct ids" "\<forall>i \<in> set ids. length (the (map_of m i)) < 2 ^ 32"
  shows "decode_entries (length ids) (concat (map (member_bytes m) ids)) acc =
    Inr (fold (\<lambda>i. AList.update i (the (map_of m i))) ids acc)"
  using assms by (induction ids arbitrary: acc) (simp_all add: member_bytes_def Let_def)

lemma fold_update_map_of:
  "distinct ids \<Longrightarrow> map_of (fold (\<lambda>i. AList.update i (g i)) ids acc) = (\<lambda>x. if x \<in> set ids then Some (g x) else map_of acc x)"
  by (induction ids arbitrary: acc) (auto simp: fun_eq_iff)

text \<open>A table comes back as the same map.\<close>

lemma decode_encode_members:
  assumes "members_ok m"
  shows "\<exists>m'. decodeMembers (encodeMembers m) = Inr m' \<and> map_of m' = map_of m"
proof -
  let ?ids = "sort (keys m)" and ?g = "\<lambda>i. the (map_of m i)"
  let ?m = "fold (\<lambda>i. AList.update i (?g i)) ?ids []"
  have d: "distinct ?ids" and s: "set ?ids = set (keys m)" using assms by (simp_all add: members_ok_def)
  have "\<forall>i \<in> set ?ids. length (?g i) < 2 ^ 32"
    using assms by (fastforce simp: members_ok_def)
  from decode_entries_back [OF d this, of "[]"]
  have "decodeMembers (encodeMembers m) = Inr ?m"
    using assms by (simp add: decodeMembers_def encodeMembers_def Let_def members_ok_def)
  moreover have "map_of ?m = map_of m"
    unfolding fold_update_map_of [OF d] s by (rule ext) (simp, metis map_of_eq_None_iff option.exhaust_sel set_map)
  ultimately show ?thesis by blast
qed

end
