(* ===== verification/RaftSnap.thy ===== *)
theory RaftSnap
  imports Membership
begin

text \<open>
  The snapshot file of \<^verbatim>\<open>internal/raft/raftsnap.go\<close>: the state machine's image with the index,
  term and membership it stands for, replaced atomically. A missing file reads as the zero
  snapshot, whose configuration is nil.
\<close>

definition raftSnapFileName :: string where
  "raftSnapFileName = ''snapshot''"

definition raftSnapMagic :: bytes where
  "raftSnapMagic = [0x52, 0x4B, 0x56, 0x52, 0x53, 0x4E, 0x50, 0x31]" \<comment> \<open>RKVRSNP1\<close>

record raftSnapshot =
  sIndex :: u64
  sTerm :: u64
  sConfig :: "members option"
  sData :: bytes

definition noSnapshot :: raftSnapshot where
  "noSnapshot = \<lparr>sIndex = 0, sTerm = 0, sConfig = None, sData = []\<rparr>"

definition config_list :: "members option \<Rightarrow> members" where
  "config_list m = (case m of None \<Rightarrow> [] | Some m \<Rightarrow> m)"

definition raftSnap_bytes :: "raftSnapshot \<Rightarrow> bytes" where
  "raftSnap_bytes s =
     (let cfg = encodeMembers (config_list (sConfig s));
          b = raftSnapMagic @ le64 (sIndex s) @ le64 (sTerm s) @ le32 (len32 cfg) @ cfg @ sData s
      in b @ le32 (Checksum b))"

definition persistRaftSnapshot :: "string \<Rightarrow> raftSnapshot \<Rightarrow> fs \<Rightarrow> err option \<times> fs" where
  "persistRaftSnapshot dir sn s = WriteFileAtomic (dir, raftSnapFileName) (raftSnap_bytes sn) s"

definition parseRaftSnapshot :: "bytes \<Rightarrow> err + raftSnapshot" where
  "parseRaftSnapshot b =
     (if length b < length raftSnapMagic + 16 + 4 + 4 then Inl ErrSnapTooShort
      else let body = take (length b - 4) b; tail = drop (length b - 4) b
           in if Checksum body \<noteq> get32 tail then Inl ErrSnapChecksum
              else if take (length raftSnapMagic) body \<noteq> raftSnapMagic then Inl ErrSnapMagic
              else let body = drop (length raftSnapMagic) body;
                       idx = get64 body; trm = get64 (drop 8 body);
                       cfgLen = unat (get32 (drop 16 body)); body = drop 20 body
                   in if length body < cfgLen then Inl ErrConfigTruncated
                      else (case decodeMembers (take cfgLen body) of
                              Inl e \<Rightarrow> Inl e
                            | Inr m \<Rightarrow> Inr \<lparr>sIndex = idx, sTerm = trm, sConfig = Some m, sData = drop cfgLen body\<rparr>))"

definition loadRaftSnapshot :: "string \<Rightarrow> fs \<Rightarrow> (err + raftSnapshot) \<times> fs" where
  "loadRaftSnapshot dir s =
     (case os_read (dir, raftSnapFileName) s of
        (Inl e, s1) \<Rightarrow> (if e = ErrNotExist then (Inr noSnapshot, s1) else (Inl e, s1))
      | (Inr d, s1) \<Rightarrow> (parseRaftSnapshot d, s1))"

subsection \<open>Round trip\<close>

definition snap_ok :: "raftSnapshot \<Rightarrow> bool" where
  "snap_ok s \<longleftrightarrow> members_ok (config_list (sConfig s)) \<and> length (encodeMembers (config_list (sConfig s))) < 2 ^ 32"

lemma parse_raftSnap_bytes:
  assumes "snap_ok s"
  shows "\<exists>m. parseRaftSnapshot (raftSnap_bytes s) = Inr (s\<lparr>sConfig := Some m\<rparr>) \<and> map_of m = map_of (config_list (sConfig s))"
proof -
  obtain m where m: "decodeMembers (encodeMembers (config_list (sConfig s))) = Inr m" "map_of m = map_of (config_list (sConfig s))"
    using decode_encode_members assms by (auto simp: snap_ok_def)
  have "length raftSnapMagic = 8" by (simp add: raftSnapMagic_def)
  then have "parseRaftSnapshot (raftSnap_bytes s) = Inr (s\<lparr>sConfig := Some m\<rparr>)"
    using assms m(1) by (simp add: parseRaftSnapshot_def raftSnap_bytes_def snap_ok_def Let_def)
  then show ?thesis using m(2) by blast
qed

text \<open>The snapshot that the files hold, durably.\<close>

definition snap_holds_file :: "fs \<Rightarrow> string \<Rightarrow> raftSnapshot \<Rightarrow> bool" where
  "snap_holds_file s dir sn \<longleftrightarrow>
     (lookup s (dir, raftSnapFileName) = None \<and> sn = noSnapshot) \<or>
     (\<exists>sn0. replaced (dir, raftSnapFileName) (raftSnap_bytes sn0) s \<and> snap_ok sn0
        \<and> parseRaftSnapshot (raftSnap_bytes sn0) = Inr sn)"

lemma snap_holds_file_load:
  "snap_holds_file s dir sn \<Longrightarrow> faults s = [] \<Longrightarrow> loadRaftSnapshot dir s = (Inr sn, s)"
  by (auto simp: snap_holds_file_def loadRaftSnapshot_def os_read_def replaced_def)

lemma snap_holds_file_crash: "snap_holds_file s dir sn \<Longrightarrow> snap_holds_file (crash f s) dir sn"
  unfolding snap_holds_file_def by (auto simp: replaced_def lookup_crash)

lemma snap_holds_file_cong:
  "lookup s' (dir, raftSnapFileName) = lookup s (dir, raftSnapFileName) \<Longrightarrow> snap_holds_file s' dir sn = snap_holds_file s dir sn"
  by (simp add: snap_holds_file_def replaced_def)

lemma persistRaftSnapshot_result:
  assumes "persistRaftSnapshot dir sn s = (r, s')" "snap_ok sn"
  shows "r = None \<Longrightarrow> \<exists>m. snap_holds_file s' dir (sn\<lparr>sConfig := Some m\<rparr>) \<and> map_of m = map_of (config_list (sConfig sn))"
    and "lookup s' (dir, raftSnapFileName) = lookup s (dir, raftSnapFileName) \<or>
      (\<exists>m. snap_holds_file s' dir (sn\<lparr>sConfig := Some m\<rparr>) \<and> map_of m = map_of (config_list (sConfig sn)))"
    and "p \<noteq> (dir, raftSnapFileName) \<Longrightarrow> p \<noteq> tmp_path (dir, raftSnapFileName) \<Longrightarrow> lookup s' p = lookup s p"
proof -
  note res = WriteFileAtomic_result [OF assms(1) [unfolded persistRaftSnapshot_def]]
  have rep: "\<exists>m. snap_holds_file s' dir (sn\<lparr>sConfig := Some m\<rparr>) \<and> map_of m = map_of (config_list (sConfig sn))"
    if "replaced (dir, raftSnapFileName) (raftSnap_bytes sn) s'"
    using parse_raftSnap_bytes [OF assms(2)] that assms(2) unfolding snap_holds_file_def by blast
  show "r = None \<Longrightarrow> \<exists>m. snap_holds_file s' dir (sn\<lparr>sConfig := Some m\<rparr>) \<and> map_of m = map_of (config_list (sConfig sn))"
    using res(2) rep by blast
  show "lookup s' (dir, raftSnapFileName) = lookup s (dir, raftSnapFileName) \<or>
      (\<exists>m. snap_holds_file s' dir (sn\<lparr>sConfig := Some m\<rparr>) \<and> map_of m = map_of (config_list (sConfig sn)))"
    using res(1) rep by blast
  show "p \<noteq> (dir, raftSnapFileName) \<Longrightarrow> p \<noteq> tmp_path (dir, raftSnapFileName) \<Longrightarrow> lookup s' p = lookup s p"
    by (rule res(3))
qed

end
