(* ===== verification/RaftCore.thy ===== *)
theory RaftCore
  imports RaftState RaftLog RaftSnap
begin

text \<open>
  The state of a Raft node (\<^verbatim>\<open>internal/raft/core.go\<close>) with its basic operations, and the
  ReadIndex bookkeeping (\<^verbatim>\<open>internal/raft/readindex.go\<close>). Every method of \<open>core\<close> is a function
  on the record; one that can fail, or reach a slice expression that could panic, returns the
  error with the state. The files of the node are a field, \<open>disk\<close>. A nil map or set whose
  nil-ness the code never tests is the empty one. Go iterates over a map in an unspecified
  order; here it is the order of the association list, and no theorem depends on it. The
  random source is the list of the values it will draw.
\<close>

datatype role = follower | candidate | leader

record Config =
  ID :: u64
  PeerIDs :: "u64 list"
  Members :: "members option"
  DataDir :: string
  ElectionTicksMin :: int
  ElectionTicksMax :: int
  HeartbeatTicks :: int
  DisablePreVote :: bool

definition applyDefaults :: "Config \<Rightarrow> Config" where
  "applyDefaults c =
     c\<lparr>ElectionTicksMin := if ElectionTicksMin c = 0 then 20 else ElectionTicksMin c,
       ElectionTicksMax := if ElectionTicksMax c = 0 then 40 else ElectionTicksMax c,
       HeartbeatTicks := if HeartbeatTicks c = 0 then 2 else HeartbeatTicks c\<rparr>"

subsection \<open>Messages\<close>

record RequestVoteRequest =
  rvTerm :: u64
  rvCandidateId :: u64
  rvLastLogIndex :: u64
  rvLastLogTerm :: u64
  rvPreVote :: bool
  rvGroup :: u64

record RequestVoteResponse =
  vrTerm :: u64
  vrGranted :: bool

record AppendEntriesRequest =
  aeTerm :: u64
  aeLeaderId :: u64
  aePrevLogIndex :: u64
  aePrevLogTerm :: u64
  aeEntries :: "LogEntry list"
  aeLeaderCommit :: u64
  aeGroup :: u64
  aeSeq :: u64

record AppendEntriesResponse =
  arTerm :: u64
  arSuccess :: bool
  arSeq :: u64
  arConflictTerm :: u64
  arConflictIndex :: u64

record InstallSnapshotRequest =
  isTerm :: u64
  isLeaderId :: u64
  isLastIncludedIndex :: u64
  isLastIncludedTerm :: u64
  isData :: bytes
  isConfig :: bytes
  isGroup :: u64

record InstallSnapshotResponse =
  irTerm :: u64

record TimeoutNowRequest =
  tnTerm :: u64
  tnLeaderId :: u64
  tnGroup :: u64

text \<open>Exactly one field of an \<open>outbound\<close> is set.\<close>

datatype message =
    RequestVote RequestVoteRequest
  | AppendEntries AppendEntriesRequest
  | InstallSnapshot InstallSnapshotRequest
  | TimeoutNow TimeoutNowRequest

record outbound =
  oTo :: u64
  oMsg :: message

record pendingRead =
  prId :: u64
  prIndex :: u64
  prMinSeq :: u64
  prAcks :: "u64 set"

record readOutcome =
  roId :: u64
  roIndex :: u64
  roConfirmed :: bool

subsection \<open>The node\<close>

record core =
  cfg :: Config
  role :: role
  currentTerm :: u64
  votedFor :: u64
  leaderID :: u64
  entries :: "Entry list"
  store :: logStore
  commitIndex :: u64
  electionElapsed :: int
  electionTimeout :: int
  heartbeatElapsed :: int
  rng :: "nat list"
  ticksSinceLeader :: int
  votes :: "u64 set"
  preVotes :: "u64 set option"
  outbox :: "outbound list"
  nextIndex :: "u64 \<rightharpoonup> u64"
  matchIndex :: "u64 \<rightharpoonup> u64"
  committed :: "Entry list"
  lastDelivered :: u64
  snapIndex :: u64
  snapTerm :: u64
  snapConfig :: members
  pendingRestore :: bytes
  members :: members
  lastConfigIndex :: u64
  configVersion :: u64
  transferTarget :: u64
  transferTicks :: int
  appendSeq :: u64
  readCounter :: u64
  pendingReads :: "pendingRead list"
  readOutcomes :: "readOutcome list"
  disk :: fs

type_synonym 'a reply = "(err + 'a) \<times> core"

text \<open>Reading a Go map of numbers: an absent key reads as zero.\<close>

definition getm :: "(u64 \<rightharpoonup> u64) \<Rightarrow> u64 \<Rightarrow> u64" where
  "getm m k = (case m k of None \<Rightarrow> 0 | Some v \<Rightarrow> v)"

definition takeOutbox :: "core \<Rightarrow> outbound list \<times> core" where
  "takeOutbox c = (outbox c, c\<lparr>outbox := []\<rparr>)"

definition takeCommitted :: "core \<Rightarrow> Entry list \<times> core" where
  "takeCommitted c = (committed c, c\<lparr>committed := []\<rparr>)"

definition takeRestore :: "core \<Rightarrow> bytes \<times> core" where
  "takeRestore c = (pendingRestore c, c\<lparr>pendingRestore := []\<rparr>)"

definition takeReadOutcomes :: "core \<Rightarrow> readOutcome list \<times> core" where
  "takeReadOutcomes c = (readOutcomes c, c\<lparr>readOutcomes := []\<rparr>)"

definition core_close :: "core \<Rightarrow> err option \<times> core" where
  "core_close c = (case log_close (store c) (disk c) of (r, s) \<Rightarrow> (r, c\<lparr>disk := s\<rparr>))"

definition peerIDs :: "core \<Rightarrow> u64 list" where
  "peerIDs c = filter (\<lambda>i. i \<noteq> ID (cfg c)) (keys (members c))"

definition lastLogIndex :: "core \<Rightarrow> u64" where
  "lastLogIndex c = (if entries c = [] then snapIndex c else eIndex (last (entries c)))"

text \<open>The slice access in the last line is within bounds because the log is consecutive (see
  \<open>termAt_nth\<close> below).\<close>

definition termAt :: "core \<Rightarrow> u64 \<Rightarrow> u64" where
  "termAt c i =
     (if i = snapIndex c then snapTerm c
      else if i = 0 \<or> entries c = [] then 0
      else let base = eIndex (hd (entries c))
           in if i < base \<or> i > lastLogIndex c then 0
              else eTerm (entries c ! unat (i - base)))"

definition lastLogTerm :: "core \<Rightarrow> u64" where
  "lastLogTerm c = (if entries c = [] then snapTerm c else eTerm (last (entries c)))"

definition majority :: "core \<Rightarrow> nat" where
  "majority c = length (members c) div 2 + 1"

definition isMember :: "core \<Rightarrow> bool" where
  "isMember c \<longleftrightarrow> map_of (members c) (ID (cfg c)) \<noteq> None"

text \<open>\<open>rng.Intn\<close> panics on an empty range; \<open>newCore\<close> meets that panic first, and the
  configuration does not change afterwards.\<close>

definition resetElectionTimer :: "core \<Rightarrow> core" where
  "resetElectionTimer c =
     (let span = nat (ElectionTicksMax (cfg c) - ElectionTicksMin (cfg c));
          draw = (case rng c of [] \<Rightarrow> 0 | r # _ \<Rightarrow> r)
      in c\<lparr>electionElapsed := 0, electionTimeout := ElectionTicksMin (cfg c) + int (draw mod span), rng := tl (rng c)\<rparr>)"

definition saveState :: "core \<Rightarrow> err option \<times> core" where
  "saveState c = (case saveTermAndVote (DataDir (cfg c)) (currentTerm c) (votedFor c) (disk c) of
     (r, s) \<Rightarrow> (r, c\<lparr>disk := s\<rparr>))"

definition storeAppend :: "Entry list \<Rightarrow> core \<Rightarrow> err option \<times> core" where
  "storeAppend es c = (case log_append (store c) es (disk c) of
     (r, l, s) \<Rightarrow> (r, c\<lparr>store := l, disk := s\<rparr>))"

definition storeRewrite :: "Entry list \<Rightarrow> core \<Rightarrow> err option \<times> core" where
  "storeRewrite es c = (case log_rewrite (store c) es (disk c) of
     (r, l, s) \<Rightarrow> (r, c\<lparr>store := l, disk := s\<rparr>))"

subsection \<open>Read barriers\<close>

definition confirmReads :: "core \<Rightarrow> bool \<times> core" where
  "confirmReads c =
     (let done = filter (\<lambda>r. majority c \<le> card (prAcks r)) (pendingReads c);
          remaining = filter (\<lambda>r. \<not> majority c \<le> card (prAcks r)) (pendingReads c)
      in (remaining = [],
          c\<lparr>readOutcomes := readOutcomes c @ map (\<lambda>r. \<lparr>roId = prId r, roIndex = prIndex r, roConfirmed = True\<rparr>) done,
            pendingReads := remaining\<rparr>))"

definition noteFreshAck :: "u64 \<Rightarrow> u64 \<Rightarrow> core \<Rightarrow> core" where
  "noteFreshAck from seq c =
     (let c1 = c\<lparr>pendingReads := map (\<lambda>r. if prMinSeq r \<le> seq then r\<lparr>prAcks := insert from (prAcks r)\<rparr> else r) (pendingReads c)\<rparr>
      in if \<exists>r \<in> set (pendingReads c). prMinSeq r \<le> seq then snd (confirmReads c1) else c1)"

definition abortPendingReads :: "core \<Rightarrow> core" where
  "abortPendingReads c =
     c\<lparr>readOutcomes := readOutcomes c @ map (\<lambda>r. \<lparr>roId = prId r, roIndex = 0, roConfirmed = False\<rparr>) (pendingReads c),
       pendingReads := []\<rparr>"

subsection \<open>Membership\<close>

definition applyConfChange :: "confChange \<Rightarrow> u64 \<Rightarrow> core \<Rightarrow> core" where
  "applyConfChange cc index c =
     (let c1 = (if ccOp cc = confChangeAdd
                then (let c1 = c\<lparr>members := AList.update (ccId cc) (ccAddr cc) (members c)\<rparr>
                      in if role c = leader \<and> nextIndex c (ccId cc) = None
                         then c1\<lparr>nextIndex := (nextIndex c)(ccId cc \<mapsto> lastLogIndex c + 1),
                                 matchIndex := (matchIndex c)(ccId cc \<mapsto> 0)\<rparr>
                         else c1)
                else if ccOp cc = confChangeRemove
                then c\<lparr>members := AList.delete (ccId cc) (members c),
                       nextIndex := (nextIndex c)(ccId cc := None),
                       matchIndex := (matchIndex c)(ccId cc := None)\<rparr>
                else c)
      in c1\<lparr>lastConfigIndex := index, configVersion := configVersion c1 + 1\<rparr>)"

fun noteAppendedConfigs :: "Entry list \<Rightarrow> core \<Rightarrow> core" where
  "noteAppendedConfigs [] c = c"
| "noteAppendedConfigs (e # es) c =
     (if eType e \<noteq> ENTRY_TYPE_CONFIG then noteAppendedConfigs es c
      else case decodeConfChange (eCommand e) of
             Inl _ \<Rightarrow> noteAppendedConfigs es c
           | Inr cc \<Rightarrow> noteAppendedConfigs es (applyConfChange cc (eIndex e) c))"

text \<open>The effect of a change on a table alone.\<close>

definition conf_members :: "confChange \<Rightarrow> members \<Rightarrow> members" where
  "conf_members cc m =
     (if ccOp cc = confChangeAdd then AList.update (ccId cc) (ccAddr cc) m
      else if ccOp cc = confChangeRemove then AList.delete (ccId cc) m else m)"

fun recalc_loop :: "Entry list \<Rightarrow> members \<times> u64 \<Rightarrow> members \<times> u64" where
  "recalc_loop [] ml = ml"
| "recalc_loop (e # es) ml =
     (if eType e \<noteq> ENTRY_TYPE_CONFIG then recalc_loop es ml
      else case decodeConfChange (eCommand e) of
             Inl _ \<Rightarrow> recalc_loop es ml
           | Inr cc \<Rightarrow> recalc_loop es (conf_members cc (fst ml), eIndex e))"

definition recalcConfig :: "core \<Rightarrow> core" where
  "recalcConfig c =
     (case recalc_loop (entries c) (snapConfig c, 0) of
        (m, i) \<Rightarrow> c\<lparr>members := m, lastConfigIndex := i, configVersion := configVersion c + 1\<rparr>)"

fun configAt_loop :: "u64 \<Rightarrow> Entry list \<Rightarrow> members \<Rightarrow> members" where
  "configAt_loop index [] m = m"
| "configAt_loop index (e # es) m =
     (if eIndex e > index then m
      else if eType e \<noteq> ENTRY_TYPE_CONFIG then configAt_loop index es m
      else case decodeConfChange (eCommand e) of
             Inl _ \<Rightarrow> configAt_loop index es m
           | Inr cc \<Rightarrow> configAt_loop index es (conf_members cc m))"

definition configAt :: "core \<Rightarrow> u64 \<Rightarrow> members" where
  "configAt c index = configAt_loop index (entries c) (snapConfig c)"

subsection \<open>Starting\<close>

fun members_of_peers :: "u64 \<Rightarrow> u64 list \<Rightarrow> members \<Rightarrow> err + members" where
  "members_of_peers self [] m = Inr m"
| "members_of_peers self (p # ps) m =
     (if p = self then Inl ErrPeerSelf else members_of_peers self ps (AList.update p [] m))"

definition initial_members :: "Config \<Rightarrow> err + members" where
  "initial_members cf = (case Members cf of
     Some m \<Rightarrow> Inr m
   | None \<Rightarrow> members_of_peers (ID cf) (PeerIDs cf) [(ID cf, [])])"

definition newCore :: "Config \<Rightarrow> nat list \<Rightarrow> fs \<Rightarrow> (err + core) \<times> fs" where
  "newCore cf0 draws s =
     (let cf = applyDefaults cf0
      in if ID cf = 0 then (Inl ErrNodeID, s)
         else case initial_members cf of
           Inl e \<Rightarrow> (Inl e, s)
         | Inr ms \<Rightarrow>
             (case loadTermAndVote (DataDir cf) s of
                (Inl e, s1) \<Rightarrow> (Inl e, s1)
              | (Inr (trm, vote), s1) \<Rightarrow>
                  (case loadRaftSnapshot (DataDir cf) s1 of
                     (Inl e, s2) \<Rightarrow> (Inl e, s2)
                   | (Inr snap, s2) \<Rightarrow>
                       (case openLog (DataDir cf) (sIndex snap) s2 of
                          (Inl e, s3) \<Rightarrow> (Inl e, s3)
                        | (Inr (st, es), s3) \<Rightarrow>
                            if ElectionTicksMax cf \<le> ElectionTicksMin cf then (Inl Panic, s3)
                            else (Inr (resetElectionTimer (recalcConfig
                              \<lparr>cfg = cf\<lparr>Members := Some ms\<rparr>, role = follower, currentTerm = trm, votedFor = vote, leaderID = 0,
                               entries = es, store = st, commitIndex = sIndex snap,
                               electionElapsed = 0, electionTimeout = 0, heartbeatElapsed = 0, rng = draws, ticksSinceLeader = 0,
                               votes = {}, preVotes = None, outbox = [], nextIndex = Map.empty, matchIndex = Map.empty,
                               committed = [], lastDelivered = sIndex snap, snapIndex = sIndex snap, snapTerm = sTerm snap,
                               snapConfig = (case sConfig snap of Some m \<Rightarrow> m | None \<Rightarrow> ms), pendingRestore = sData snap,
                               members = [], lastConfigIndex = 0, configVersion = 0, transferTarget = 0, transferTicks = 0,
                               appendSeq = 0, readCounter = 0, pendingReads = [], readOutcomes = [], disk = s3\<rparr>)), s3)))))"

end
