(* ===== verification/RaftReplication.thy ===== *)
theory RaftReplication
  imports RaftCore
begin

text \<open>
  \<^verbatim>\<open>internal/raft/replication.go\<close>, the parts of \<^verbatim>\<open>core.go\<close> and \<^verbatim>\<open>leadership.go\<close> that it calls,
  compaction and snapshot installation of \<^verbatim>\<open>raftsnap.go\<close>, configuration changes of
  \<^verbatim>\<open>membership.go\<close>. The loops over log positions are recursions on the position; the slices
  they read are cut out once, with the bounds check that the slice expression makes.
\<close>

definition maxAppendBytes :: nat where
  "maxAppendBytes = 2 ^ 20"

subsection \<open>Sending\<close>

fun batch :: "nat \<Rightarrow> Entry list \<Rightarrow> LogEntry list" where
  "batch payload [] = []"
| "batch payload (e # es) =
     toProto e # (if maxAppendBytes \<le> payload + length (eCommand e) then [] else batch (payload + length (eCommand e)) es)"

definition entries_between :: "Entry list \<Rightarrow> u64 \<Rightarrow> u64 \<Rightarrow> Entry list option" where
  "entries_between es lo hi =
     (let p = unat (lo - eIndex (hd es)); n = unat (hi - lo) + 1
      in if length es < p + n then None else Some (take n (drop p es)))"

definition sendAppend :: "u64 \<Rightarrow> core \<Rightarrow> err option \<times> core" where
  "sendAppend peer c =
     (let n0 = getm (nextIndex c) peer; nxt = (if n0 = 0 then 1 else n0)
      in if nxt \<le> snapIndex c
         then (case loadRaftSnapshot (DataDir (cfg c)) (disk c) of
                 (Inl e, s) \<Rightarrow> (None, c\<lparr>disk := s\<rparr>)
               | (Inr snap, s) \<Rightarrow>
                   (None, c\<lparr>disk := s, outbox := outbox c @ [\<lparr>oTo = peer, oMsg = InstallSnapshot
                      \<lparr>isTerm = currentTerm c, isLeaderId = ID (cfg c), isLastIncludedIndex = sIndex snap,
                       isLastIncludedTerm = sTerm snap, isData = sData snap,
                       isConfig = encodeMembers (config_list (sConfig snap)), isGroup = 0\<rparr>\<rparr>]\<rparr>))
         else let prev = nxt - 1; c1 = c\<lparr>appendSeq := appendSeq c + 1\<rparr>; lst = lastLogIndex c
              in case (if nxt \<le> lst \<and> entries c \<noteq> [] then map_option (batch 0) (entries_between (entries c) nxt lst) else Some []) of
                   None \<Rightarrow> (Some Panic, c1)
                 | Some es \<Rightarrow>
                     (None, c1\<lparr>outbox := outbox c @ [\<lparr>oTo = peer, oMsg = AppendEntries
                        \<lparr>aeTerm = currentTerm c, aeLeaderId = ID (cfg c), aePrevLogIndex = prev,
                         aePrevLogTerm = termAt c prev, aeEntries = es, aeLeaderCommit = commitIndex c,
                         aeGroup = 0, aeSeq = appendSeq c1\<rparr>\<rparr>]\<rparr>))"

fun send_all :: "u64 list \<Rightarrow> core \<Rightarrow> err option \<times> core" where
  "send_all [] c = (None, c)"
| "send_all (p # ps) c = and_then (sendAppend p c) (send_all ps)"

definition broadcastAppends :: "core \<Rightarrow> err option \<times> core" where
  "broadcastAppends c = send_all (peerIDs c) c"

definition sendTimeoutNow :: "u64 \<Rightarrow> core \<Rightarrow> core" where
  "sendTimeoutNow to c = c\<lparr>outbox := outbox c @ [\<lparr>oTo = to, oMsg = TimeoutNow
     \<lparr>tnTerm = currentTerm c, tnLeaderId = ID (cfg c), tnGroup = 0\<rparr>\<rparr>]\<rparr>"

subsection \<open>Committing\<close>

definition deliver_one :: "Entry \<Rightarrow> core \<Rightarrow> core" where
  "deliver_one e c =
     (let c1 = c\<lparr>committed := committed c @ [e]\<rparr>
      in if eType e = ENTRY_TYPE_CONFIG \<and> role c = leader \<and> \<not> isMember c
         then abortPendingReads (c1\<lparr>role := follower, leaderID := 0, transferTarget := 0\<rparr>)
         else c1)"

definition deliverCommitted :: "core \<Rightarrow> err option \<times> core" where
  "deliverCommitted c =
     (if entries c = [] then (None, c)
      else let from = lastDelivered c + 1
           in if commitIndex c < from
              then (None, if lastDelivered c < commitIndex c then c\<lparr>lastDelivered := commitIndex c\<rparr> else c)
              else case entries_between (entries c) from (commitIndex c) of
                     None \<Rightarrow> (Some Panic, c)
                   | Some es \<Rightarrow>
                       let c1 = fold deliver_one es c
                       in (None, if lastDelivered c1 < commitIndex c1 then c1\<lparr>lastDelivered := commitIndex c1\<rparr> else c1))"

definition votes_for :: "core \<Rightarrow> u64 \<Rightarrow> nat" where
  "votes_for c n = (if isMember c then 1 else 0) + length (filter (\<lambda>i. n \<le> getm (matchIndex c) i) (peerIDs c))"

function advance_to :: "core \<Rightarrow> u64 \<Rightarrow> u64 option" where
  "advance_to c n =
     (if commitIndex c < n \<and> termAt c n = currentTerm c
      then if majority c \<le> votes_for c n then Some n else advance_to c (n - 1)
      else None)"
  by auto
termination
  by (relation "measure (\<lambda>(c, n). unat n)") (auto simp: word_less_nat_alt unat_minus_one word_neq_0_conv)

definition maybeAdvanceCommit :: "core \<Rightarrow> err option \<times> core" where
  "maybeAdvanceCommit c = (case advance_to c (lastLogIndex c) of
     None \<Rightarrow> (None, c)
   | Some n \<Rightarrow> deliverCommitted (c\<lparr>commitIndex := n\<rparr>))"

subsection \<open>Terms in the log\<close>

function firstIndexOfTerm :: "core \<Rightarrow> u64 \<Rightarrow> u64 \<Rightarrow> u64" where
  "firstIndexOfTerm c t i = (if 1 < i \<and> termAt c (i - 1) = t then firstIndexOfTerm c t (i - 1) else i)"
  by auto
termination
  by (relation "measure (\<lambda>(c, t, i). unat i)") (auto simp: word_less_nat_alt unat_minus_one word_neq_0_conv)

function last_of_term :: "core \<Rightarrow> u64 \<Rightarrow> u64 \<Rightarrow> u64" where
  "last_of_term c t i =
     (if i = 0 then 0
      else let x = termAt c i
           in if x = t then i else if x < t \<or> x = 0 then 0 else last_of_term c t (i - 1))"
  by auto
termination
  by (relation "measure (\<lambda>(c, t, i). unat i)") (auto simp: unat_minus_one word_neq_0_conv word_less_nat_alt)

definition lastIndexOfTerm :: "core \<Rightarrow> u64 \<Rightarrow> u64" where
  "lastIndexOfTerm c t = last_of_term c t (lastLogIndex c)"

declare advance_to.simps [simp del] firstIndexOfTerm.simps [simp del] last_of_term.simps [simp del]

subsection \<open>Stepping down\<close>

definition stepDown :: "u64 \<Rightarrow> core \<Rightarrow> err option \<times> core" where
  "stepDown t c = saveState (abortPendingReads
     (c\<lparr>role := follower, currentTerm := t, votedFor := noVote, leaderID := 0, votes := {}, preVotes := None, transferTarget := 0\<rparr>))"

text \<open>\<open>if term > c.term { stepDown }\<close>, the opening of every handler.\<close>

definition adopt :: "u64 \<Rightarrow> core \<Rightarrow> err option \<times> core" where
  "adopt t c = (if currentTerm c < t then stepDown t c else (None, c))"

subsection \<open>Proposals\<close>

definition propose :: "bytes \<Rightarrow> u32 \<Rightarrow> core \<Rightarrow> (u64 \<times> u64) reply" where
  "propose command typ c =
     (if role c \<noteq> leader then (Inl (ErrNotLeader (leaderID c)), c)
      else if transferTarget c \<noteq> 0 then (Inl (ErrNotLeader (transferTarget c)), c)
      else let e = \<lparr>eTerm = currentTerm c, eIndex = lastLogIndex c + 1, eType = typ, eCommand = command\<rparr>
           in case storeAppend [e] c of
                (Some _, c1) \<Rightarrow> (Inl ErrPersist, c1)
              | (None, c1) \<Rightarrow>
                  (case and_then (broadcastAppends (c1\<lparr>entries := entries c1 @ [e]\<rparr>)) maybeAdvanceCommit of
                     (Some err, c2) \<Rightarrow> (Inl err, c2)
                   | (None, c2) \<Rightarrow> (Inr (eIndex e, eTerm e), c2)))"

definition proposeConfChange :: "confChange \<Rightarrow> core \<Rightarrow> (u64 \<times> u64) reply" where
  "proposeConfChange cc c =
     (if role c \<noteq> leader then (Inl (ErrNotLeader (leaderID c)), c)
      else if commitIndex c < lastConfigIndex c then (Inl ErrChangeInFlight, c)
      else if ccOp cc = confChangeAdd \<and> map_of (members c) (ccId cc) = Some (ccAddr cc) then (Inl ErrAlreadyMember, c)
      else if ccOp cc \<noteq> confChangeAdd \<and> map_of (members c) (ccId cc) = None then (Inl ErrNotMember, c)
      else case propose (encodeConfChange cc) ENTRY_TYPE_CONFIG c of
             (Inl e, c1) \<Rightarrow> (Inl e, c1)
           | (Inr (index, trm), c1) \<Rightarrow> (Inr (index, trm), applyConfChange cc index c1))"

definition requestRead :: "core \<Rightarrow> u64 reply" where
  "requestRead c =
     (if role c \<noteq> leader then (Inl (ErrNotLeader (leaderID c)), c)
      else if termAt c (commitIndex c) \<noteq> currentTerm c then (Inl ErrLeaderNotReady, c)
      else let r = \<lparr>prId = readCounter c + 1, prIndex = commitIndex c, prMinSeq = appendSeq c + 1, prAcks = {ID (cfg c)}\<rparr>;
               (all_done, c1) = confirmReads (c\<lparr>readCounter := readCounter c + 1, pendingReads := pendingReads c @ [r]\<rparr>)
           in if all_done then (Inr (prId r), c1)
              else case broadcastAppends c1 of
                     (Some e, c2) \<Rightarrow> (Inl e, c2)
                   | (None, c2) \<Rightarrow> (Inr (prId r), c2))"

subsection \<open>The follower\<close>

definition truncateAndAppend :: "Entry list \<Rightarrow> core \<Rightarrow> err option \<times> core" where
  "truncateAndAppend new c =
     (let first = eIndex (hd new)
      in if first \<le> commitIndex c then (Some (ErrTruncateCommitted first (commitIndex c)), c)
         else let cuts = entries c \<noteq> [] \<and> first \<le> lastLogIndex c;
                  k = unat (first - eIndex (hd (entries c)))
              in if cuts \<and> length (entries c) < k then (Some Panic, c)
                 else let truncated = (cuts \<and> (\<exists>e \<in> set (drop k (entries c)). eType e = ENTRY_TYPE_CONFIG));
                          c1 = (if cuts then c\<lparr>entries := take k (entries c)\<rparr> else c)
                      in case storeAppend new c1 of
                           (Some e, c2) \<Rightarrow> (Some e, c2)
                         | (None, c2) \<Rightarrow>
                             let c3 = c2\<lparr>entries := entries c2 @ new\<rparr>
                             in (None, if truncated then recalcConfig c3 else noteAppendedConfigs new c3))"

text \<open>The entries of a request from the first genuinely new one on; none when all are held.\<close>

fun new_suffix :: "core \<Rightarrow> LogEntry list \<Rightarrow> LogEntry list" where
  "new_suffix c [] = []"
| "new_suffix c (pe # pes) =
     (if lastLogIndex c < pIndex pe \<or> termAt c (pIndex pe) \<noteq> pTerm pe then pe # pes else new_suffix c pes)"

definition recognize :: "u64 \<Rightarrow> core \<Rightarrow> core" where
  "recognize lid c =
     (let c1 = (if role c \<noteq> follower then c\<lparr>role := follower, votes := {}\<rparr> else c)
      in (resetElectionTimer (c1\<lparr>leaderID := lid\<rparr>))\<lparr>ticksSinceLeader := 0\<rparr>)"

definition handleAppendEntries :: "AppendEntriesRequest \<Rightarrow> core \<Rightarrow> AppendEntriesResponse reply" where
  "handleAppendEntries req c =
     (case adopt (aeTerm req) c of
        (Some e, c1) \<Rightarrow> (Inl e, c1)
      | (None, c1) \<Rightarrow>
          let resp = \<lparr>arTerm = currentTerm c1, arSuccess = False, arSeq = aeSeq req, arConflictTerm = 0, arConflictIndex = 0\<rparr>
          in if aeTerm req < currentTerm c1 then (Inr resp, c1)
             else let c2 = recognize (aeLeaderId req) c1; prev = aePrevLogIndex req
                  in if 0 < prev \<and> lastLogIndex c2 < prev
                     then (Inr (resp\<lparr>arConflictIndex := lastLogIndex c2 + 1\<rparr>), c2)
                     else if 0 < prev \<and> termAt c2 prev \<noteq> aePrevLogTerm req
                     then (Inr (resp\<lparr>arConflictTerm := termAt c2 prev,
                                     arConflictIndex := firstIndexOfTerm c2 (termAt c2 prev) prev\<rparr>), c2)
                     else case (let new = new_suffix c2 (aeEntries req)
                                in if new = [] then (None, c2) else truncateAndAppend (map entryFromProto new) c2) of
                            (Some e, c3) \<Rightarrow> (Inl e, c3)
                          | (None, c3) \<Rightarrow>
                              (let lastNew = prev + word_of_nat (length (aeEntries req))
                               in case (if commitIndex c3 < aeLeaderCommit req
                                        then deliverCommitted (c3\<lparr>commitIndex := min (aeLeaderCommit req) lastNew\<rparr>)
                                        else (None, c3)) of
                                    (Some e, c4) \<Rightarrow> (Inl e, c4)
                                  | (None, c4) \<Rightarrow> (Inr (resp\<lparr>arSuccess := True\<rparr>), c4)))"

subsection \<open>The leader\<close>

definition handleAppendResponse :: "u64 \<Rightarrow> AppendEntriesRequest \<Rightarrow> AppendEntriesResponse \<Rightarrow> core \<Rightarrow> err option \<times> core" where
  "handleAppendResponse from req resp c =
     (if currentTerm c < arTerm resp then stepDown (arTerm resp) c
      else if role c \<noteq> leader \<or> aeTerm req \<noteq> currentTerm c then (None, c)
      else if arSuccess resp
      then let c1 = noteFreshAck from (arSeq resp) c;
               m = aePrevLogIndex req + word_of_nat (length (aeEntries req))
           in and_then
                (if getm (matchIndex c1) from < m
                 then maybeAdvanceCommit (c1\<lparr>matchIndex := (matchIndex c1)(from \<mapsto> m), nextIndex := (nextIndex c1)(from \<mapsto> m + 1)\<rparr>)
                 else (None, c1))
                (\<lambda>c2. let c3 = (if from = transferTarget c2 \<and> getm (matchIndex c2) from = lastLogIndex c2
                                then sendTimeoutNow from c2 else c2)
                       in if getm (nextIndex c3) from \<le> lastLogIndex c3 then sendAppend from c3 else (None, c3))
      else let hint = arConflictIndex resp;
               t = arConflictTerm resp;
               n1 = (if t \<noteq> 0 \<and> lastIndexOfTerm c t \<noteq> 0 then lastIndexOfTerm c t + 1 else hint);
               nxt = (if n1 = 0 then 1 else n1);
               cur = getm (nextIndex c) from
           in sendAppend from (c\<lparr>nextIndex := (nextIndex c)(from \<mapsto> (if nxt < cur then nxt else max 1 (cur - 1)))\<rparr>))"

subsection \<open>Snapshots\<close>

definition compact :: "u64 \<Rightarrow> bytes \<Rightarrow> core \<Rightarrow> err option \<times> core" where
  "compact appliedIndex smData c =
     (if appliedIndex \<le> snapIndex c then (None, c)
      else if lastDelivered c < appliedIndex then (Some ErrCompactBeyondApplied, c)
      else let conf = configAt c appliedIndex;
               snap = \<lparr>sIndex = appliedIndex, sTerm = termAt c appliedIndex, sConfig = Some conf, sData = smData\<rparr>
           in case persistRaftSnapshot (DataDir (cfg c)) snap (disk c) of
                (Some e, s) \<Rightarrow> (Some e, c\<lparr>disk := s\<rparr>)
              | (None, s) \<Rightarrow>
                  let c1 = c\<lparr>disk := s\<rparr>; k = unat (appliedIndex - eIndex (hd (entries c1)) + 1)
                  in if entries c1 = [] \<or> length (entries c1) < k then (Some Panic, c1)
                     else let keep = drop k (entries c1)
                          in case storeRewrite keep c1 of
                               (Some e, c2) \<Rightarrow> (Some e, c2)
                             | (None, c2) \<Rightarrow>
                                 (None, c2\<lparr>entries := keep, snapIndex := sIndex snap, snapTerm := sTerm snap, snapConfig := conf\<rparr>))"

definition handleInstallSnapshot :: "InstallSnapshotRequest \<Rightarrow> core \<Rightarrow> InstallSnapshotResponse reply" where
  "handleInstallSnapshot req c =
     (case adopt (isTerm req) c of
        (Some e, c1) \<Rightarrow> (Inl e, c1)
      | (None, c1) \<Rightarrow>
          let resp = \<lparr>irTerm = currentTerm c1\<rparr>
          in if isTerm req < currentTerm c1 then (Inr resp, c1)
             else let c2 = recognize (isLeaderId req) c1; idx = isLastIncludedIndex req; trm = isLastIncludedTerm req
                  in if idx \<le> snapIndex c2 \<or> idx \<le> commitIndex c2 then (Inr resp, c2)
                     else case decodeMembers (isConfig req) of
                            Inl e \<Rightarrow> (Inl e, c2)
                          | Inr conf \<Rightarrow>
                              (case persistRaftSnapshot (DataDir (cfg c2))
                                      \<lparr>sIndex = idx, sTerm = trm, sConfig = Some conf, sData = isData req\<rparr> (disk c2) of
                                 (Some e, s) \<Rightarrow> (Inl e, c2\<lparr>disk := s\<rparr>)
                               | (None, s) \<Rightarrow>
                                   let c3 = c2\<lparr>disk := s\<rparr>;
                                       keeps = (idx \<le> lastLogIndex c3 \<and> termAt c3 idx = trm);
                                       k = unat (idx - eIndex (hd (entries c3)) + 1)
                                   in if keeps \<and> (entries c3 = [] \<or> length (entries c3) < k) then (Inl Panic, c3)
                                      else let keep = (if keeps then drop k (entries c3) else [])
                                           in case storeRewrite keep c3 of
                                                (Some e, c4) \<Rightarrow> (Inl e, c4)
                                              | (None, c4) \<Rightarrow>
                                                  (Inr resp, (recalcConfig
                                                     (c4\<lparr>entries := keep, snapIndex := idx, snapTerm := trm, snapConfig := conf,
                                                         commitIndex := max (commitIndex c4) idx,
                                                         lastDelivered := max (lastDelivered c4) idx\<rparr>))
                                                     \<lparr>pendingRestore := isData req\<rparr>)))"

definition handleInstallSnapshotResponse ::
  "u64 \<Rightarrow> InstallSnapshotRequest \<Rightarrow> InstallSnapshotResponse \<Rightarrow> core \<Rightarrow> err option \<times> core" where
  "handleInstallSnapshotResponse from req resp c =
     (if currentTerm c < irTerm resp then stepDown (irTerm resp) c
      else if role c \<noteq> leader \<or> isTerm req \<noteq> currentTerm c then (None, c)
      else let idx = isLastIncludedIndex req;
               c1 = (if getm (matchIndex c) from < idx
                     then c\<lparr>matchIndex := (matchIndex c)(from \<mapsto> idx), nextIndex := (nextIndex c)(from \<mapsto> idx + 1)\<rparr>
                     else c)
           in if getm (nextIndex c1) from \<le> lastLogIndex c1 then sendAppend from c1 else (None, c1))"

end
