(* ===== verification/RaftElection.thy ===== *)
theory RaftElection
  imports RaftReplication
begin

text \<open>
  Elections of \<^verbatim>\<open>internal/raft/core.go\<close>, pre-vote and leadership transfer of
  \<^verbatim>\<open>internal/raft/leadership.go\<close>.
\<close>

definition logUpToDate :: "core \<Rightarrow> u64 \<Rightarrow> u64 \<Rightarrow> bool" where
  "logUpToDate c lastIndex lastTerm =
     (if lastTerm \<noteq> lastLogTerm c then lastLogTerm c < lastTerm else lastLogIndex c \<le> lastIndex)"

definition maybeWinElection :: "core \<Rightarrow> err option \<times> core" where
  "maybeWinElection c =
     (if role c \<noteq> candidate \<or> card (votes c) < majority c then (None, c)
      else let c1 = c\<lparr>role := leader, leaderID := ID (cfg c), heartbeatElapsed := 0, preVotes := None, transferTarget := 0,
                      nextIndex := (\<lambda>i. if i \<in> set (peerIDs c) then Some (lastLogIndex c + 1) else None),
                      matchIndex := Map.empty\<rparr>;
               noop = \<lparr>eTerm = currentTerm c1, eIndex = lastLogIndex c1 + 1, eType = ENTRY_TYPE_NOOP, eCommand = []\<rparr>
           in case storeAppend [noop] c1 of
                (Some e, c2) \<Rightarrow> (Some e, c2)
              | (None, c2) \<Rightarrow>
                  and_then (broadcastAppends (c2\<lparr>entries := entries c2 @ [noop]\<rparr>)) maybeAdvanceCommit)"

definition voteRequest :: "core \<Rightarrow> u64 \<Rightarrow> bool \<Rightarrow> u64 \<Rightarrow> outbound" where
  "voteRequest c trm pre i = \<lparr>oTo = i, oMsg = RequestVote
     \<lparr>rvTerm = trm, rvCandidateId = ID (cfg c), rvLastLogIndex = lastLogIndex c, rvLastLogTerm = lastLogTerm c,
      rvPreVote = pre, rvGroup = 0\<rparr>\<rparr>"

definition startCampaign :: "core \<Rightarrow> err option \<times> core" where
  "startCampaign c =
     (let c1 = resetElectionTimer (c\<lparr>role := candidate, currentTerm := currentTerm c + 1, votedFor := ID (cfg c),
                                      leaderID := 0, votes := {ID (cfg c)}\<rparr>)
      in and_then (saveState c1) (\<lambda>c2.
           maybeWinElection (c2\<lparr>outbox := outbox c2 @ map (voteRequest c2 (currentTerm c2) False) (peerIDs c2)\<rparr>)))"

definition maybeWinPreVote :: "core \<Rightarrow> err option \<times> core" where
  "maybeWinPreVote c = (case preVotes c of
     None \<Rightarrow> (None, c)
   | Some v \<Rightarrow> if card v < majority c then (None, c) else startCampaign (c\<lparr>preVotes := None\<rparr>))"

definition startPreCampaign :: "core \<Rightarrow> err option \<times> core" where
  "startPreCampaign c =
     (let c1 = resetElectionTimer (c\<lparr>preVotes := Some {ID (cfg c)}\<rparr>);
          askTerm = currentTerm c1 + 1
      in maybeWinPreVote (c1\<lparr>outbox := outbox c1 @ map (voteRequest c1 askTerm True) (peerIDs c1)\<rparr>))"

definition tick :: "core \<Rightarrow> err option \<times> core" where
  "tick c =
     (if role c = leader
      then let c1 = c\<lparr>ticksSinceLeader := 0\<rparr>;
               c2 = (if transferTarget c1 \<noteq> 0
                     then let c2 = c1\<lparr>transferTicks := transferTicks c1 - 1\<rparr>
                          in if transferTicks c2 \<le> 0 then c2\<lparr>transferTarget := 0\<rparr> else c2
                     else c1);
               c3 = c2\<lparr>heartbeatElapsed := heartbeatElapsed c2 + 1\<rparr>
           in if HeartbeatTicks (cfg c3) \<le> heartbeatElapsed c3
              then broadcastAppends (c3\<lparr>heartbeatElapsed := 0\<rparr>) else (None, c3)
      else let c1 = c\<lparr>electionElapsed := electionElapsed c + 1, ticksSinceLeader := ticksSinceLeader c + 1\<rparr>
           in if electionTimeout c1 \<le> electionElapsed c1
              then if \<not> isMember c1 then (None, resetElectionTimer c1)
                   else if DisablePreVote (cfg c1) then startCampaign c1
                   else startPreCampaign c1
              else (None, c1))"

definition handlePreVote :: "RequestVoteRequest \<Rightarrow> core \<Rightarrow> RequestVoteResponse" where
  "handlePreVote req c =
     (if leaderID c \<noteq> 0 \<and> ticksSinceLeader c < ElectionTicksMin (cfg c)
      then \<lparr>vrTerm = currentTerm c, vrGranted = False\<rparr>
      else \<lparr>vrTerm = currentTerm c,
            vrGranted = (currentTerm c < rvTerm req \<and> logUpToDate c (rvLastLogIndex req) (rvLastLogTerm req))\<rparr>)"

definition handleRequestVote :: "RequestVoteRequest \<Rightarrow> core \<Rightarrow> RequestVoteResponse reply" where
  "handleRequestVote req c =
     (if rvPreVote req then (Inr (handlePreVote req c), c)
      else case adopt (rvTerm req) c of
             (Some e, c1) \<Rightarrow> (Inl e, c1)
           | (None, c1) \<Rightarrow>
               let resp = \<lparr>vrTerm = currentTerm c1, vrGranted = False\<rparr>
               in if rvTerm req < currentTerm c1 then (Inr resp, c1)
                  else let canVote = (votedFor c1 = noVote \<or> votedFor c1 = rvCandidateId req)
                       in if canVote \<and> logUpToDate c1 (rvLastLogIndex req) (rvLastLogTerm req)
                          then (case (if votedFor c1 \<noteq> rvCandidateId req
                                      then saveState (c1\<lparr>votedFor := rvCandidateId req\<rparr>) else (None, c1)) of
                                  (Some e, c2) \<Rightarrow> (Inl e, c2)
                                | (None, c2) \<Rightarrow> (Inr (resp\<lparr>vrGranted := True\<rparr>), resetElectionTimer c2))
                          else (Inr resp, c1))"

definition handleVoteResponse :: "u64 \<Rightarrow> u64 \<Rightarrow> RequestVoteResponse \<Rightarrow> core \<Rightarrow> err option \<times> core" where
  "handleVoteResponse from campaignTerm resp c =
     (if currentTerm c < vrTerm resp then stepDown (vrTerm resp) c
      else if role c \<noteq> candidate \<or> campaignTerm \<noteq> currentTerm c then (None, c)
      else if vrGranted resp then maybeWinElection (c\<lparr>votes := insert from (votes c)\<rparr>)
      else (None, c))"

definition handlePreVoteResponse :: "u64 \<Rightarrow> u64 \<Rightarrow> RequestVoteResponse \<Rightarrow> core \<Rightarrow> err option \<times> core" where
  "handlePreVoteResponse from askedTerm resp c =
     (if currentTerm c < vrTerm resp then stepDown (vrTerm resp) c
      else case preVotes c of
             None \<Rightarrow> (None, c)
           | Some v \<Rightarrow>
               if role c \<noteq> follower \<or> askedTerm \<noteq> currentTerm c + 1 then (None, c)
               else if vrGranted resp then maybeWinPreVote (c\<lparr>preVotes := Some (insert from v)\<rparr>)
               else (None, c))"

definition transferLeadership :: "u64 \<Rightarrow> core \<Rightarrow> err option \<times> core" where
  "transferLeadership to c =
     (if role c \<noteq> leader then (Some (ErrNotLeader (leaderID c)), c)
      else if to = ID (cfg c) then (None, c)
      else if map_of (members c) to = None then (Some ErrNotMember, c)
      else let c1 = c\<lparr>transferTarget := to, transferTicks := ElectionTicksMax (cfg c)\<rparr>
           in if getm (matchIndex c1) to = lastLogIndex c1 then (None, sendTimeoutNow to c1)
              else sendAppend to c1)"

definition handleTimeoutNow :: "TimeoutNowRequest \<Rightarrow> core \<Rightarrow> unit reply" where
  "handleTimeoutNow req c =
     (case adopt (tnTerm req) c of
        (Some e, c1) \<Rightarrow> (Inl e, c1)
      | (None, c1) \<Rightarrow>
          if tnTerm req < currentTerm c1 then (Inr (), c1)
          else case startCampaign c1 of (Some e, c2) \<Rightarrow> (Inl e, c2) | (None, c2) \<Rightarrow> (Inr (), c2))"

end
