(* ===== verification/RaftNode.thy ===== *)
theory RaftNode
  imports RaftElection
begin

text \<open>
  \<^verbatim>\<open>internal/raft/node.go\<close>: the event loop around the core. One step of the loop is \<open>run_step\<close>:
  dispatch an event to the core, halt on an error, and otherwise restore, apply, resolve reads,
  compact and hand the outbox to the transport, in that order. A reply channel is a number;
  what is sent into channels and to the transport is collected in the order of sending. The
  state machine is a parameter: the three methods of the \<open>StateMachine\<close> interface over an
  abstract state. Goroutines, contexts and timeouts only decide which events arrive.
\<close>

record 'sm StateMachine =
  smApply :: "u64 \<Rightarrow> bytes \<Rightarrow> 'sm \<Rightarrow> 'sm"
  smSnapshot :: "'sm \<Rightarrow> err + bytes"
  smRestore :: "bytes \<Rightarrow> 'sm \<Rightarrow> err + 'sm"

datatype reply_msg =
    VoteReply "err + RequestVoteResponse"
  | AppendReply "err + AppendEntriesResponse"
  | SnapshotReply "err + InstallSnapshotResponse"
  | TimeoutReply "err + unit"
  | ProposeReply "err + u64 \<times> u64"
  | DoneReply "err option"
  | TransferReply "err option"
  | ReadReply "err + u64"

text \<open>The loop messages; a number is the channel to answer into.\<close>

datatype event =
    evTick
  | evRequestVote RequestVoteRequest nat
  | evAppendEntries AppendEntriesRequest nat
  | evInstallSnapshot InstallSnapshotRequest nat
  | evTimeoutNow TimeoutNowRequest nat
  | evVoteResp u64 u64 bool RequestVoteResponse
  | evAppendResp u64 AppendEntriesRequest AppendEntriesResponse
  | evSnapshotResp u64 InstallSnapshotRequest InstallSnapshotResponse
  | evPropose bytes u32 nat nat
  | evConfChange confChange nat nat
  | evTransfer u64 nat
  | evRead nat

record waiter =
  wTerm :: u64
  wDone :: nat

record Status =
  stID :: u64
  stGroup :: u64
  stTerm :: u64
  stLeaderID :: u64
  stIsLeader :: bool
  stRole :: role
  stCommitIndex :: u64
  stLastApplied :: u64
  stLastLogIndex :: u64
  stMembers :: members

record 'sm Node =
  nGroup :: u64
  nCore :: core
  nSM :: 'sm
  nCompactAt :: u64
  nStopc :: bool
  nStopped :: bool
  nStatus :: Status
  nWaiters :: "u64 \<rightharpoonup> waiter"
  nSyncedConfigV :: u64
  nTransportPeers :: "members option"
  nApplied :: u64
  nReadWaiters :: "u64 \<rightharpoonup> nat"
  nAppliedWaiters :: "(u64 \<times> nat) list"
  nReplies :: "(nat \<times> reply_msg) list"
  nSent :: "outbound list"

definition reply_to :: "nat \<Rightarrow> reply_msg \<Rightarrow> 'sm Node \<Rightarrow> 'sm Node" where
  "reply_to ch m n = n\<lparr>nReplies := nReplies n @ [(ch, m)]\<rparr>"

definition status_of :: "'sm Node \<Rightarrow> Status" where
  "status_of n =
     \<lparr>stID = ID (cfg (nCore n)), stGroup = nGroup n, stTerm = currentTerm (nCore n), stLeaderID = leaderID (nCore n),
      stIsLeader = (role (nCore n) = leader), stRole = role (nCore n), stCommitIndex = commitIndex (nCore n),
      stLastApplied = nApplied n, stLastLogIndex = lastLogIndex (nCore n), stMembers = members (nCore n)\<rparr>"

definition publishStatus :: "'sm Node \<Rightarrow> 'sm Node" where
  "publishStatus n = n\<lparr>nStatus := status_of n\<rparr>"

text \<open>\<open>SetPeer\<close> for every other member with an address; nothing is ever removed here.\<close>

definition syncTransportConfig :: "'sm Node \<Rightarrow> 'sm Node" where
  "syncTransportConfig n =
     (case nTransportPeers n of
        None \<Rightarrow> n
      | Some ps \<Rightarrow>
          if configVersion (nCore n) = nSyncedConfigV n then n
          else n\<lparr>nTransportPeers := Some (fold (\<lambda>(i, a) ps. if i \<noteq> ID (cfg (nCore n)) \<and> a \<noteq> [] then AList.update i a ps else ps)
                                            (members (nCore n)) ps),
                 nSyncedConfigV := configVersion (nCore n)\<rparr>)"

definition fireAppliedWaiters :: "'sm Node \<Rightarrow> 'sm Node" where
  "fireAppliedWaiters n =
     (let ready = filter (\<lambda>w. fst w \<le> nApplied n) (nAppliedWaiters n)
      in n\<lparr>nReplies := nReplies n @ map (\<lambda>w. (snd w, ReadReply (Inr (fst w)))) ready,
           nAppliedWaiters := filter (\<lambda>w. \<not> fst w \<le> nApplied n) (nAppliedWaiters n)\<rparr>)"

definition applyEntry :: "'sm StateMachine \<Rightarrow> Entry \<Rightarrow> 'sm Node \<Rightarrow> 'sm Node" where
  "applyEntry M e n =
     (let n1 = (if eType e = ENTRY_TYPE_NORMAL then n\<lparr>nSM := smApply M (eIndex e) (eCommand e) (nSM n)\<rparr> else n);
          n2 = fireAppliedWaiters (n1\<lparr>nApplied := eIndex e\<rparr>)
      in case nWaiters n2 (eIndex e) of
           None \<Rightarrow> n2
         | Some w \<Rightarrow>
             reply_to (wDone w) (DoneReply (if wTerm w = eTerm e then None else Some ErrProposalLost))
               (n2\<lparr>nWaiters := (nWaiters n2)(eIndex e := None)\<rparr>))"

definition resolveRead :: "readOutcome \<Rightarrow> 'sm Node \<Rightarrow> 'sm Node" where
  "resolveRead r n =
     (case nReadWaiters n (roId r) of
        None \<Rightarrow> n
      | Some w \<Rightarrow>
          let n1 = n\<lparr>nReadWaiters := (nReadWaiters n)(roId r := None)\<rparr>
          in if \<not> roConfirmed r then reply_to w (ReadReply (Inl ErrProposalLost)) n1
             else if roIndex r \<le> nApplied n1 then reply_to w (ReadReply (Inr (roIndex r))) n1
             else n1\<lparr>nAppliedWaiters := nAppliedWaiters n1 @ [(roIndex r, w)]\<rparr>)"

definition maybeCompact :: "'sm StateMachine \<Rightarrow> 'sm Node \<Rightarrow> 'sm Node" where
  "maybeCompact M n =
     (if nApplied n < snapIndex (nCore n) + nCompactAt n then n
      else case smSnapshot M (nSM n) of
             Inl _ \<Rightarrow> n
           | Inr d \<Rightarrow>
               (case compact (nApplied n) d (nCore n) of
                  (r, c) \<Rightarrow> n\<lparr>nCore := c, nStopped := (nStopped n \<or> r = Some Panic)\<rparr>))"

definition with_group :: "u64 \<Rightarrow> message \<Rightarrow> message" where
  "with_group g m = (case m of
     RequestVote r \<Rightarrow> RequestVote (r\<lparr>rvGroup := g\<rparr>)
   | AppendEntries r \<Rightarrow> AppendEntries (r\<lparr>aeGroup := g\<rparr>)
   | InstallSnapshot r \<Rightarrow> InstallSnapshot (r\<lparr>isGroup := g\<rparr>)
   | TimeoutNow r \<Rightarrow> TimeoutNow (r\<lparr>tnGroup := g\<rparr>))"

definition sendAsync :: "outbound \<Rightarrow> 'sm Node \<Rightarrow> 'sm Node" where
  "sendAsync ob n = n\<lparr>nSent := nSent n @ [ob\<lparr>oMsg := with_group (nGroup n) (oMsg ob)\<rparr>]\<rparr>"

text \<open>The event a response re-enters as (a \<open>TimeoutNow\<close> is fire and forget).\<close>

definition response_event :: "outbound \<Rightarrow> reply_msg \<Rightarrow> event option" where
  "response_event ob r = (case (oMsg ob, r) of
     (RequestVote q, VoteReply (Inr p)) \<Rightarrow> Some (evVoteResp (oTo ob) (rvTerm q) (rvPreVote q) p)
   | (AppendEntries q, AppendReply (Inr p)) \<Rightarrow> Some (evAppendResp (oTo ob) q p)
   | (InstallSnapshot q, SnapshotReply (Inr p)) \<Rightarrow> Some (evSnapshotResp (oTo ob) q p)
   | _ \<Rightarrow> None)"

definition afterStep :: "'sm StateMachine \<Rightarrow> 'sm Node \<Rightarrow> 'sm Node" where
  "afterStep M n0 =
     (let (d, c1) = takeRestore (nCore n0); n1 = n0\<lparr>nCore := c1\<rparr>
      in case (if d = [] then Inr n1
               else case smRestore M d (nSM n1) of
                      Inl _ \<Rightarrow> Inl (n1\<lparr>nStopc := True\<rparr>)
                    | Inr m \<Rightarrow> Inr (fireAppliedWaiters (n1\<lparr>nSM := m, nApplied := snapIndex (nCore n1)\<rparr>))) of
           Inl n2 \<Rightarrow> n2
         | Inr n2 \<Rightarrow>
             let (es, c2) = takeCommitted (nCore n2);
                 n3 = fold (applyEntry M) es (n2\<lparr>nCore := c2\<rparr>);
                 (rs, c3) = takeReadOutcomes (nCore n3);
                 n4 = fold resolveRead rs (n3\<lparr>nCore := c3\<rparr>);
                 n5 = maybeCompact M n4;
                 n6 = syncTransportConfig n5;
                 (os, c4) = takeOutbox (nCore n6)
             in if nStopped n5 then n5
                else publishStatus (fold sendAsync os (n6\<lparr>nCore := c4\<rparr>)))"

subsection \<open>Dispatch\<close>

definition on_core :: "err option \<times> core \<Rightarrow> 'sm Node \<Rightarrow> err option \<times> 'sm Node" where
  "on_core r n = (fst r, n\<lparr>nCore := snd r\<rparr>)"

definition on_reply :: "nat \<Rightarrow> ((err + 'a) \<Rightarrow> reply_msg) \<Rightarrow> 'a reply \<Rightarrow> 'sm Node \<Rightarrow> err option \<times> 'sm Node" where
  "on_reply ch f r n = (case fst r of Inl e \<Rightarrow> Some e | Inr _ \<Rightarrow> None, reply_to ch (f (fst r)) (n\<lparr>nCore := snd r\<rparr>))"

text \<open>Of the errors of a proposal only a persist failure halts the node (and a panic).\<close>

definition on_propose :: "nat \<Rightarrow> nat \<Rightarrow> (u64 \<times> u64) reply \<Rightarrow> 'sm Node \<Rightarrow> err option \<times> 'sm Node" where
  "on_propose done respc r n =
     (case r of
        (Inr (index, trm), c) \<Rightarrow>
          (None, reply_to respc (ProposeReply (fst r)) (n\<lparr>nCore := c, nWaiters := (nWaiters n)(index \<mapsto> \<lparr>wTerm = trm, wDone = done\<rparr>)\<rparr>))
      | (Inl e, c) \<Rightarrow>
          (if e = ErrPersist \<or> e = Panic then Some e else None, reply_to respc (ProposeReply (fst r)) (n\<lparr>nCore := c\<rparr>)))"

definition dispatch :: "event \<Rightarrow> 'sm Node \<Rightarrow> err option \<times> 'sm Node" where
  "dispatch ev n =
     (let c = nCore n in case ev of
        evTick \<Rightarrow> on_core (tick c) n
      | evRequestVote req ch \<Rightarrow> on_reply ch VoteReply (handleRequestVote req c) n
      | evAppendEntries req ch \<Rightarrow> on_reply ch AppendReply (handleAppendEntries req c) n
      | evInstallSnapshot req ch \<Rightarrow> on_reply ch SnapshotReply (handleInstallSnapshot req c) n
      | evTimeoutNow req ch \<Rightarrow> on_reply ch TimeoutReply (handleTimeoutNow req c) n
      | evVoteResp from trm pre resp \<Rightarrow>
          on_core (if pre then handlePreVoteResponse from trm resp c else handleVoteResponse from trm resp c) n
      | evAppendResp from req resp \<Rightarrow> on_core (handleAppendResponse from req resp c) n
      | evSnapshotResp from req resp \<Rightarrow> on_core (handleInstallSnapshotResponse from req resp c) n
      | evConfChange cc done respc \<Rightarrow> on_propose done respc (proposeConfChange cc c) n
      | evTransfer to respc \<Rightarrow>
          (case transferLeadership to c of
             (r, c1) \<Rightarrow> (if r = Some Panic then r else None, reply_to respc (TransferReply r) (n\<lparr>nCore := c1\<rparr>)))
      | evRead respc \<Rightarrow>
          (case requestRead c of
             (Inl e, c1) \<Rightarrow> (if e = Panic then Some e else None, reply_to respc (ReadReply (Inl e)) (n\<lparr>nCore := c1\<rparr>))
           | (Inr i, c1) \<Rightarrow> (None, n\<lparr>nCore := c1, nReadWaiters := (nReadWaiters n)(i \<mapsto> respc)\<rparr>))
      | evPropose command typ done respc \<Rightarrow> on_propose done respc (propose command typ c) n)"

definition run_step :: "'sm StateMachine \<Rightarrow> event \<Rightarrow> 'sm Node \<Rightarrow> 'sm Node" where
  "run_step M ev n =
     (if nStopped n then n
      else case dispatch ev n of
             (Some e, n1) \<Rightarrow> n1\<lparr>nStopc := True, nStopped := True\<rparr>
           | (None, n1) \<Rightarrow> afterStep M n1)"

text \<open>The other branch of the loop's \<open>select\<close>: once \<open>stopc\<close> is closed (by \<open>Stop\<close>, by an error, by a
  failed restore) the loop may exit; Go chooses freely among the ready branches, so an event
  that is already queued may still be dispatched before.\<close>

definition Stop :: "'sm Node \<Rightarrow> 'sm Node" where
  "Stop n = n\<lparr>nStopc := True\<rparr>"

definition run_exit :: "'sm Node \<Rightarrow> 'sm Node" where
  "run_exit n = (if nStopc n then n\<lparr>nStopped := True\<rparr> else n)"

definition NewNode ::
  "'sm StateMachine \<Rightarrow> 'sm \<Rightarrow> Config \<Rightarrow> u64 \<Rightarrow> u64 \<Rightarrow> members option \<Rightarrow> nat list \<Rightarrow> fs \<Rightarrow> (err + 'sm Node) \<times> fs" where
  "NewNode M sm0 cf grp threshold peers draws s =
     (case newCore cf draws s of
        (Inl e, s1) \<Rightarrow> (Inl e, s1)
      | (Inr c, s1) \<Rightarrow>
          let (d, c1) = takeRestore c
          in case (if d = [] then Inr sm0 else smRestore M d sm0) of
               Inl e \<Rightarrow> (Inl e, disk (snd (core_close c1)))
             | Inr m \<Rightarrow>
                 let n = \<lparr>nGroup = grp, nCore = c1, nSM = m, nCompactAt = (if threshold = 0 then 4096 else threshold),
                          nStopc = False, nStopped = False,
                          nStatus = \<lparr>stID = 0, stGroup = 0, stTerm = 0, stLeaderID = 0, stIsLeader = False, stRole = follower,
                                     stCommitIndex = 0, stLastApplied = 0, stLastLogIndex = 0, stMembers = []\<rparr>,
                          nWaiters = Map.empty, nSyncedConfigV = 0, nTransportPeers = peers, nApplied = snapIndex c,
                          nReadWaiters = Map.empty, nAppliedWaiters = [], nReplies = [], nSent = []\<rparr>
                 in (Inr (publishStatus (syncTransportConfig n)), s1))"

end
