(* ===== verification/RaftVotes.thy ===== *)
theory RaftVotes
  imports RaftNode
begin

text \<open>
  The discipline of terms and votes: what every operation of a node does to its term, its vote,
  the votes it has collected and the file that remembers term and vote. These are the local
  facts on which election safety rests (\<^verbatim>\<open>internal/raft/core.go\<close>, \<^verbatim>\<open>leadership.go\<close>).
\<close>

named_theorems frame \<open>operations that leave term, vote and collected votes alone\<close>

text \<open>A later pair of term and vote: a higher term, or the same with no vote taken back.\<close>

definition tv_le :: "u64 \<times> u64 \<Rightarrow> u64 \<times> u64 \<Rightarrow> bool" where
  "tv_le a b \<longleftrightarrow> fst a < fst b \<or> fst a = fst b \<and> (snd a = noVote \<or> snd a = snd b)"

lemma tv_le_refl [simp]: "tv_le a a"
  by (simp add: tv_le_def)

lemma tv_le_trans: "tv_le a b \<Longrightarrow> tv_le b c \<Longrightarrow> tv_le a c"
  by (auto simp: tv_le_def)

abbreviation tv :: "core \<Rightarrow> u64 \<times> u64" where
  "tv c \<equiv> (currentTerm c, votedFor c)"

abbreviation dirOf :: "core \<Rightarrow> string" where
  "dirOf c \<equiv> DataDir (cfg c)"

text \<open>A message by which a node asks for votes in earnest names itself as the candidate.\<close>

definition own_candidacy :: "u64 \<Rightarrow> outbound \<Rightarrow> bool" where
  "own_candidacy i ob \<longleftrightarrow> (case oMsg ob of RequestVote q \<Rightarrow> rvPreVote q \<or> rvCandidateId q = i | _ \<Rightarrow> True)"

subsection \<open>Operations that do not touch the election state\<close>

definition same_vote :: "core \<Rightarrow> core \<Rightarrow> bool" where
  "same_vote c c' \<longleftrightarrow> cfg c' = cfg c \<and> tv c' = tv c \<and> votes c' = votes c
     \<and> (role c' = role c \<or> role c' = follower)
     \<and> ldir (store c') = ldir (store c)
     \<and> (ldir (store c) = dirOf c \<longrightarrow> lookup (disk c') (dirOf c, stateFileName) = lookup (disk c) (dirOf c, stateFileName))
     \<and> (\<forall>ob \<in> set (outbox c'). ob \<in> set (outbox c) \<or> own_candidacy (ID (cfg c)) ob)"

lemma same_vote_refl [simp]: "same_vote c c"
  by (simp add: same_vote_def)

lemma same_vote_trans: "same_vote c c1 \<Longrightarrow> same_vote c1 c2 \<Longrightarrow> same_vote c c2"
  unfolding same_vote_def by (metis prod.inject)

lemma resetElectionTimer_frame [frame]: "same_vote c (resetElectionTimer c)"
  by (simp add: same_vote_def resetElectionTimer_def Let_def)

lemma abortPendingReads_frame [frame]: "same_vote c (abortPendingReads c)"
  by (simp add: same_vote_def abortPendingReads_def)

lemma confirmReads_frame [frame]: "same_vote c (snd (confirmReads c))"
  by (simp add: same_vote_def confirmReads_def Let_def)

lemma noteFreshAck_frame [frame]: "same_vote c (noteFreshAck from seq c)"
  by (simp add: same_vote_def noteFreshAck_def confirmReads_def Let_def)

lemma applyConfChange_frame: "same_vote c (applyConfChange cc i c)"
  by (simp add: same_vote_def applyConfChange_def Let_def)

lemma noteAppendedConfigs_frame [frame]: "same_vote c (noteAppendedConfigs es c)"
proof (induction es arbitrary: c)
  case (Cons e es)
  show ?case using Cons.IH applyConfChange_frame same_vote_trans by (auto split: sum.splits) blast+
qed simp

lemma recalcConfig_frame [frame]: "same_vote c (recalcConfig c)"
  by (simp add: same_vote_def recalcConfig_def split: prod.splits)

lemma os_read_state: "lookup (snd (os_read p s)) q = lookup s q"
  by (metis os_read_lookup prod.collapse)

lemma loadRaftSnapshot_lookup: "lookup (snd (loadRaftSnapshot d s)) q = lookup s q"
  using os_read_state [of "(d, raftSnapFileName)" s q] by (auto simp: loadRaftSnapshot_def split: prod.splits sum.splits)

lemma sendAppend_frame [frame]: "same_vote c (snd (sendAppend p c))"
  using loadRaftSnapshot_lookup [of "dirOf c" "disk c" "(dirOf c, stateFileName)"]
  by (auto simp: same_vote_def sendAppend_def Let_def own_candidacy_def split: prod.splits sum.splits option.splits)

lemma and_then_frame:
  "same_vote c (snd x) \<Longrightarrow> (\<And>c1. same_vote c1 (snd (f c1))) \<Longrightarrow> same_vote c (snd (and_then x f))"
  by (cases x) (auto simp: and_then_def split: option.splits intro: same_vote_trans)

lemma send_all_frame: "same_vote c (snd (send_all ps c))"
  by (induction ps arbitrary: c) (simp_all add: and_then_frame sendAppend_frame)

lemma broadcastAppends_frame [frame]: "same_vote c (snd (broadcastAppends c))"
  by (simp add: broadcastAppends_def send_all_frame)

lemma deliver_one_frame: "same_vote c (deliver_one e c)"
  by (simp add: same_vote_def deliver_one_def abortPendingReads_def Let_def)

lemma fold_deliver_frame: "same_vote c (fold deliver_one es c)"
  by (induction es arbitrary: c) (auto intro: same_vote_trans deliver_one_frame)

lemma deliverCommitted_frame [frame]: "same_vote c (snd (deliverCommitted c))"
  using fold_deliver_frame [of c]
  by (auto simp: deliverCommitted_def Let_def same_vote_def split: option.splits)

lemma maybeAdvanceCommit_frame [frame]: "same_vote c (snd (maybeAdvanceCommit c))"
proof (cases "advance_to c (lastLogIndex c)")
  case (Some n)
  then show ?thesis
    using deliverCommitted_frame [of "c\<lparr>commitIndex := n\<rparr>"] by (simp add: maybeAdvanceCommit_def same_vote_def)
qed (simp add: maybeAdvanceCommit_def)

lemma sendTimeoutNow_frame [frame]: "same_vote c (sendTimeoutNow to c)"
  by (auto simp: same_vote_def sendTimeoutNow_def own_candidacy_def)

lemma log_append_other:
  assumes "log_append l es s = (r, l', s')"
  shows "ldir l' = ldir l" "p \<noteq> logPath (ldir l) \<Longrightarrow> lookup s' p = lookup s p"
proof -
  obtain r1 s1 where 1: "os_write (logPath (ldir l)) (frame_entries [] es) s = (r1, s1)" by force
  obtain r2 s2 where 2: "os_sync (logPath (ldir l)) s1 = (r2, s2)" by force
  show "ldir l' = ldir l" "p \<noteq> logPath (ldir l) \<Longrightarrow> lookup s' p = lookup s p"
    using assms 1 2 os_write_other [OF 1] os_sync_other [OF 2]
    by (auto simp: log_append_def split: if_splits option.splits)
qed

lemma log_rewrite_other:
  assumes "log_rewrite l es s = (r, l', s')"
  shows "ldir l' = ldir l" "p \<noteq> logPath (ldir l) \<Longrightarrow> p \<noteq> tmp_path (logPath (ldir l)) \<Longrightarrow> lookup s' p = lookup s p"
proof -
  obtain r1 s1 where 1: "os_noop s = (r1, s1)" by force
  obtain r2 s2 where 2: "WriteFileAtomic (logPath (ldir l)) (frame_entries [] es) s1 = (r2, s2)" by force
  obtain r3 s3 where 3: "os_open_append (logPath (ldir l)) s2 = (r3, s3)" by force
  have l3: "lookup s3 p = lookup s2 p" for p
    using 3 by (auto simp: os_open_append_def next_fault_lookup split: prod.splits option.splits)
  show "ldir l' = ldir l" "p \<noteq> logPath (ldir l) \<Longrightarrow> p \<noteq> tmp_path (logPath (ldir l)) \<Longrightarrow> lookup s' p = lookup s p"
    using assms 1 2 3 os_noop_lookup [OF 1] WriteFileAtomic_result(3) [OF 2] l3
    by (auto simp: log_rewrite_def split: if_splits option.splits)
qed

lemma state_not_log [simp]:
  "(d, stateFileName) \<noteq> logPath d" "(d, stateFileName) \<noteq> tmp_path (logPath d)"
  "(d, stateFileName) \<noteq> (d, raftSnapFileName)" "(d, stateFileName) \<noteq> tmp_path (d, raftSnapFileName)"
  by (simp_all add: logPath_def logFileName_def stateFileName_def tmp_path_def raftSnapFileName_def)

lemma storeAppend_frame [frame]: "same_vote c (snd (storeAppend es c))"
proof -
  obtain r l s where 1: "log_append (store c) es (disk c) = (r, l, s)" by (metis prod_cases3)
  show ?thesis using log_append_other [OF 1] 1 by (auto simp: storeAppend_def same_vote_def)
qed

lemma storeRewrite_frame [frame]: "same_vote c (snd (storeRewrite es c))"
proof -
  obtain r l s where 1: "log_rewrite (store c) es (disk c) = (r, l, s)" by (metis prod_cases3)
  show ?thesis using log_rewrite_other [OF 1] 1 by (auto simp: storeRewrite_def same_vote_def)
qed

lemma persistRaftSnapshot_state:
  "lookup (snd (persistRaftSnapshot d sn s)) (d, stateFileName) = lookup s (d, stateFileName)"
  using WriteFileAtomic_result(3) [of "(d, raftSnapFileName)" "raftSnap_bytes sn" s]
  by (metis persistRaftSnapshot_def prod.collapse state_not_log(3,4))

text \<open>Updates of fields that play no part in elections.\<close>

lemma same_vote_updates [simp]:
  "same_vote c (c'\<lparr>entries := x1\<rparr>) = same_vote c c'"
  "same_vote c (c'\<lparr>commitIndex := x2\<rparr>) = same_vote c c'"
  "same_vote c (c'\<lparr>lastDelivered := x2\<rparr>) = same_vote c c'"
  "same_vote c (c'\<lparr>nextIndex := x3\<rparr>) = same_vote c c'"
  "same_vote c (c'\<lparr>matchIndex := x3\<rparr>) = same_vote c c'"
  "same_vote c (c'\<lparr>snapIndex := x2\<rparr>) = same_vote c c'"
  "same_vote c (c'\<lparr>snapTerm := x2\<rparr>) = same_vote c c'"
  "same_vote c (c'\<lparr>snapConfig := x4\<rparr>) = same_vote c c'"
  "same_vote c (c'\<lparr>pendingRestore := x5\<rparr>) = same_vote c c'"
  "same_vote c (c'\<lparr>pendingReads := x6\<rparr>) = same_vote c c'"
  "same_vote c (c'\<lparr>readOutcomes := x7\<rparr>) = same_vote c c'"
  "same_vote c (c'\<lparr>readCounter := x2\<rparr>) = same_vote c c'"
  "same_vote c (c'\<lparr>committed := x1\<rparr>) = same_vote c c'"
  "same_vote c (c'\<lparr>transferTarget := x2\<rparr>) = same_vote c c'"
  "same_vote c (c'\<lparr>transferTicks := x8\<rparr>) = same_vote c c'"
  "same_vote c (c'\<lparr>heartbeatElapsed := x8\<rparr>) = same_vote c c'"
  "same_vote c (c'\<lparr>electionElapsed := x8\<rparr>) = same_vote c c'"
  "same_vote c (c'\<lparr>ticksSinceLeader := x8\<rparr>) = same_vote c c'"
  "same_vote c (c'\<lparr>leaderID := x2\<rparr>) = same_vote c c'"
  "same_vote c (c'\<lparr>preVotes := x9\<rparr>) = same_vote c c'"
  by (simp_all add: same_vote_def)

lemma truncateAndAppend_frame [frame]: "same_vote c (snd (truncateAndAppend es c))"
proof -
  have st: "same_vote c (snd (storeAppend es c1))" if "same_vote c c1" for c1
    using that storeAppend_frame same_vote_trans by blast
  have rc: "same_vote c (recalcConfig c1)" "same_vote c (noteAppendedConfigs es c1)" if "same_vote c c1" for c1
    using that recalcConfig_frame noteAppendedConfigs_frame same_vote_trans by blast+
  show ?thesis
    unfolding truncateAndAppend_def Let_def
    by (auto split: prod.splits option.splits intro!: rc) (metis st same_vote_refl same_vote_updates(1) snd_conv)+
qed

lemma compact_frame [frame]: "same_vote c (snd (compact i d c))"
proof -
  let ?sn = "\<lparr>sIndex = i, sTerm = termAt c i, sConfig = Some (configAt c i), sData = d\<rparr>"
  obtain r s where p: "persistRaftSnapshot (dirOf c) ?sn (disk c) = (r, s)" by force
  have sv: "same_vote c (c\<lparr>disk := s\<rparr>)"
    using persistRaftSnapshot_state [of "dirOf c" ?sn "disk c"] p by (simp add: same_vote_def)
  have rw: "same_vote c (snd (storeRewrite es (c\<lparr>disk := s\<rparr>)))" for es
    using sv storeRewrite_frame same_vote_trans by blast
  show ?thesis
    unfolding compact_def Let_def using p sv
    by (auto split: prod.splits option.splits) (metis rw snd_conv)+
qed

subsection \<open>Steps of the election state\<close>

text \<open>A node whose file agrees with its memory, and which has voted when it runs for office.\<close>

definition good :: "core \<Rightarrow> bool" where
  "good c \<longleftrightarrow> state_holds (disk c) (dirOf c) (currentTerm c) (votedFor c) \<and> ldir (store c) = dirOf c
     \<and> ID (cfg c) \<noteq> noVote \<and> (role c \<noteq> follower \<longrightarrow> votedFor c \<noteq> noVote)"

text \<open>What a call that succeeds may do: term and vote only move forward and are on disk; a node
  that runs for office has voted for itself in a new term, or goes on collecting votes (new ones
  only from \<open>X\<close>); it leads only with the votes of a majority.\<close>

definition vstep :: "u64 set \<Rightarrow> core \<Rightarrow> core \<Rightarrow> bool" where
  "vstep X c c' \<longleftrightarrow> cfg c' = cfg c \<and> good c' \<and> tv_le (tv c) (tv c')
     \<and> (role c' \<noteq> follower \<longrightarrow> votes c' = {ID (cfg c)} \<and> votedFor c' = ID (cfg c)
          \<or> tv c' = tv c \<and> role c \<noteq> follower \<and> votes c' \<subseteq> votes c \<union> X)
     \<and> (role c' = leader \<longrightarrow> role c = leader \<and> tv c' = tv c \<and> votes c' = votes c
          \<or> members c' = members c \<and> majority c' \<le> card (votes c'))
     \<and> (\<forall>ob \<in> set (outbox c'). ob \<in> set (outbox c) \<or> own_candidacy (ID (cfg c)) ob)"

text \<open>And what may be left on disk when it fails.\<close>

definition edisk :: "core \<Rightarrow> core \<Rightarrow> bool" where
  "edisk c c' \<longleftrightarrow> cfg c' = cfg c \<and> (\<exists>t v. state_holds (disk c') (dirOf c) t v \<and> tv_le (tv c) (t, v))"

lemma same_vote_good:
  assumes "same_vote c c'" "good c" shows "good c'"
proof -
  have e: "cfg c' = cfg c" "currentTerm c' = currentTerm c" "votedFor c' = votedFor c" "role c' = role c \<or> role c' = follower"
    "ldir (store c') = ldir (store c)" using assms(1) by (auto simp: same_vote_def)
  have "lookup (disk c') (dirOf c, stateFileName) = lookup (disk c) (dirOf c, stateFileName)"
    using assms by (auto simp: same_vote_def good_def)
  then show ?thesis using assms(2) e state_holds_cong unfolding good_def by (metis (no_types))
qed

lemma vstep_same: "good c \<Longrightarrow> same_vote c c' \<Longrightarrow> vstep X c c'"
  unfolding vstep_def using same_vote_good [of c c'] by (auto simp: same_vote_def)

lemma edisk_good: "cfg c' = cfg c \<Longrightarrow> good c' \<Longrightarrow> tv_le (tv c) (tv c') \<Longrightarrow> edisk c c'"
  unfolding edisk_def good_def by auto

lemma vstep_edisk: "vstep X c c' \<Longrightarrow> edisk c c'"
  unfolding vstep_def by (blast intro: edisk_good)

lemma vstep_then_same:
  assumes "vstep X c c1" "same_vote c1 c2" "members c2 = members c1 \<or> role c1 = follower"
  shows "vstep X c c2"
proof -
  have g: "good c2" using assms(1,2) same_vote_good by (auto simp: vstep_def)
  have r: "role c2 = role c1 \<or> role c2 = follower"
    and e: "cfg c2 = cfg c1" "currentTerm c2 = currentTerm c1" "votedFor c2 = votedFor c1" "votes c2 = votes c1"
    and o: "\<forall>ob \<in> set (outbox c2). ob \<in> set (outbox c1) \<or> own_candidacy (ID (cfg c1)) ob"
    using assms(2) by (auto simp: same_vote_def)
  have m: "role c2 = leader \<Longrightarrow> members c2 = members c1 \<and> majority c2 = majority c1"
    using assms(3) r by (auto simp: majority_def)
  have c: "cfg c1 = cfg c" "tv_le (tv c) (tv c1)"
    and v: "role c1 \<noteq> follower \<Longrightarrow> votes c1 = {ID (cfg c)} \<and> votedFor c1 = ID (cfg c)
          \<or> tv c1 = tv c \<and> role c \<noteq> follower \<and> votes c1 \<subseteq> votes c \<union> X"
    and l: "role c1 = leader \<Longrightarrow> role c = leader \<and> tv c1 = tv c \<and> votes c1 = votes c
          \<or> members c1 = members c \<and> majority c1 \<le> card (votes c1)"
    and oc: "\<forall>ob \<in> set (outbox c1). ob \<in> set (outbox c) \<or> own_candidacy (ID (cfg c)) ob"
    using assms(1) by (auto simp: vstep_def)
  have "\<forall>ob \<in> set (outbox c2). ob \<in> set (outbox c) \<or> own_candidacy (ID (cfg c)) ob" using o oc c by auto
  then show ?thesis unfolding vstep_def using g r e m c v l by (cases "role c2 = follower") auto
qed

lemma same_then_vstep:
  assumes "same_vote c c1" "vstep X c1 c2" "members c1 = members c"
  shows "vstep X c c2"
proof -
  have r: "role c1 = role c \<or> role c1 = follower"
    and e: "cfg c1 = cfg c" "currentTerm c1 = currentTerm c" "votedFor c1 = votedFor c" "votes c1 = votes c"
    and o: "\<forall>ob \<in> set (outbox c1). ob \<in> set (outbox c) \<or> own_candidacy (ID (cfg c)) ob"
    using assms(1) by (auto simp: same_vote_def)
  have "\<forall>ob \<in> set (outbox c2). ob \<in> set (outbox c) \<or> own_candidacy (ID (cfg c)) ob"
    using o assms(2) e by (auto simp: vstep_def)
  then show ?thesis using assms(2,3) r e unfolding vstep_def by (cases "role c1 = follower") auto
qed

lemma edisk_same: "edisk c c1 \<Longrightarrow> same_vote c1 c2 \<Longrightarrow> ldir (store c1) = dirOf c1 \<Longrightarrow> edisk c c2"
  unfolding edisk_def same_vote_def using state_holds_cong by metis

lemma saveState_result:
  assumes "saveState c = (r, c')" "state_holds (disk c) (dirOf c) t0 v0"
  shows "c' = c\<lparr>disk := disk c'\<rparr>" "r = None \<Longrightarrow> state_holds (disk c') (dirOf c) (currentTerm c) (votedFor c)"
    "state_holds (disk c') (dirOf c) t0 v0 \<or> state_holds (disk c') (dirOf c) (currentTerm c) (votedFor c)"
proof -
  obtain s where s: "saveTermAndVote (dirOf c) (currentTerm c) (votedFor c) (disk c) = (r, s)" "c' = c\<lparr>disk := s\<rparr>"
    using assms(1) by (auto simp: saveState_def split: prod.splits)
  show "c' = c\<lparr>disk := disk c'\<rparr>" "r = None \<Longrightarrow> state_holds (disk c') (dirOf c) (currentTerm c) (votedFor c)"
    "state_holds (disk c') (dirOf c) t0 v0 \<or> state_holds (disk c') (dirOf c) (currentTerm c) (votedFor c)"
    using s saveTermAndVote_result [OF s(1) assms(2)] by simp_all
qed

lemma stepDown_steps:
  assumes "stepDown t c = (r, c')" "good c" "currentTerm c < t"
  shows "r = None \<Longrightarrow> vstep {} c c' \<and> role c' = follower \<and> currentTerm c' = t \<and> votedFor c' = noVote \<and> members c' = members c"
    and "r \<noteq> None \<Longrightarrow> edisk c c'"
proof -
  let ?c = "abortPendingReads (c\<lparr>role := follower, currentTerm := t, votedFor := noVote, leaderID := 0, votes := {}, preVotes := None, transferTarget := 0\<rparr>)"
  have sv: "saveState ?c = (r, c')" using assms(1) by (simp add: stepDown_def)
  have h: "state_holds (disk ?c) (dirOf ?c) (currentTerm c) (votedFor c)"
    using assms(2) by (simp add: good_def abortPendingReads_def)
  have f: "cfg ?c = cfg c" "store ?c = store c" "currentTerm ?c = t" "votedFor ?c = noVote" "role ?c = follower" "outbox ?c = outbox c"
    by (simp_all add: abortPendingReads_def)
  note res = saveState_result [OF sv h]
  have f': "cfg c' = cfg c" "store c' = store c" "currentTerm c' = t" "votedFor c' = noVote" "role c' = follower" "outbox c' = outbox c"
    "members c' = members c"
    by (subst res(1), simp add: abortPendingReads_def)+
  show "r = None \<Longrightarrow> vstep {} c c' \<and> role c' = follower \<and> currentTerm c' = t \<and> votedFor c' = noVote \<and> members c' = members c"
    using res(2) f f' assms(2,3) by (simp add: vstep_def good_def tv_le_def)
  show "r \<noteq> None \<Longrightarrow> edisk c c'"
    using res(3) f f' assms(3) unfolding edisk_def by (auto simp: tv_le_def)
qed

lemma adopt_steps:
  assumes "adopt t c = (r, c')" "good c"
  shows "r = None \<Longrightarrow> vstep {} c c' \<and> t \<le> currentTerm c' \<and> (c' = c \<or> role c' = follower \<and> currentTerm c' = t) \<and> members c' = members c"
    and "r \<noteq> None \<Longrightarrow> edisk c c'"
  using assms stepDown_steps [of t c r c'] vstep_same [OF assms(2) same_vote_refl, of "{}"]
  by (auto simp: adopt_def split: if_splits)

subsection \<open>Winning\<close>

lemma storeAppend_members: "members (snd (storeAppend es c)) = members c"
  by (simp add: storeAppend_def split: prod.splits)

lemma sendAppend_members: "members (snd (sendAppend p c)) = members c"
  by (simp add: sendAppend_def Let_def split: prod.splits sum.splits option.splits)

lemma send_all_members: "members (snd (send_all ps c)) = members c"
proof (induction ps arbitrary: c)
  case (Cons p ps)
  then show ?case using sendAppend_members [of p c] by (cases "sendAppend p c") (auto simp: and_then_def split: option.splits)
qed simp

lemma fold_deliver_members: "members (fold deliver_one es c) = members c"
  by (induction es arbitrary: c) (simp_all add: deliver_one_def abortPendingReads_def Let_def)

lemma maybeAdvanceCommit_members: "members (snd (maybeAdvanceCommit c)) = members c"
  by (simp add: maybeAdvanceCommit_def deliverCommitted_def Let_def fold_deliver_members split: option.splits)

lemma announce_members: "members (snd (and_then (broadcastAppends c) maybeAdvanceCommit)) = members c"
  using send_all_members [of "peerIDs c" c] maybeAdvanceCommit_members
  by (cases "broadcastAppends c") (auto simp: broadcastAppends_def and_then_def split: option.splits)

lemma announce_frame: "same_vote c (snd (and_then (broadcastAppends c) maybeAdvanceCommit))"
  by (rule and_then_frame [OF broadcastAppends_frame maybeAdvanceCommit_frame])

lemma maybeWinElection_cases:
  assumes "maybeWinElection c = (r, c')"
  obtains "c' = c" "r = None"
  | "role c = candidate" "majority c \<le> card (votes c)" "same_vote (c\<lparr>role := leader\<rparr>) c'" "members c' = members c"
proof (cases "role c \<noteq> candidate \<or> card (votes c) < majority c")
  case True
  then show ?thesis using assms that(1) by (simp add: maybeWinElection_def)
next
  case False
  let ?c1 = "c\<lparr>role := leader, leaderID := ID (cfg c), heartbeatElapsed := 0, preVotes := None, transferTarget := 0,
                      nextIndex := (\<lambda>i. if i \<in> set (peerIDs c) then Some (lastLogIndex c + 1) else None),
                      matchIndex := Map.empty\<rparr>"
  let ?n = "\<lparr>eTerm = currentTerm ?c1, eIndex = lastLogIndex ?c1 + 1, eType = ENTRY_TYPE_NOOP, eCommand = []\<rparr>"
  obtain r2 c2 where 2: "storeAppend [?n] ?c1 = (r2, c2)" by force
  have s1: "same_vote (c\<lparr>role := leader\<rparr>) ?c1" by (simp add: same_vote_def)
  have s2: "same_vote (c\<lparr>role := leader\<rparr>) c2" "members c2 = members c"
    using same_vote_trans [OF s1 storeAppend_frame, of "[?n]"] storeAppend_members [of "[?n]" ?c1] 2 by simp_all
  let ?c3 = "c2\<lparr>entries := entries c2 @ [?n]\<rparr>"
  have s3: "same_vote (c\<lparr>role := leader\<rparr>) ?c3" using s2(1) by simp
  have "same_vote (c\<lparr>role := leader\<rparr>) c' \<and> members c' = members c"
  proof (cases r2)
    case (Some e)
    then show ?thesis using assms False 2 s2 by (simp add: maybeWinElection_def Let_def)
  next
    case None
    have "and_then (broadcastAppends ?c3) maybeAdvanceCommit = (r, c')"
      using assms False 2 None by (simp add: maybeWinElection_def Let_def)
    then show ?thesis
      using same_vote_trans [OF s3 announce_frame] announce_members [of ?c3] s2(2) by simp
  qed
  then show ?thesis using False that(2) by simp
qed

lemma vstep_win:
  assumes "vstep X c0 c" "maybeWinElection c = (r, c')" "members c = members c0"
  shows "vstep X c0 c'"
proof (cases rule: maybeWinElection_cases [OF assms(2)])
  case 1
  then show ?thesis using assms(1) by simp
next
  case 2
  have m: "majority (c\<lparr>role := leader\<rparr>) = majority c" by (simp add: majority_def)
  have v: "cfg c = cfg c0" "good c" "tv_le (tv c0) (tv c)" "\<forall>ob \<in> set (outbox c). ob \<in> set (outbox c0) \<or> own_candidacy (ID (cfg c0)) ob"
    "votes c = {ID (cfg c0)} \<and> votedFor c = ID (cfg c0) \<or> tv c = tv c0 \<and> role c0 \<noteq> follower \<and> votes c \<subseteq> votes c0 \<union> X"
    using assms(1) 2(1) unfolding vstep_def by simp_all
  have "good (c\<lparr>role := leader\<rparr>)" using v(2) 2(1) by (simp add: good_def)
  then have "vstep X c0 (c\<lparr>role := leader\<rparr>)"
    using v assms(3) 2(2) m unfolding vstep_def by simp
  from vstep_then_same [OF this 2(3)] show ?thesis using 2(4) by simp
qed

subsection \<open>Campaigns\<close>

definition vres :: "u64 set \<Rightarrow> core \<Rightarrow> err option \<Rightarrow> core \<Rightarrow> bool" where
  "vres X c r c' \<longleftrightarrow> (r = None \<longrightarrow> vstep X c c') \<and> edisk c c'"

lemma vres_step: "vstep X c c' \<Longrightarrow> vres X c r c'"
  by (simp add: vres_def vstep_edisk)

lemma vres_frame: "good c \<Longrightarrow> same_vote c (snd x) \<Longrightarrow> x = (r, c') \<Longrightarrow> vres X c r c'"
  using vres_step [OF vstep_same] by simp

lemma startCampaign_vres:
  assumes "startCampaign c = (r, c')" "good c" "currentTerm c < - 1"
  shows "vres {} c r c'"
proof -
  let ?c1 = "resetElectionTimer (c\<lparr>role := candidate, currentTerm := currentTerm c + 1, votedFor := ID (cfg c),
                                      leaderID := 0, votes := {ID (cfg c)}\<rparr>)"
  have f: "cfg ?c1 = cfg c" "store ?c1 = store c" "disk ?c1 = disk c" "currentTerm ?c1 = currentTerm c + 1" "votedFor ?c1 = ID (cfg c)"
    "votes ?c1 = {ID (cfg c)}" "role ?c1 = candidate" "members ?c1 = members c" "outbox ?c1 = outbox c"
    by (simp_all add: resetElectionTimer_def Let_def)
  obtain r2 c2 where 2: "saveState ?c1 = (r2, c2)" by force
  have h: "state_holds (disk ?c1) (dirOf ?c1) (currentTerm c) (votedFor c)" using assms(2) f by (simp add: good_def)
  note res = saveState_result [OF 2 h]
  have lt: "currentTerm c < currentTerm c + 1"
    using unat_plus_one [OF assms(3)] by (simp add: word_less_nat_alt)
  have f2: "cfg c2 = cfg c" "store c2 = store c" "currentTerm c2 = currentTerm c + 1" "votedFor c2 = ID (cfg c)"
    "votes c2 = {ID (cfg c)}" "role c2 = candidate" "members c2 = members c" "outbox c2 = outbox c"
    by (subst res(1), simp add: resetElectionTimer_def Let_def)+
  show ?thesis
  proof (cases r2)
    case (Some e)
    have "edisk c c2" using res(3) f f2 lt unfolding edisk_def by (auto simp: tv_le_def)
    then show ?thesis using assms(1) 2 Some by (auto simp: startCampaign_def Let_def vres_def)
  next
    case None
    let ?c3 = "c2\<lparr>outbox := outbox c2 @ map (voteRequest c2 (currentTerm c2) False) (peerIDs c2)\<rparr>"
    have g: "good ?c3" using res(2) None f f2 assms(2) by (simp add: good_def)
    have o: "\<forall>ob \<in> set (outbox ?c3). ob \<in> set (outbox c) \<or> own_candidacy (ID (cfg c)) ob"
      using f2 by (auto simp: own_candidacy_def voteRequest_def)
    have "vstep {} c ?c3"
      unfolding vstep_def using g o f2 lt by (simp add: tv_le_def)
    moreover have "maybeWinElection ?c3 = (r, c')" using assms(1) 2 None by (simp add: startCampaign_def Let_def)
    ultimately have "vstep {} c c'" by (rule vstep_win) (simp add: f2)
    then show ?thesis by (rule vres_step)
  qed
qed

lemma maybeWinPreVote_vres:
  assumes "maybeWinPreVote c = (r, c')" "good c" "currentTerm c < - 1"
  shows "vres {} c r c'"
proof (cases "preVotes c")
  case (Some v)
  show ?thesis
  proof (cases "card v < majority c")
    case False
    have g: "good (c\<lparr>preVotes := None\<rparr>)" using assms(2) by (simp add: good_def)
    have "vres {} (c\<lparr>preVotes := None\<rparr>) r c'"
      by (rule startCampaign_vres [OF _ g]) (use assms Some False in \<open>simp_all add: maybeWinPreVote_def\<close>)
    then show ?thesis by (simp add: vres_def vstep_def edisk_def)
  qed (use assms Some in \<open>simp add: maybeWinPreVote_def vres_step vstep_same\<close>)
qed (use assms in \<open>simp add: maybeWinPreVote_def vres_step vstep_same\<close>)

lemma vres_same_then:
  assumes "same_vote c c1" "members c1 = members c" "vres X c1 r c'"
  shows "vres X c r c'"
proof -
  have "edisk c c'" using assms(1,3) unfolding vres_def edisk_def same_vote_def by metis
  moreover have "r = None \<Longrightarrow> vstep X c c'" using same_then_vstep [OF assms(1) _ assms(2)] assms(3) by (simp add: vres_def)
  ultimately show ?thesis by (simp add: vres_def)
qed

lemma startPreCampaign_vres:
  assumes "startPreCampaign c = (r, c')" "good c" "currentTerm c < - 1"
  shows "vres {} c r c'"
proof -
  let ?c1 = "resetElectionTimer (c\<lparr>preVotes := Some {ID (cfg c)}\<rparr>)"
  let ?c2 = "?c1\<lparr>outbox := outbox ?c1 @ map (voteRequest ?c1 (currentTerm ?c1 + 1) True) (peerIDs ?c1)\<rparr>"
  have sv: "same_vote c ?c2"
    by (auto simp: same_vote_def resetElectionTimer_def Let_def own_candidacy_def voteRequest_def)
  have m: "members ?c2 = members c" "currentTerm ?c2 = currentTerm c" by (simp_all add: resetElectionTimer_def Let_def)
  have "vres {} ?c2 r c'"
    by (rule maybeWinPreVote_vres) (use assms m same_vote_good [OF sv] in \<open>simp_all add: startPreCampaign_def Let_def\<close>)
  then show ?thesis by (rule vres_same_then [OF sv m(1)])
qed

lemma tick_vres:
  assumes "tick c = (r, c')" "good c" "currentTerm c < - 1"
  shows "vres {} c r c'"
proof (cases "role c = leader")
  case True
  let ?c1 = "c\<lparr>ticksSinceLeader := 0\<rparr>"
  let ?c2 = "if transferTarget ?c1 \<noteq> 0
     then let c2 = ?c1\<lparr>transferTicks := transferTicks ?c1 - 1\<rparr> in if transferTicks c2 \<le> 0 then c2\<lparr>transferTarget := 0\<rparr> else c2
     else ?c1"
  let ?c3 = "?c2\<lparr>heartbeatElapsed := heartbeatElapsed ?c2 + 1\<rparr>"
  have s3: "same_vote c ?c3" "same_vote c (?c3\<lparr>heartbeatElapsed := 0\<rparr>)" by (simp_all add: Let_def)
  have "same_vote c (snd (tick c))"
    using same_vote_trans [OF s3(2) broadcastAppends_frame] s3(1) True by (auto simp: tick_def Let_def)
  then show ?thesis using vres_frame [OF assms(2)] assms(1) by blast
next
  case False
  let ?c1 = "c\<lparr>electionElapsed := electionElapsed c + 1, ticksSinceLeader := ticksSinceLeader c + 1\<rparr>"
  have s1: "same_vote c ?c1" "members ?c1 = members c" "currentTerm ?c1 = currentTerm c" by simp_all
  have g1: "good ?c1" using same_vote_good [OF s1(1) assms(2)] .
  have "tick c = (if electionTimeout ?c1 \<le> electionElapsed ?c1
      then if \<not> isMember ?c1 then (None, resetElectionTimer ?c1)
           else if DisablePreVote (cfg ?c1) then startCampaign ?c1 else startPreCampaign ?c1
      else (None, ?c1))" using False unfolding tick_def Let_def by (simp only: if_False)
  then have t: "tick c \<in> {(None, ?c1), (None, resetElectionTimer ?c1), startCampaign ?c1, startPreCampaign ?c1}"
    by (simp only: insert_iff split: if_split) simp
  have a1: "vres {} c r c'" if "(r, c') = (None, ?c1)"
    using vres_frame [OF assms(2), of "(None, ?c1)"] s1(1) that by simp
  have a2: "vres {} c r c'" if "(r, c') = (None, resetElectionTimer ?c1)"
    using vres_frame [OF assms(2), of "(None, resetElectionTimer ?c1)"] same_vote_trans [OF s1(1) resetElectionTimer_frame] that by simp
  have a3: "vres {} c r c'" if "(r, c') = startCampaign ?c1"
    by (rule vres_same_then [OF s1(1,2) startCampaign_vres [OF that [symmetric] g1]]) (simp add: assms(3))
  have a4: "vres {} c r c'" if "(r, c') = startPreCampaign ?c1"
    by (rule vres_same_then [OF s1(1,2) startPreCampaign_vres [OF that [symmetric] g1]]) (simp add: assms(3))
  from t [unfolded assms(1)] show ?thesis
    by (elim insertE emptyE) (erule a1, erule a2, erule a3, erule a4)
qed

lemma recognize_vstep:
  assumes "vstep {} c0 c" shows "vstep X c0 (recognize l c)" "role (recognize l c) = follower"
  using assms by (auto simp: vstep_def good_def recognize_def resetElectionTimer_def Let_def)

lemma vstep_follower_trans:
  assumes "vstep {} c c1" "vstep X c1 c2" "role c1 = follower" "members c1 = members c"
  shows "vstep X c c2"
proof -
  have v1: "cfg c1 = cfg c" "tv_le (tv c) (tv c1)" "\<forall>ob \<in> set (outbox c1). ob \<in> set (outbox c) \<or> own_candidacy (ID (cfg c)) ob"
    using assms(1) by (auto simp: vstep_def)
  have v2: "cfg c2 = cfg c1" "good c2" "tv_le (tv c1) (tv c2)" "\<forall>ob \<in> set (outbox c2). ob \<in> set (outbox c1) \<or> own_candidacy (ID (cfg c1)) ob"
    "role c2 \<noteq> follower \<Longrightarrow> votes c2 = {ID (cfg c1)} \<and> votedFor c2 = ID (cfg c1)"
    "role c2 = leader \<Longrightarrow> members c2 = members c1 \<and> majority c2 \<le> card (votes c2)"
    using assms(2,3) by (auto simp: vstep_def)
  have "\<forall>ob \<in> set (outbox c2). ob \<in> set (outbox c) \<or> own_candidacy (ID (cfg c)) ob" using v1 v2 by auto
  then show ?thesis unfolding vstep_def using v1 v2 tv_le_trans [OF v1(2) v2(3)] assms(4) by simp
qed

subsection \<open>Votes\<close>

abbreviation err_of :: "(err + 'a) \<Rightarrow> err option" where
  "err_of x \<equiv> (case x of Inl e \<Rightarrow> Some e | Inr _ \<Rightarrow> None)"

lemma edisk_trans:
  assumes "vstep X c c1" "edisk c1 c2" shows "edisk c c2"
proof -
  have c: "cfg c1 = cfg c" "tv_le (tv c) (tv c1)" using assms(1) by (auto simp: vstep_def)
  obtain t v where "cfg c2 = cfg c1" "state_holds (disk c2) (dirOf c1) t v" "tv_le (tv c1) (t, v)"
    using assms(2) by (auto simp: edisk_def)
  then show ?thesis unfolding edisk_def using c tv_le_trans [OF c(2)] by auto
qed

lemma cast_vote:
  assumes "(if votedFor c1 \<noteq> v then saveState (c1\<lparr>votedFor := v\<rparr>) else (None, c1)) = (r, c2)"
    "vstep {} c c1" "votedFor c1 = noVote \<or> votedFor c1 = v"
  shows "vres {} c r c2" "currentTerm c2 = currentTerm c1" "votedFor c2 = v" "members c2 = members c1"
proof -
  have v: "cfg c1 = cfg c" "tv_le (tv c) (tv c1)" "good c1"
    "\<forall>ob \<in> set (outbox c1). ob \<in> set (outbox c) \<or> own_candidacy (ID (cfg c)) ob"
    using assms(2) by (auto simp: vstep_def)
  have "vres {} c r c2 \<and> currentTerm c2 = currentTerm c1 \<and> votedFor c2 = v \<and> members c2 = members c1"
  proof (cases "votedFor c1 = v")
    case True
    then show ?thesis using assms(1) vres_step [OF assms(2)] by simp
  next
    case False
    let ?c1 = "c1\<lparr>votedFor := v\<rparr>"
    have nv: "votedFor c1 = noVote" using assms(3) False by simp
    have fo: "role c1 = follower" using v(3) nv by (auto simp: good_def)
    have sv: "saveState ?c1 = (r, c2)" using assms(1) False by simp
    have h: "state_holds (disk ?c1) (dirOf ?c1) (currentTerm c1) (votedFor c1)" using v(3) by (simp add: good_def)
    note res = saveState_result [OF sv h]
    have f2: "cfg c2 = cfg c1" "store c2 = store c1" "currentTerm c2 = currentTerm c1" "votedFor c2 = v"
      "role c2 = role c1" "outbox c2 = outbox c1" "members c2 = members c1" by (subst res(1), simp)+
    have le: "tv_le (tv c) (tv c2)"
      by (rule tv_le_trans [OF v(2)]) (use f2 nv in \<open>simp add: tv_le_def\<close>)
    have d: "state_holds (disk c2) (dirOf c) (currentTerm c1) (votedFor c1) \<or> state_holds (disk c2) (dirOf c) (currentTerm c2) (votedFor c2)"
      using res(3) f2 v(1) by simp
    have e: "edisk c c2" using d le v(1,2) f2(1) unfolding edisk_def by auto
    have "vstep {} c c2" if "r = None"
    proof -
      have "good c2" using res(2) [OF that] f2 v(3) fo by (simp add: good_def)
      then show ?thesis using le f2 v(1,4) fo by (simp add: vstep_def)
    qed
    then show ?thesis using e f2 by (simp add: vres_def)
  qed
  then show "vres {} c r c2" "currentTerm c2 = currentTerm c1" "votedFor c2 = v" "members c2 = members c1" by blast+
qed

lemma handleRequestVote_cases:
  assumes "handleRequestVote req c = (x, c')" "\<not> rvPreVote req"
  obtains (err) e where "adopt (rvTerm req) c = (Some e, c')" "x = Inl e"
  | (no) "adopt (rvTerm req) c = (None, c')" "x = Inr \<lparr>vrTerm = currentTerm c', vrGranted = False\<rparr>"
  | (yes) c1 r2 c2 where "adopt (rvTerm req) c = (None, c1)" "\<not> rvTerm req < currentTerm c1"
      "votedFor c1 = noVote \<or> votedFor c1 = rvCandidateId req" "logUpToDate c1 (rvLastLogIndex req) (rvLastLogTerm req)"
      "(if votedFor c1 \<noteq> rvCandidateId req then saveState (c1\<lparr>votedFor := rvCandidateId req\<rparr>) else (None, c1)) = (r2, c2)"
      "case r2 of Some e \<Rightarrow> x = Inl e \<and> c' = c2
       | None \<Rightarrow> x = Inr \<lparr>vrTerm = currentTerm c1, vrGranted = True\<rparr> \<and> c' = resetElectionTimer c2"
proof -
  obtain r1 c1 where 1: "adopt (rvTerm req) c = (r1, c1)" by force
  obtain r2 c2 where 2: "(if votedFor c1 \<noteq> rvCandidateId req then saveState (c1\<lparr>votedFor := rvCandidateId req\<rparr>) else (None, c1)) = (r2, c2)"
    by (metis prod.collapse)
  let ?ok = "(votedFor c1 = noVote \<or> votedFor c1 = rvCandidateId req) \<and> logUpToDate c1 (rvLastLogIndex req) (rvLastLogTerm req)"
  note d = assms(1) [unfolded handleRequestVote_def Let_def 1 if_not_P [OF assms(2)] prod.case 2]
  show thesis
  proof (cases r1)
    case (Some e)
    then show thesis using d 1 err by simp
  next
    case None
    show thesis
    proof (cases "rvTerm req < currentTerm c1 \<or> \<not> ?ok")
      case True
      then have "x = Inr \<lparr>vrTerm = currentTerm c1, vrGranted = False\<rparr> \<and> c' = c1" using d None by (cases "rvTerm req < currentTerm c1") auto
      then show thesis using no 1 None by simp
    next
      case False
      then have n: "\<not> rvTerm req < currentTerm c1" and k: ?ok by blast+
      have "case r2 of Some e \<Rightarrow> x = Inl e \<and> c' = c2
         | None \<Rightarrow> x = Inr \<lparr>vrTerm = currentTerm c1, vrGranted = True\<rparr> \<and> c' = resetElectionTimer c2"
        using d None n k by (cases r2) simp_all
      then show thesis using yes [OF 1 [unfolded None] n _ _ 2] k by blast
    qed
  qed
qed

lemma handleRequestVote_steps:
  assumes "handleRequestVote req c = (x, c')" "good c"
  shows "vres {} c (err_of x) c'"
    and "\<And>resp. x = Inr resp \<Longrightarrow> vrGranted resp \<Longrightarrow> \<not> rvPreVote req \<Longrightarrow> currentTerm c' = rvTerm req \<and> votedFor c' = rvCandidateId req"
proof -
  have "vres {} c (err_of x) c' \<and> (\<forall>resp. x = Inr resp \<longrightarrow> vrGranted resp \<longrightarrow> \<not> rvPreVote req \<longrightarrow>
      currentTerm c' = rvTerm req \<and> votedFor c' = rvCandidateId req)"
  proof (cases "rvPreVote req")
    case True
    then have "c' = c" "err_of x = None" using assms(1) by (auto simp: handleRequestVote_def)
    then show ?thesis using vres_step [OF vstep_same [OF assms(2) same_vote_refl]] True by simp
  next
    case False
    show ?thesis
    proof (cases rule: handleRequestVote_cases [OF assms(1) False])
      case (1 e)
      then show ?thesis using adopt_steps(2) [OF 1(1) assms(2)] by (simp add: vres_def)
    next
      case 2
      then show ?thesis using vres_step adopt_steps(1) [OF 2(1) assms(2)] by auto
    next
      case (3 c1 r2 c2)
      have v1: "vstep {} c c1" "rvTerm req \<le> currentTerm c1" using adopt_steps(1) [OF 3(1) assms(2)] by auto
      have t: "currentTerm c1 = rvTerm req" using v1(2) 3(2) by simp
      note cv = cast_vote [OF 3(5) v1(1) 3(3)]
      show ?thesis
      proof (cases r2)
        case (Some e)
        then show ?thesis using 3(6) cv(1) by simp
      next
        case None
        have x: "err_of x = None" "c' = resetElectionTimer c2" using 3(6) None by auto
        have sv: "same_vote c2 c'" "members c' = members c2" "currentTerm c' = currentTerm c2" "votedFor c' = votedFor c2"
          using x resetElectionTimer_frame [of c2] by (simp_all add: resetElectionTimer_def Let_def)
        have "vstep {} c c2" using cv(1) None by (simp add: vres_def)
        from vstep_then_same [OF this sv(1)] sv(2) have "vstep {} c c'" by simp
        then show ?thesis using vres_step [of "{}" c c'] x(1) cv(2,3) sv(3,4) t by simp
      qed
    qed
  qed
  then show "vres {} c (err_of x) c'"
    "\<And>resp. x = Inr resp \<Longrightarrow> vrGranted resp \<Longrightarrow> \<not> rvPreVote req \<Longrightarrow> currentTerm c' = rvTerm req \<and> votedFor c' = rvCandidateId req"
    by blast+
qed

lemma handleVoteResponse_vres:
  assumes "handleVoteResponse from t resp c = (r, c')" "good c"
  shows "vres (if vrGranted resp \<and> t = currentTerm c then {from} else {}) c r c'"
proof -
  consider (down) "currentTerm c < vrTerm resp" "stepDown (vrTerm resp) c = (r, c')"
    | (win) "role c = candidate" "t = currentTerm c" "vrGranted resp" "maybeWinElection (c\<lparr>votes := insert from (votes c)\<rparr>) = (r, c')"
    | (no) "r = None" "c' = c"
    using assms(1) by (auto simp: handleVoteResponse_def split: if_splits)
  then show ?thesis
  proof cases
    case down
    have "r = None \<Longrightarrow> vstep X c c'" for X
      using stepDown_steps(1) [OF down(2) assms(2) down(1)] by (auto simp: vstep_def)
    then show ?thesis using stepDown_steps(2) [OF down(2) assms(2) down(1)] vstep_edisk unfolding vres_def by blast
  next
    case win
    have "vstep {from} c (c\<lparr>votes := insert from (votes c)\<rparr>)" using assms(2) win(1) by (auto simp: vstep_def good_def)
    from vstep_win [OF this win(4)] show ?thesis using win(2,3) by (simp add: vres_step)
  next
    case no
    then show ?thesis using vres_step [OF vstep_same [OF assms(2) same_vote_refl]] by simp
  qed
qed

lemma handlePreVoteResponse_vres:
  assumes "handlePreVoteResponse from t resp c = (r, c')" "good c" "currentTerm c < - 1"
  shows "vres {} c r c'"
proof (cases "currentTerm c < vrTerm resp")
  case True
  then have "stepDown (vrTerm resp) c = (r, c')" using assms(1) by (simp add: handlePreVoteResponse_def)
  from stepDown_steps [OF this assms(2) True] show ?thesis using vstep_edisk unfolding vres_def by blast
next
  case False
  note d = assms(1) [unfolded handlePreVoteResponse_def if_not_P [OF False]]
  have same: "vres {} c None c" using vres_step [OF vstep_same [OF assms(2) same_vote_refl]] .
  show ?thesis
  proof (cases "preVotes c")
    case None
    then show ?thesis using d same by simp
  next
    case (Some v)
    let ?c = "c\<lparr>preVotes := Some (insert from v)\<rparr>"
    have s: "same_vote c ?c" by simp
    have w: "vres {} c r c'" if "maybeWinPreVote ?c = (r, c')"
      by (rule vres_same_then [OF s _ maybeWinPreVote_vres [OF that same_vote_good [OF s assms(2)]]]) (simp_all add: assms(3))
    show ?thesis
    proof (cases "role c \<noteq> follower \<or> t \<noteq> currentTerm c + 1 \<or> \<not> vrGranted resp")
      case True
      then have "(None, c) = (r, c')" using d Some by (auto split: if_splits)
      then show ?thesis using same by simp
    next
      case False
      then have "maybeWinPreVote ?c = (r, c')" using d Some by simp
      then show ?thesis by (rule w)
    qed
  qed
qed

lemma handleTimeoutNow_vres:
  assumes "handleTimeoutNow req c = (x, c')" "good c" "currentTerm c < - 1" "tnTerm req < - 1"
  shows "vres {} c (err_of x) c'"
proof -
  obtain r1 c1 where 1: "adopt (tnTerm req) c = (r1, c1)" by force
  note ad = adopt_steps [OF 1 assms(2)]
  show ?thesis
  proof (cases r1)
    case (Some e)
    then show ?thesis using assms(1) 1 ad(2) by (auto simp: handleTimeoutNow_def vres_def)
  next
    case None
    then have v1: "vstep {} c c1" and cs: "c1 = c \<or> role c1 = follower" using ad(1) by auto
    have g1: "good c1" using v1 by (auto simp: vstep_def)
    have hd: "currentTerm c1 < - 1"
      using 1 None assms(3,4) stepDown_steps(1) [of "tnTerm req" c r1 c1] assms(2) by (auto simp: adopt_def split: if_splits)
    show ?thesis
    proof (cases "tnTerm req < currentTerm c1")
      case True
      then show ?thesis using assms(1) 1 None vres_step [OF v1] by (auto simp: handleTimeoutNow_def)
    next
      case False
      obtain r2 c2 where 2: "startCampaign c1 = (r2, c2)" by force
      have x: "c' = c2" "err_of x = r2" using assms(1) 1 2 None False by (auto simp: handleTimeoutNow_def split: option.splits)
      have vr: "vres {} c1 r2 c2" by (rule startCampaign_vres [OF 2 g1 hd])
      show ?thesis
      proof (cases "c1 = c")
        case False
        then have f: "role c1 = follower" using cs by simp
        have "vstep {} c c2" if "vstep {} c1 c2"
          by (rule vstep_follower_trans [OF v1 that f]) (use ad(1) None in simp)
        then show ?thesis using vr edisk_trans [OF v1] x by (simp add: vres_def)
      qed (use vr x in simp)
    qed
  qed
qed

subsection \<open>Replication and snapshots\<close>

lemma handleAppendEntries_tail:
  assumes "adopt (aeTerm req) c = (None, c1)" "\<not> aeTerm req < currentTerm c1"
  shows "same_vote (recognize (aeLeaderId req) c1) (snd (handleAppendEntries req c))"
proof -
  let ?c2 = "recognize (aeLeaderId req) c1"
  obtain r3 c3 where 3: "(if new_suffix ?c2 (aeEntries req) = [] then (None, ?c2)
      else truncateAndAppend (map entryFromProto (new_suffix ?c2 (aeEntries req))) ?c2) = (r3, c3)" by (metis prod.collapse)
  have s3: "same_vote ?c2 c3"
    using truncateAndAppend_frame [of ?c2 "map entryFromProto (new_suffix ?c2 (aeEntries req))"] 3 same_vote_refl [of ?c2]
    by (cases "new_suffix ?c2 (aeEntries req) = []") auto
  let ?n = "aePrevLogIndex req + word_of_nat (length (aeEntries req))"
  obtain r4 c4 where 4: "(if commitIndex c3 < aeLeaderCommit req
      then deliverCommitted (c3\<lparr>commitIndex := min (aeLeaderCommit req) ?n\<rparr>) else (None, c3)) = (r4, c4)" by (metis prod.collapse)
  have "same_vote c3 c4"
  proof (cases "commitIndex c3 < aeLeaderCommit req")
    case True
    have "same_vote c3 (c3\<lparr>commitIndex := min (aeLeaderCommit req) ?n\<rparr>)" by simp
    from same_vote_trans [OF this deliverCommitted_frame] show ?thesis using 4 True by simp
  qed (use 4 in simp)
  then have s4: "same_vote ?c2 c4" by (rule same_vote_trans [OF s3])
  show ?thesis
    unfolding handleAppendEntries_def Let_def assms(1) prod.case option.case if_not_P [OF assms(2)] 3 4
    using s3 s4 by (cases r3; cases r4) simp_all
qed

lemma handleAppendEntries_vres:
  assumes "handleAppendEntries req c = (x, c')" "good c"
  shows "vres {} c (err_of x) c'"
proof -
  obtain r1 c1 where 1: "adopt (aeTerm req) c = (r1, c1)" by force
  note ad = adopt_steps [OF 1 assms(2)]
  show ?thesis
  proof (cases r1)
    case (Some e)
    then have "x = Inl e" "c' = c1" using assms(1) 1 by (simp_all add: handleAppendEntries_def)
    then show ?thesis using ad(2) Some by (simp add: vres_def)
  next
    case None
    then have v1: "vstep {} c c1" using ad(1) by simp
    show ?thesis
    proof (cases "aeTerm req < currentTerm c1")
      case True
      then have "c' = c1" using assms(1) 1 None by (simp add: handleAppendEntries_def Let_def)
      then show ?thesis using vres_step [OF v1] by simp
    next
      case False
      have "same_vote (recognize (aeLeaderId req) c1) c'"
        using handleAppendEntries_tail [OF 1 [unfolded None] False] assms(1) by simp
      from vstep_then_same [OF recognize_vstep(1) [OF v1] this] recognize_vstep(2) [OF v1] show ?thesis by (simp add: vres_step)
    qed
  qed
qed

lemma handleInstallSnapshot_tail:
  assumes "adopt (isTerm req) c = (None, c1)" "\<not> isTerm req < currentTerm c1"
  shows "same_vote (recognize (isLeaderId req) c1) (snd (handleInstallSnapshot req c))"
proof -
  let ?c2 = "recognize (isLeaderId req) c1" and ?idx = "isLastIncludedIndex req" and ?t = "isLastIncludedTerm req"
  let ?sn = "\<lambda>conf. \<lparr>sIndex = ?idx, sTerm = ?t, sConfig = Some conf, sData = isData req\<rparr>"
  have disk: "same_vote ?c2 (?c2\<lparr>disk := s\<rparr>)" if "persistRaftSnapshot (dirOf ?c2) sn (disk ?c2) = (r, s)" for sn r s
    using persistRaftSnapshot_state [of "dirOf ?c2" sn "disk ?c2"] that by (simp add: same_vote_def)
  show ?thesis
  proof (cases "?idx \<le> snapIndex ?c2 \<or> ?idx \<le> commitIndex ?c2")
    case True
    then show ?thesis unfolding handleInstallSnapshot_def Let_def assms(1) prod.case option.case if_not_P [OF assms(2)] if_P [OF True] by simp
  next
    case False
    note u = handleInstallSnapshot_def [unfolded Let_def] assms(1) prod.case option.case if_not_P [OF assms(2)] if_not_P [OF False]
    show ?thesis
    proof (cases "decodeMembers (isConfig req)")
      case (Inl e)
      then show ?thesis unfolding u by simp
    next
      case (Inr conf)
      obtain r s where p: "persistRaftSnapshot (dirOf ?c2) (?sn conf) (disk ?c2) = (r, s)" by force
      let ?c3 = "?c2\<lparr>disk := s\<rparr>"
      have s3: "same_vote ?c2 ?c3" by (rule disk [OF p])
      show ?thesis
      proof (cases r)
        case (Some e)
        then show ?thesis unfolding u Inr sum.case p using s3 by simp
      next
        case None
        let ?keeps = "?idx \<le> lastLogIndex ?c3 \<and> termAt ?c3 ?idx = ?t"
        let ?k = "unat (?idx - eIndex (hd (entries ?c3)) + 1)"
        let ?keep = "if ?keeps then drop ?k (entries ?c3) else []"
        obtain r4 c4 where 4: "storeRewrite ?keep ?c3 = (r4, c4)" by force
        have s4: "same_vote ?c2 c4" using same_vote_trans [OF s3 storeRewrite_frame] 4 by (metis snd_conv)
        let ?c5 = "c4\<lparr>entries := ?keep, snapIndex := ?idx, snapTerm := ?t, snapConfig := conf,
                       commitIndex := max (commitIndex c4) ?idx, lastDelivered := max (lastDelivered c4) ?idx\<rparr>"
        have s5: "same_vote ?c2 ?c5" using s4 by simp
        have s6: "same_vote ?c2 ((recalcConfig ?c5)\<lparr>pendingRestore := isData req\<rparr>)"
          using same_vote_trans [OF s5 recalcConfig_frame] by simp
        let ?pan = "?keeps \<and> (entries ?c3 = [] \<or> length (entries ?c3) < ?k)"
        show ?thesis
        proof (cases ?pan)
          case True
          show ?thesis unfolding u Inr sum.case p None option.case prod.case if_P [OF True] snd_conv by (rule s3)
        next
          case False
          show ?thesis
          proof (cases r4)
            case (Some e)
            show ?thesis
              unfolding u Inr sum.case p None option.case prod.case if_not_P [OF False] 4 Some snd_conv by (rule s4)
          next
            case N4: None
            show ?thesis
              unfolding u Inr sum.case p None option.case prod.case if_not_P [OF False] 4 N4 snd_conv by (rule s6)
          qed
        qed
      qed
    qed
  qed
qed

lemma handleInstallSnapshot_vres:
  assumes "handleInstallSnapshot req c = (x, c')" "good c"
  shows "vres {} c (err_of x) c'"
proof -
  obtain r1 c1 where 1: "adopt (isTerm req) c = (r1, c1)" by force
  note ad = adopt_steps [OF 1 assms(2)]
  show ?thesis
  proof (cases r1)
    case (Some e)
    then have "x = Inl e" "c' = c1" using assms(1) 1 by (simp_all add: handleInstallSnapshot_def)
    then show ?thesis using ad(2) Some by (simp add: vres_def)
  next
    case None
    then have v1: "vstep {} c c1" using ad(1) by simp
    show ?thesis
    proof (cases "isTerm req < currentTerm c1")
      case True
      then have "c' = c1" using assms(1) 1 None by (simp add: handleInstallSnapshot_def Let_def)
      then show ?thesis using vres_step [OF v1] by simp
    next
      case False
      have "same_vote (recognize (isLeaderId req) c1) c'"
        using handleInstallSnapshot_tail [OF 1 [unfolded None] False] assms(1) by simp
      from vstep_then_same [OF recognize_vstep(1) [OF v1] this] recognize_vstep(2) [OF v1] show ?thesis by (simp add: vres_step)
    qed
  qed
qed

lemma stepDown_vres: "stepDown t c = (r, c') \<Longrightarrow> good c \<Longrightarrow> currentTerm c < t \<Longrightarrow> vres {} c r c'"
  using stepDown_steps [of t c r c'] vstep_edisk unfolding vres_def by blast

lemma handleAppendResponse_frame:
  assumes "\<not> currentTerm c < arTerm resp"
  shows "same_vote c (snd (handleAppendResponse from req resp c))"
proof (cases "role c \<noteq> leader \<or> aeTerm req \<noteq> currentTerm c")
  case True
  then show ?thesis using assms by (simp add: handleAppendResponse_def)
next
  case False
  note u = handleAppendResponse_def [unfolded Let_def] if_not_P [OF assms] if_not_P [OF False]
  have sa: "same_vote c0 (snd (sendAppend p c1))" if "same_vote c0 c1" for p c0 c1
    using that sendAppend_frame same_vote_trans by blast
  have ma: "same_vote c0 (snd (maybeAdvanceCommit c1))" if "same_vote c0 c1" for c0 c1
    using that maybeAdvanceCommit_frame same_vote_trans by blast
  have st: "same_vote c0 (sendTimeoutNow p c1)" if "same_vote c0 c1" for p c0 c1
    using that sendTimeoutNow_frame same_vote_trans by blast
  show ?thesis
  proof (cases "arSuccess resp")
    case True
    have n: "same_vote c (noteFreshAck from (arSeq resp) c)" by (rule noteFreshAck_frame)
    show ?thesis unfolding u if_P [OF True]
      by (rule and_then_frame) (auto intro!: ma sa st simp: n)
  next
    case False
    show ?thesis unfolding u if_not_P [OF False] by (rule sa) simp
  qed
qed

lemma handleAppendResponse_vres:
  assumes "handleAppendResponse from req resp c = (r, c')" "good c"
  shows "vres {} c r c'"
proof (cases "currentTerm c < arTerm resp")
  case True
  then show ?thesis using assms stepDown_vres by (simp add: handleAppendResponse_def)
next
  case False
  from vres_frame [OF assms(2) handleAppendResponse_frame [OF False] assms(1)] show ?thesis .
qed

lemma handleInstallSnapshotResponse_vres:
  assumes "handleInstallSnapshotResponse from req resp c = (r, c')" "good c"
  shows "vres {} c r c'"
proof (cases "currentTerm c < irTerm resp")
  case True
  then show ?thesis using assms stepDown_vres by (simp add: handleInstallSnapshotResponse_def)
next
  case False
  have sa: "same_vote c (snd (sendAppend from c1))" if "same_vote c c1" for c1
    using that sendAppend_frame same_vote_trans by blast
  have "same_vote c (snd (handleInstallSnapshotResponse from req resp c))"
    unfolding handleInstallSnapshotResponse_def Let_def if_not_P [OF False] by (auto intro!: sa)
  from vres_frame [OF assms(2) this assms(1)] show ?thesis .
qed

lemma propose_frame: "same_vote c (snd (propose command typ c))"
proof (cases "role c \<noteq> leader \<or> transferTarget c \<noteq> 0")
  case True
  then show ?thesis by (auto simp: propose_def)
next
  case False
  let ?e = "\<lparr>eTerm = currentTerm c, eIndex = lastLogIndex c + 1, eType = typ, eCommand = command\<rparr>"
  obtain r1 c1 where 1: "storeAppend [?e] c = (r1, c1)" by force
  have s1: "same_vote c c1" using storeAppend_frame [of c "[?e]"] 1 by simp
  let ?c2 = "c1\<lparr>entries := entries c1 @ [?e]\<rparr>"
  obtain r3 c3 where 3: "and_then (broadcastAppends ?c2) maybeAdvanceCommit = (r3, c3)" by force
  have "same_vote c ?c2" using s1 by simp
  from same_vote_trans [OF this announce_frame] 3 have s3: "same_vote c c3" by simp
  show ?thesis using False 1 3 s1 s3 by (cases r1; cases r3) (simp_all add: propose_def Let_def)
qed

lemma proposeConfChange_frame: "same_vote c (snd (proposeConfChange cc c))"
proof -
  obtain x c1 where 1: "propose (encodeConfChange cc) ENTRY_TYPE_CONFIG c = (x, c1)" by force
  have s1: "same_vote c c1" using propose_frame [of c "encodeConfChange cc" ENTRY_TYPE_CONFIG] 1 by simp
  have s2: "same_vote c (applyConfChange cc i c1)" for i by (rule same_vote_trans [OF s1 applyConfChange_frame])
  show ?thesis using 1 s1 s2 by (simp add: proposeConfChange_def split: sum.splits prod.splits)
qed

lemma requestRead_frame: "same_vote c (snd (requestRead c))"
proof -
  let ?r = "\<lparr>prId = readCounter c + 1, prIndex = commitIndex c, prMinSeq = appendSeq c + 1, prAcks = {ID (cfg c)}\<rparr>"
  let ?c = "c\<lparr>readCounter := readCounter c + 1, pendingReads := pendingReads c @ [?r]\<rparr>"
  obtain a c1 where 1: "confirmReads ?c = (a, c1)" by force
  have "same_vote c ?c" by simp
  from same_vote_trans [OF this confirmReads_frame] 1 have s1: "same_vote c c1" by simp
  from same_vote_trans [OF this broadcastAppends_frame] have s2: "same_vote c (snd (broadcastAppends c1))" .
  show ?thesis using 1 s1 s2 by (auto simp: requestRead_def Let_def split: prod.splits option.splits)
qed

lemma transferLeadership_frame: "same_vote c (snd (transferLeadership to c))"
proof -
  let ?c = "c\<lparr>transferTarget := to, transferTicks := ElectionTicksMax (cfg c)\<rparr>"
  have s: "same_vote c ?c" by simp
  note a = same_vote_trans [OF s sendTimeoutNow_frame] and b = same_vote_trans [OF s sendAppend_frame]
  show ?thesis using a b by (simp add: transferLeadership_def Let_def)
qed

subsection \<open>A step of the event loop\<close>

text \<open>What the loop does behind the core's call: applying, compacting, sending.\<close>

definition new_voter :: "event \<Rightarrow> core \<Rightarrow> u64 set" where
  "new_voter ev c = (case ev of evVoteResp from t pre resp \<Rightarrow>
     if \<not> pre \<and> vrGranted resp \<and> t = currentTerm c then {from} else {} | _ \<Rightarrow> {})"

definition headroom :: "event \<Rightarrow> core \<Rightarrow> bool" where
  "headroom ev c \<longleftrightarrow> currentTerm c < - 1 \<and> (case ev of evTimeoutNow req _ \<Rightarrow> tnTerm req < - 1 | _ \<Rightarrow> True)"

lemma on_propose_core: "on_propose d ch x n = (r, n') \<Longrightarrow> nCore n' = snd x"
  by (auto simp: on_propose_def reply_to_def split: sum.splits prod.splits)

lemma dispatch_vres:
  assumes "dispatch ev n = (r, n')" "good (nCore n)" "headroom ev (nCore n)"
  shows "edisk (nCore n) (nCore n')" "r = None \<Longrightarrow> vstep (new_voter ev (nCore n)) (nCore n) (nCore n')"
proof -
  let ?c = "nCore n"
  have h: "currentTerm ?c < - 1" using assms(3) by (simp add: headroom_def)
  have fr: "vres X ?c r' c'" if "same_vote ?c (snd x)" "x = (y, c')" for X r' x y c'
    using vres_step [OF vstep_same [OF assms(2)]] that by simp
  have "vres (new_voter ev ?c) ?c r (nCore n')"
  proof (cases ev)
    case evTick
    obtain y c' where y: "tick ?c = (y, c')" by force
    show ?thesis using assms(1) tick_vres [OF y assms(2) h] evTick y by (auto simp: dispatch_def on_core_def new_voter_def)
  next
    case (evRequestVote req ch)
    obtain x c' where x: "handleRequestVote req ?c = (x, c')" by force
    show ?thesis using assms(1) handleRequestVote_steps(1) [OF x assms(2)] evRequestVote x
      by (auto simp: dispatch_def on_reply_def reply_to_def new_voter_def)
  next
    case (evAppendEntries req ch)
    obtain x c' where x: "handleAppendEntries req ?c = (x, c')" by force
    show ?thesis using assms(1) handleAppendEntries_vres [OF x assms(2)] evAppendEntries x
      by (auto simp: dispatch_def on_reply_def reply_to_def new_voter_def)
  next
    case (evInstallSnapshot req ch)
    obtain x c' where x: "handleInstallSnapshot req ?c = (x, c')" by force
    show ?thesis using assms(1) handleInstallSnapshot_vres [OF x assms(2)] evInstallSnapshot x
      by (auto simp: dispatch_def on_reply_def reply_to_def new_voter_def)
  next
    case (evTimeoutNow req ch)
    obtain x c' where x: "handleTimeoutNow req ?c = (x, c')" by force
    have "tnTerm req < - 1" using assms(3) evTimeoutNow by (simp add: headroom_def)
    then show ?thesis using assms(1) handleTimeoutNow_vres [OF x assms(2) h] evTimeoutNow x
      by (auto simp: dispatch_def on_reply_def reply_to_def new_voter_def)
  next
    case (evVoteResp frm t pre resp)
    show ?thesis
    proof (cases pre)
      case True
      obtain y c' where y: "handlePreVoteResponse frm t resp ?c = (y, c')" by force
      show ?thesis using assms(1) handlePreVoteResponse_vres [OF y assms(2) h] evVoteResp True y
        by (auto simp: dispatch_def on_core_def new_voter_def)
    next
      case False
      obtain y c' where y: "handleVoteResponse frm t resp ?c = (y, c')" by force
      show ?thesis using assms(1) handleVoteResponse_vres [OF y assms(2)] evVoteResp False y
        by (auto simp: dispatch_def on_core_def new_voter_def)
    qed
  next
    case (evAppendResp frm req resp)
    obtain y c' where y: "handleAppendResponse frm req resp ?c = (y, c')" by force
    show ?thesis using assms(1) handleAppendResponse_vres [OF y assms(2)] evAppendResp y
      by (auto simp: dispatch_def on_core_def new_voter_def)
  next
    case (evSnapshotResp frm req resp)
    obtain y c' where y: "handleInstallSnapshotResponse frm req resp ?c = (y, c')" by force
    show ?thesis using assms(1) handleInstallSnapshotResponse_vres [OF y assms(2)] evSnapshotResp y
      by (auto simp: dispatch_def on_core_def new_voter_def)
  next
    case (evPropose command ty don ch)
    obtain x c' where x: "propose command ty ?c = (x, c')" by force
    have "nCore n' = c'" using on_propose_core assms(1) evPropose x by (fastforce simp: dispatch_def)
    then show ?thesis using fr [OF propose_frame x] by simp
  next
    case (evConfChange cc don ch)
    obtain x c' where x: "proposeConfChange cc ?c = (x, c')" by force
    have "nCore n' = c'" using on_propose_core assms(1) evConfChange x by (fastforce simp: dispatch_def)
    then show ?thesis using fr [OF proposeConfChange_frame x] by simp
  next
    case (evTransfer to ch)
    obtain x c' where x: "transferLeadership to ?c = (x, c')" by force
    show ?thesis using assms(1) fr [OF transferLeadership_frame x] evTransfer x
      by (auto simp: dispatch_def reply_to_def new_voter_def)
  next
    case (evRead ch)
    obtain x c' where x: "requestRead ?c = (x, c')" by force
    show ?thesis using assms(1) fr [OF requestRead_frame x] evRead x
      by (auto simp: dispatch_def reply_to_def new_voter_def split: sum.splits)
  qed
  then show "edisk ?c (nCore n')" "r = None \<Longrightarrow> vstep (new_voter ev ?c) ?c (nCore n')" by (auto simp: vres_def)
qed

lemma fireAppliedWaiters_core [simp]: "nCore (fireAppliedWaiters n) = nCore n" "nSent (fireAppliedWaiters n) = nSent n"
    "nStopped (fireAppliedWaiters n) = nStopped n" "\<exists>l. nReplies (fireAppliedWaiters n) = nReplies n @ l"
  by (simp_all add: fireAppliedWaiters_def Let_def)

lemma applyEntry_core [simp]: "nCore (applyEntry M e n) = nCore n" "nSent (applyEntry M e n) = nSent n" "nStopped (applyEntry M e n) = nStopped n"
  by (simp_all add: applyEntry_def reply_to_def Let_def split: option.splits)

lemma fold_applyEntry_core [simp]: "nCore (fold (applyEntry M) es n) = nCore n" "nSent (fold (applyEntry M) es n) = nSent n"
    "nStopped (fold (applyEntry M) es n) = nStopped n"
  by (induction es arbitrary: n) simp_all

lemma resolveRead_core [simp]: "nCore (resolveRead r n) = nCore n" "nSent (resolveRead r n) = nSent n" "nStopped (resolveRead r n) = nStopped n"
  by (simp_all add: resolveRead_def reply_to_def Let_def split: option.splits)

lemma fold_resolveRead_core [simp]: "nCore (fold resolveRead rs n) = nCore n" "nSent (fold resolveRead rs n) = nSent n"
    "nStopped (fold resolveRead rs n) = nStopped n"
  by (induction rs arbitrary: n) simp_all

lemma sync_core [simp]: "nCore (syncTransportConfig n) = nCore n" "nSent (syncTransportConfig n) = nSent n" "nStopped (syncTransportConfig n) = nStopped n"
    "nCore (publishStatus n) = nCore n" "nSent (publishStatus n) = nSent n" "nStopped (publishStatus n) = nStopped n"
  by (simp_all add: syncTransportConfig_def publishStatus_def split: option.splits)

lemma fold_sendAsync_core [simp]: "nCore (fold sendAsync os n) = nCore n" "nStopped (fold sendAsync os n) = nStopped n"
    "nSent (fold sendAsync os n) = nSent n @ map (\<lambda>ob. ob\<lparr>oMsg := with_group (nGroup n) (oMsg ob)\<rparr>) os"
proof -
  have "nCore (fold sendAsync os n) = nCore n \<and> nStopped (fold sendAsync os n) = nStopped n \<and>
    nSent (fold sendAsync os n) = nSent n @ map (\<lambda>ob. ob\<lparr>oMsg := with_group (nGroup n) (oMsg ob)\<rparr>) os"
    by (induction os arbitrary: n) (simp_all add: sendAsync_def)
  then show "nCore (fold sendAsync os n) = nCore n" "nStopped (fold sendAsync os n) = nStopped n"
    "nSent (fold sendAsync os n) = nSent n @ map (\<lambda>ob. ob\<lparr>oMsg := with_group (nGroup n) (oMsg ob)\<rparr>) os" by blast+
qed

lemma own_candidacy_group [simp]: "own_candidacy i (ob\<lparr>oMsg := with_group g (oMsg ob)\<rparr>) = own_candidacy i ob"
  by (simp add: own_candidacy_def with_group_def split: message.splits)

lemma compact_members: "members (snd (compact i d c)) = members c"
  by (auto simp: compact_def Let_def storeRewrite_def split: option.splits prod.splits)

lemma compact_outbox: "outbox (snd (compact i d c)) = outbox c"
  by (auto simp: compact_def Let_def storeRewrite_def split: option.splits prod.splits)

lemma maybeCompact_frame:
  "same_vote (nCore n) (nCore (maybeCompact M n))" "members (nCore (maybeCompact M n)) = members (nCore n)"
  "outbox (nCore (maybeCompact M n)) = outbox (nCore n)" "nSent (maybeCompact M n) = nSent n"
  using compact_frame [of "nCore n" "nApplied n"] compact_members [of "nApplied n" _ "nCore n"] compact_outbox [of "nApplied n" _ "nCore n"]
  by (auto simp: maybeCompact_def split: sum.splits prod.splits) (metis snd_conv)+

text \<open>The core after the loop's bookkeeping: same election state, and what was sent or is left
  to send asks for votes only in the node's own name.\<close>

definition settled :: "'sm Node \<Rightarrow> 'sm Node \<Rightarrow> bool" where
  "settled n n' \<longleftrightarrow> same_vote (nCore n) (nCore n') \<and> members (nCore n') = members (nCore n)
     \<and> (\<forall>ob \<in> set (nSent n'). ob \<in> set (nSent n) \<or> own_candidacy (ID (cfg (nCore n))) ob)
     \<and> (\<forall>ob \<in> set (outbox (nCore n')). own_candidacy (ID (cfg (nCore n))) ob)"

lemma afterStep_tail:
  fixes n2 :: "'sm Node" and M :: "'sm StateMachine"
  defines "n3 \<equiv> fold (applyEntry M) (committed (nCore n2)) (n2\<lparr>nCore := (nCore n2)\<lparr>committed := []\<rparr>\<rparr>)"
  defines "n4 \<equiv> fold resolveRead (readOutcomes (nCore n3)) (n3\<lparr>nCore := (nCore n3)\<lparr>readOutcomes := []\<rparr>\<rparr>)"
  defines "n6 \<equiv> syncTransportConfig (maybeCompact M n4)"
  assumes "\<forall>ob \<in> set (outbox (nCore n2)). own_candidacy (ID (cfg (nCore n2))) ob" "nSent n2 = S"
  shows "same_vote (nCore n2) (nCore (maybeCompact M n4))" "members (nCore (maybeCompact M n4)) = members (nCore n2)"
    "nSent (maybeCompact M n4) = S"
    "same_vote (nCore n2) (nCore (publishStatus (fold sendAsync (outbox (nCore n6)) (n6\<lparr>nCore := (nCore n6)\<lparr>outbox := []\<rparr>\<rparr>))))"
    "members (nCore (publishStatus (fold sendAsync (outbox (nCore n6)) (n6\<lparr>nCore := (nCore n6)\<lparr>outbox := []\<rparr>\<rparr>)))) = members (nCore n2)"
    "\<forall>ob \<in> set (nSent (publishStatus (fold sendAsync (outbox (nCore n6)) (n6\<lparr>nCore := (nCore n6)\<lparr>outbox := []\<rparr>\<rparr>)))).
       ob \<in> set S \<or> own_candidacy (ID (cfg (nCore n2))) ob"
proof -
  have c4: "nCore n4 = (nCore n2)\<lparr>committed := [], readOutcomes := []\<rparr>" by (simp add: n4_def n3_def)
  have s4: "nSent n4 = S" by (simp add: n4_def n3_def assms(5))
  have sv: "same_vote (nCore n2) (nCore n4)" unfolding c4 by simp
  note mc = maybeCompact_frame [where n = n4 and M = M]
  show sm: "same_vote (nCore n2) (nCore (maybeCompact M n4))" by (rule same_vote_trans [OF sv mc(1)])
  show m: "members (nCore (maybeCompact M n4)) = members (nCore n2)" by (simp add: mc(2) c4)
  show "nSent (maybeCompact M n4) = S" by (simp add: mc(4) s4)
  have o: "outbox (nCore n6) = outbox (nCore n2)" by (simp add: n6_def mc(3) c4)
  have sx: "same_vote (nCore n2) ((nCore n6)\<lparr>outbox := []\<rparr>)" using sm by (simp add: n6_def same_vote_def)
  then show "same_vote (nCore n2) (nCore (publishStatus (fold sendAsync (outbox (nCore n6)) (n6\<lparr>nCore := (nCore n6)\<lparr>outbox := []\<rparr>\<rparr>))))" by simp
  show "members (nCore (publishStatus (fold sendAsync (outbox (nCore n6)) (n6\<lparr>nCore := (nCore n6)\<lparr>outbox := []\<rparr>\<rparr>)))) = members (nCore n2)"
    using m by (simp add: n6_def)
  show "\<forall>ob \<in> set (nSent (publishStatus (fold sendAsync (outbox (nCore n6)) (n6\<lparr>nCore := (nCore n6)\<lparr>outbox := []\<rparr>\<rparr>)))).
       ob \<in> set S \<or> own_candidacy (ID (cfg (nCore n2))) ob"
    using assms(4) o by (auto simp: n6_def mc(4) s4)
qed

lemma afterStep_settled:
  assumes "\<forall>ob \<in> set (outbox (nCore n)). own_candidacy (ID (cfg (nCore n))) ob"
  shows "settled n (afterStep M n)"
proof -
  let ?c1 = "(nCore n)\<lparr>pendingRestore := []\<rparr>"
  let ?n1 = "n\<lparr>nCore := ?c1\<rparr>"
  define R where "R = (if pendingRestore (nCore n) = [] then Inr ?n1
     else case smRestore M (pendingRestore (nCore n)) (nSM ?n1) of
            Inl _ \<Rightarrow> Inl (?n1\<lparr>nStopc := True\<rparr>)
          | Inr m \<Rightarrow> Inr (fireAppliedWaiters (?n1\<lparr>nSM := m, nApplied := snapIndex (nCore ?n1)\<rparr>)))"
  have s1: "same_vote (nCore n) ?c1" "members ?c1 = members (nCore n)" by simp_all
  show ?thesis
  proof (cases R)
    case (Inl n2)
    then have n2: "n2 = ?n1\<lparr>nStopc := True\<rparr>" by (simp add: R_def split: if_splits sum.splits)
    have "afterStep M n = n2" using Inl by (simp add: afterStep_def takeRestore_def Let_def R_def)
    then show ?thesis using s1 n2 assms by (simp add: settled_def)
  next
    case (Inr n2)
    then have n2: "nCore n2 = ?c1" "nSent n2 = nSent n" by (auto simp: R_def split: if_splits sum.splits)
    define n3 where "n3 = fold (applyEntry M) (committed (nCore n2)) (n2\<lparr>nCore := (nCore n2)\<lparr>committed := []\<rparr>\<rparr>)"
    define n4 where "n4 = fold resolveRead (readOutcomes (nCore n3)) (n3\<lparr>nCore := (nCore n3)\<lparr>readOutcomes := []\<rparr>\<rparr>)"
    define n6 where "n6 = syncTransportConfig (maybeCompact M n4)"
    have as: "afterStep M n = (if nStopped (maybeCompact M n4) then maybeCompact M n4
       else publishStatus (fold sendAsync (outbox (nCore n6)) (n6\<lparr>nCore := (nCore n6)\<lparr>outbox := []\<rparr>\<rparr>)))"
      using Inr by (simp add: afterStep_def takeRestore_def takeCommitted_def takeReadOutcomes_def takeOutbox_def Let_def R_def n3_def n4_def n6_def)
    have ob: "\<forall>ob \<in> set (outbox (nCore n2)). own_candidacy (ID (cfg (nCore n2))) ob" using assms n2 by simp
    note t = afterStep_tail [OF ob n2(2), of M, folded n3_def, folded n4_def, folded n6_def]
    have oc: "\<forall>ob \<in> set (outbox (nCore (maybeCompact M n4))). own_candidacy (ID (cfg (nCore n))) ob"
      using t(1) ob n2(1) by (auto simp: same_vote_def)
    show ?thesis
      unfolding settled_def as
      using t same_vote_trans [OF s1(1)] n2 oc by (simp split: if_split)
  qed
qed

end
