(* ===== verification/GoStrings.thy ===== *)
theory GoStrings
  imports Names
begin

text \<open>
  The string functions of Go's \<open>strings\<close> and \<open>strconv\<close> packages that the service layer, the
  shard pin and the clients use, on ASCII strings: \<open>Fields\<close> and \<open>TrimSpace\<close> know the six ASCII
  white space characters. With their round trips.
\<close>

definition is_space :: "char \<Rightarrow> bool" where
  "is_space c \<longleftrightarrow> of_char c \<in> {9, 10, 11, 12, 13, 32 :: nat}"

definition TrimSpace :: "string \<Rightarrow> string" where
  "TrimSpace s = rev (dropWhile is_space (rev (dropWhile is_space s)))"

function Fields :: "string \<Rightarrow> string list" where
  "Fields s = (let t = dropWhile is_space s
               in if t = [] then [] else takeWhile (\<lambda>c. \<not> is_space c) t # Fields (dropWhile (\<lambda>c. \<not> is_space c) t))"
  by auto
termination
proof (relation "measure length")
  fix s t assume t: "t = dropWhile is_space s" "t \<noteq> []"
  then have "\<not> is_space (hd t)" by (metis hd_dropWhile)
  then have "length (dropWhile (\<lambda>c. \<not> is_space c) t) < length t"
    using t(2) by (cases t) (auto intro: le_less_trans [OF length_dropWhile_le])
  also have "\<dots> \<le> length s" using t(1) length_dropWhile_le by metis
  finally show "(dropWhile (\<lambda>c. \<not> is_space c) t, s) \<in> measure length" by simp
qed simp

declare Fields.simps [simp del]

definition HasPrefix :: "string \<Rightarrow> string \<Rightarrow> bool" where
  "HasPrefix s p \<longleftrightarrow> take (length p) s = p"

definition TrimPrefix :: "string \<Rightarrow> string \<Rightarrow> string" where
  "TrimPrefix s p = (if HasPrefix s p then drop (length p) s else s)"

fun Split :: "string \<Rightarrow> char \<Rightarrow> string list" where
  "Split [] d = [[]]"
| "Split (c # s) d = (if c = d then [] # Split s d else (case Split s d of [] \<Rightarrow> [[c]] | w # ws \<Rightarrow> (c # w) # ws))"

text \<open>\<open>IndexByte\<close>: the position of the first occurrence.\<close>

fun IndexByte :: "string \<Rightarrow> char \<Rightarrow> nat option" where
  "IndexByte [] d = None"
| "IndexByte (c # s) d = (if c = d then Some 0 else map_option Suc (IndexByte s d))"

text \<open>\<open>strconv.Itoa\<close> on non-negative numbers, and the verb \<open>%d\<close>.\<close>

fun itoa :: "nat \<Rightarrow> string" where
  "itoa n = (if n < 10 then [digit_char n] else itoa (n div 10) @ [digit_char (n mod 10)])"

declare itoa.simps [simp del]

definition Atoi :: "string \<Rightarrow> int option" where
  "Atoi s =
     (let neg = HasPrefix s ''-''; body = (if neg \<or> HasPrefix s ''+'' then drop 1 s else s)
      in if body = [] then None
         else case parse_digits 0 body of
                None \<Rightarrow> None
              | Some n \<Rightarrow> let v = (if neg then - int n else int n)
                          in if - (2 ^ 63) \<le> v \<and> v < 2 ^ 63 then Some v else None)"

text \<open>A Go string of bytes as characters.\<close>

definition str :: "bytes \<Rightarrow> string" where
  "str b = map (\<lambda>w. char_of (unat w)) b"

definition asc :: "string \<Rightarrow> bytes" where
  "asc s = map (\<lambda>c. word_of_nat (of_char c)) s"

text \<open>The search loop over a list of names, and the name after a given one in cyclic order; a name
  that is not in the list is followed by the first.\<close>

fun position :: "string \<Rightarrow> string list \<Rightarrow> nat option" where
  "position x [] = None"
| "position x (y # ys) = (if y = x then Some 0 else map_option Suc (position x ys))"

definition cycle_next :: "string list \<Rightarrow> string \<Rightarrow> string" where
  "cycle_next xs x = (case position x xs of Some i \<Rightarrow> xs ! ((i + 1) mod length xs) | None \<Rightarrow> xs ! 0)"

subsection \<open>Numbers\<close>

lemma parse_digits_append: "parse_digits a (s @ t) = (case parse_digits a s of None \<Rightarrow> None | Some b \<Rightarrow> parse_digits b t)"
  by (induction s arbitrary: a) (auto split: option.splits)

lemma parse_itoa: "parse_digits 0 (itoa n) = Some n"
proof (induction n rule: itoa.induct)
  case (1 n)
  show ?case
  proof (cases "n < 10")
    case True then show ?thesis by (simp add: itoa.simps [of n] char_digit_digit_char)
  next
    case False
    then show ?thesis using 1 by (simp add: itoa.simps [of n] parse_digits_append char_digit_digit_char)
  qed
qed

lemma itoa_not_Nil [simp]: "itoa n \<noteq> []"
  by (simp add: itoa.simps [of n])

lemma itoa_chars: "c \<in> set (itoa n) \<Longrightarrow> 48 \<le> (of_char c :: nat) \<and> of_char c \<le> (57 :: nat)"
proof (induction n rule: itoa.induct)
  case (1 n)
  then show ?case by (cases "n < 10") (auto simp: itoa.simps [of n] digit_char_def)
qed

lemma itoa_no_space [simp]: "c \<in> set (itoa n) \<Longrightarrow> \<not> is_space c"
  using itoa_chars by (fastforce simp: is_space_def)

lemma itoa_inject [simp]: "itoa m = itoa n \<longleftrightarrow> m = n"
  by (metis option.inject parse_itoa)

lemma ParseUint_itoa: "n < 2 ^ 64 \<Longrightarrow> ParseUint (itoa n) = Some (word_of_nat n)"
  by (simp add: ParseUint_def parse_itoa)

lemma itoa_no_sign: "\<not> HasPrefix (itoa n) ''-''" "\<not> HasPrefix (itoa n) ''+''"
  using itoa_chars [of "hd (itoa n)" n] itoa_not_Nil [of n]
  by (auto simp: HasPrefix_def take_Suc neq_Nil_conv)

lemma Atoi_itoa: "n < 2 ^ 63 \<Longrightarrow> Atoi (itoa n) = Some (int n)"
  using itoa_no_sign [of n] by (simp add: Atoi_def parse_itoa Let_def)

lemma TrimSpace_id: "(\<And>c. c \<in> set s \<Longrightarrow> \<not> is_space c) \<Longrightarrow> TrimSpace s = s"
proof -
  assume a: "\<And>c. c \<in> set s \<Longrightarrow> \<not> is_space c"
  have d: "(\<And>c. c \<in> set t \<Longrightarrow> \<not> is_space c) \<Longrightarrow> dropWhile is_space t = t" for t by (cases t) auto
  show ?thesis using d [of s] d [of "rev s"] a by (simp add: TrimSpace_def)
qed

subsection \<open>Words of a line\<close>

lemma Fields_Nil [simp]: "Fields [] = []"
  by (simp add: Fields.simps)

lemma Fields_space: "is_space c \<Longrightarrow> Fields (c # s) = Fields s"
  by (subst Fields.simps, subst (2) Fields.simps) simp

lemma Fields_word:
  assumes "w \<noteq> []" "\<And>c. c \<in> set w \<Longrightarrow> \<not> is_space c"
  shows "Fields w = [w]" "is_space d \<Longrightarrow> Fields (w @ d # s) = w # Fields s"
proof -
  have d: "dropWhile is_space (w @ r) = w @ r" for r using assms by (cases w) auto
  have t: "takeWhile (\<lambda>c. \<not> is_space c) w = w" "dropWhile (\<lambda>c. \<not> is_space c) w = []" using assms(2) by auto
  show "Fields w = [w]" using d [of "[]"] assms(1) by (subst Fields.simps) (simp add: Let_def t)
  assume sp: "is_space d"
  have t2: "takeWhile (\<lambda>c. \<not> is_space c) (w @ d # s) = w" "dropWhile (\<lambda>c. \<not> is_space c) (w @ d # s) = d # s"
    using assms(2) sp by (auto simp: takeWhile_append dropWhile_append)
  show "Fields (w @ d # s) = w # Fields s"
    using d [of "d # s"] t2 assms(1) by (subst Fields.simps) (simp add: Let_def Fields_space [OF sp])
qed

lemma HasPrefix_append [simp]: "HasPrefix (p @ s) p" "TrimPrefix (p @ s) p = s"
  by (simp_all add: HasPrefix_def TrimPrefix_def)

subsection \<open>Comma-separated lists\<close>

lemma Split_not_Nil [simp]: "Split s d \<noteq> []"
  by (induction s) (auto split: list.splits)

lemma Split_word: "d \<notin> set w \<Longrightarrow> Split w d = [w]"
  by (induction w) auto

lemma Split_append: "d \<notin> set w \<Longrightarrow> Split (w @ d # s) d = w # Split s d"
  by (induction w) auto

lemma IndexByte_append: "d \<notin> set w \<Longrightarrow> IndexByte (w @ d # s) d = Some (length w)"
  by (induction w) auto

lemma str_asc [simp]: "str (asc s) = s"
proof (induction s)
  case (Cons c s)
  have "unat (word_of_nat (of_char c) :: byte) = of_char c"
    using of_char_mod_256 [of c, where 'a = nat] by (simp add: unat_of_nat)
  then show ?case using Cons by (simp add: str_def asc_def)
qed (simp add: str_def asc_def)

subsection \<open>Going round a list\<close>

lemma position_None: "position x xs = None \<longleftrightarrow> x \<notin> set xs"
  by (induction xs) auto

lemma position_Some: "position x xs = Some i \<Longrightarrow> i < length xs \<and> xs ! i = x"
  by (induction xs arbitrary: i) (auto split: if_splits)

lemma position_distinct: "distinct xs \<Longrightarrow> i < length xs \<Longrightarrow> position (xs ! i) xs = Some i"
proof (induction xs arbitrary: i)
  case (Cons x xs)
  then show ?case by (cases i) auto
qed simp

lemma cycle_next_in: "xs \<noteq> [] \<Longrightarrow> cycle_next xs x \<in> set xs"
  by (auto simp: cycle_next_def split: option.splits)

lemma cycle_next_nth: "distinct xs \<Longrightarrow> i < length xs \<Longrightarrow> cycle_next xs (xs ! i) = xs ! (Suc i mod length xs)"
  by (simp add: cycle_next_def position_distinct)

end
