(* ===== verification/KVApi.thy ===== *)
theory KVApi
  imports GoStrings
begin

text \<open>
  The client-facing interface \<^verbatim>\<open>proto/kv/v1/kv.proto\<close>: requests and responses, and the gRPC
  statuses that the services answer with. A status that embeds the text of an inner error
  carries that error.
\<close>

record PutRequest =
  putKey :: bytes
  putValue :: bytes
  putClientId :: u64
  putSerial :: u64

record GetRequest =
  getKey :: bytes

record GetResponse =
  gValue :: bytes
  gFound :: bool

record DeleteRequest =
  delKey :: bytes
  delClientId :: u64
  delSerial :: u64

record DeleteResponse =
  dExisted :: bool

datatype status =
    InvalidArgument string
  | Internal err
  | FailedPrecondition string
  | FromContextError err
  | Unavailable err
  | NotFound string

definition get_response :: "bytes option \<Rightarrow> GetResponse" where
  "get_response v = (case v of None \<Rightarrow> \<lparr>gValue = [], gFound = False\<rparr> | Some b \<Rightarrow> \<lparr>gValue = b, gFound = True\<rparr>)"

lemma get_response_exact: "get_response v = get_response w \<longleftrightarrow> v = w"
  by (auto simp: get_response_def split: option.splits)

end
