(* ===== verification/KVServer.thy ===== *)
theory KVServer
  imports KVApi Durability
begin

text \<open>
  \<^verbatim>\<open>internal/server/server.go\<close>: the service of a standalone node, over any \<open>Store\<close>. The store
  is a record of its three methods on an explicit state; the locale \<open>kv_store\<close> is the contract,
  which the durable engine meets.
\<close>

definition MaxKeyBytes :: nat where
  "MaxKeyBytes = 4 * 1024"

definition MaxValueBytes :: nat where
  "MaxValueBytes = 1 * 1024 * 1024"

record 's Store =
  stPut :: "bytes \<Rightarrow> bytes \<Rightarrow> 's \<Rightarrow> err option \<times> 's"
  stGet :: "'s \<Rightarrow> bytes \<Rightarrow> bytes option"
  stDelete :: "bytes \<Rightarrow> 's \<Rightarrow> (err + bool) \<times> 's"

definition validateKey :: "bytes \<Rightarrow> status option" where
  "validateKey key =
     (if key = [] then Some (InvalidArgument ''key must not be empty'')
      else if MaxKeyBytes < length key
      then Some (InvalidArgument (''key is '' @ itoa (length key) @ '' bytes, limit is '' @ itoa MaxKeyBytes))
      else None)"

definition kvs_Put :: "'s Store \<Rightarrow> PutRequest \<Rightarrow> 's \<Rightarrow> (status + unit) \<times> 's" where
  "kvs_Put S req s =
     (case validateKey (putKey req) of
        Some e \<Rightarrow> (Inl e, s)
      | None \<Rightarrow>
          if MaxValueBytes < length (putValue req)
          then (Inl (InvalidArgument (''value is '' @ itoa (length (putValue req)) @ '' bytes, limit is '' @ itoa MaxValueBytes)), s)
          else (case stPut S (putKey req) (putValue req) s of
                  (Some e, s') \<Rightarrow> (Inl (Internal e), s')
                | (None, s') \<Rightarrow> (Inr (), s')))"

definition kvs_Get :: "'s Store \<Rightarrow> GetRequest \<Rightarrow> 's \<Rightarrow> status + GetResponse" where
  "kvs_Get S req s =
     (case validateKey (getKey req) of Some e \<Rightarrow> Inl e | None \<Rightarrow> Inr (get_response (stGet S s (getKey req))))"

definition kvs_Delete :: "'s Store \<Rightarrow> DeleteRequest \<Rightarrow> 's \<Rightarrow> (status + DeleteResponse) \<times> 's" where
  "kvs_Delete S req s =
     (case validateKey (delKey req) of
        Some e \<Rightarrow> (Inl e, s)
      | None \<Rightarrow>
          (case stDelete S (delKey req) s of
             (Inl e, s') \<Rightarrow> (Inl (Internal e), s')
           | (Inr existed, s') \<Rightarrow> (Inr \<lparr>dExisted = existed\<rparr>, s')))"

text \<open>The storage engine as a \<open>Store\<close>.\<close>

definition durable :: "DurableStore Store" where
  "durable = \<lparr>stPut = ds_Put, stGet = ds_Get, stDelete = ds_Delete\<rparr>"

subsection \<open>The contract of a store\<close>

text \<open>A mutation either takes effect, or fails and leaves what reads see; \<open>ready\<close> is what the
  implementation needs of its state.\<close>

locale kv_store =
  fixes S :: "'s Store" and ready :: "'s \<Rightarrow> bool"
  assumes put: "ready s \<Longrightarrow> stPut S k v s = (r, s') \<Longrightarrow>
      ready s' \<and> stGet S s' = (if r = None then (stGet S s)(k \<mapsto> v) else stGet S s)"
    and delete: "ready s \<Longrightarrow> stDelete S k s = (d, s') \<Longrightarrow>
      ready s' \<and> (case d of Inl e \<Rightarrow> stGet S s' = stGet S s
                           | Inr x \<Rightarrow> x = (stGet S s k \<noteq> None) \<and> stGet S s' = (stGet S s)(k := None))"
begin

text \<open>What the service makes of it: a response tells exactly what happened.\<close>

lemma serve_put:
  assumes "ready s" "kvs_Put S req s = (r, s')"
  shows "ready s' \<and> stGet S s' = (if r = Inr () then (stGet S s)(putKey req \<mapsto> putValue req) else stGet S s)"
proof -
  obtain e t where p: "stPut S (putKey req) (putValue req) s = (e, t)" by force
  show ?thesis
    using assms(2) put [OF assms(1) p] assms(1) by (auto simp: kvs_Put_def p split: option.splits if_splits)
qed

lemma serve_delete:
  assumes "ready s" "kvs_Delete S req s = (r, s')"
  shows "ready s' \<and> (case r of Inl e \<Rightarrow> stGet S s' = stGet S s
    | Inr d \<Rightarrow> dExisted d = (stGet S s (delKey req) \<noteq> None) \<and> stGet S s' = (stGet S s)(delKey req := None))"
proof -
  obtain d t where p: "stDelete S (delKey req) s = (d, t)" by force
  show ?thesis
    using assms(2) delete [OF assms(1) p] assms(1) by (auto simp: kvs_Delete_def p split: option.splits sum.splits)
qed

text \<open>A value put and acknowledged is read back until the key is written or deleted again.\<close>

lemma serve_get:
  assumes "validateKey (getKey req) = None"
  shows "kvs_Get S req s = Inr (get_response (stGet S s (getKey req)))"
  using assms by (simp add: kvs_Get_def)

end

lemma snapshot_mem: "dmem (snd (snapshot st)) = dmem st"
  by (auto simp: snapshot_def split: prod.splits option.splits sum.splits)

lemma logAndApply_mem:
  "logAndApply c st = (r, st') \<Longrightarrow> dmem st' = (if r = None then snd (applyCommand (dmem st) c) else dmem st)"
  by (auto simp: logAndApply_def maybeSnapshot_def snapshot_mem split: prod.splits option.splits)

lemma applyCommand_mem:
  assumes "mem_wf m"
  shows "mem_wf (snd (applyCommand m c))" "mem_Get (snd (applyCommand m c)) = kv_apply c (mem_Get m)"
  using mem.apply_invar [OF assms, of c] mem.apply_refines [OF assms, of c]
  by (simp_all add: applyCommand_def split: Op.splits)

lemma logAndApply_reads:
  assumes "mem_wf (dmem st)" "logAndApply c st = (r, st')"
  shows "mem_wf (dmem st')" "ds_Get st' = (if r = None then kv_apply c (ds_Get st) else ds_Get st)"
  using logAndApply_mem [OF assms(2)] applyCommand_mem [OF assms(1), of c] assms(1) by (simp_all add: ds_Get_def [abs_def])

interpretation ds: kv_store durable "\<lambda>st. mem_wf (dmem st)"
proof unfold_locales
  fix st k v r st' assume wf: "mem_wf (dmem st)" and p: "stPut durable k v st = (r, st')"
  then have "logAndApply \<lparr>cOp = OpPut, cKey = k, cValue = v\<rparr> st = (r, st')" by (simp add: durable_def ds_Put_def)
  from logAndApply_reads [OF wf this]
  show "mem_wf (dmem st') \<and> stGet durable st' = (if r = None then (stGet durable st)(k \<mapsto> v) else stGet durable st)"
    by (simp add: durable_def kv_apply_def)
next
  fix st k d st' assume wf: "mem_wf (dmem st)" and p: "stDelete durable k st = (d, st')"
  obtain r t where l: "logAndApply \<lparr>cOp = OpDelete, cKey = k, cValue = []\<rparr> st = (r, t)" by force
  note lr = logAndApply_reads [OF wf l]
  have g: "stGet durable = ds_Get" by (simp add: durable_def)
  show "mem_wf (dmem st') \<and> (case d of Inl e \<Rightarrow> stGet durable st' = stGet durable st
      | Inr x \<Rightarrow> x = (stGet durable st k \<noteq> None) \<and> stGet durable st' = (stGet durable st)(k := None))"
  proof (cases "ds_Get st k")
    case None
    then have "d = Inr False" "st' = st" using p by (auto simp: durable_def ds_Delete_def ds_Get_def)
    then show ?thesis using wf None unfolding g by (simp add: fun_upd_idem)
  next
    case (Some v)
    then have "(d, st') = (case r of Some e \<Rightarrow> (Inl e, t) | None \<Rightarrow> (Inr True, t))"
      using p l by (auto simp: durable_def ds_Delete_def ds_Get_def split: option.splits)
    then show ?thesis using lr Some unfolding g by (cases r) (simp_all add: kv_apply_def)
  qed
qed

subsection \<open>The service on the durable engine\<close>



text \<open>The limits of the service are well within what the log can read back.\<close>

lemma validated_fits:
  assumes "validateKey k = None" "length v \<le> MaxValueBytes" "hist_ok h" "length h + 2 < 2 ^ 64"
  shows "hist_ok (h @ [\<lparr>cOp = op, cKey = k, cValue = v\<rparr>])"
  using assms
  by (simp add: hist_ok_def cmd_fits_def validateKey_def MaxKeyBytes_def MaxValueBytes_def MaxKeyBytesOnDisk_def MaxValueBytesOnDisk_def
      split: if_splits)

text \<open>C9. What the service acknowledges survives: a client's put runs while I/O operations fail in
  any way and the machine then crashes. The node restarts, and if the put was answered with
  success its value is read back, while all other keys read as before. If it was not, reads
  give the state before or after the put, nothing in between.\<close>

theorem acknowledged_put_survives:
  assumes "ds_open dir st h" "length h + 2 < 2 ^ 64"
    and "kvs_Put durable req (st\<lparr>dfs := dfs st\<lparr>faults := fl\<rparr>\<rparr>) = (r, st')"
  shows "\<exists>st''. Open dir thr (crash f (dfs st')) = (Inr st'', dfs st'') \<and>
    (if r = Inr () then ds_Get st'' = (ds_Get st)(putKey req \<mapsto> putValue req)
     else ds_Get st'' \<in> {ds_Get st, (ds_Get st)(putKey req \<mapsto> putValue req)})"
proof (cases "validateKey (putKey req) = None \<and> length (putValue req) \<le> MaxValueBytes")
  case True
  let ?c = "\<lparr>cOp = OpPut, cKey = putKey req, cValue = putValue req\<rparr>"
  obtain e where e: "logAndApply ?c (st\<lparr>dfs := dfs st\<lparr>faults := fl\<rparr>\<rparr>) = (e, st')" "r = Inr () \<longleftrightarrow> e = None"
    using True assms(3) by (auto simp: kvs_Put_def durable_def ds_Put_def split: prod.splits option.splits)
  have h: "hist_ok h" "ds_Get st = kv_of h" using assms(1) ds_inv_seq ds_inv_Get by (auto simp: ds_open_def)
  have "hist_ok (h @ [?c])" using validated_fits True h(1) assms(2) by blast
  from logAndApply_recovers [OF assms(1) this e(1), of thr f] show ?thesis
    using h(2) e(2) by (cases e) (auto simp: kv_of_snoc kv_apply_def)
next
  case False
  then have r: "r \<noteq> Inr ()" "st' = st\<lparr>dfs := dfs st\<lparr>faults := fl\<rparr>\<rparr>"
    using assms(3) by (auto simp: kvs_Put_def split: option.splits if_splits)
  obtain t where "disk_holds (crash f (dfs st')) (dir @ ''/wal'') (dir @ ''/snap'') h t"
    using ds_inv_crash [OF ds_inv_faults [of st h fl]] assms(1) r(2) unfolding ds_open_def by force
  from Open_after_crash [OF this, of thr] obtain st'' where
    "Open dir thr (crash f (dfs st')) = (Inr st'', dfs st'')" "ds_inv st'' h" by (auto simp: ds_open_def)
  then show ?thesis using r(1) ds_inv_Get assms(1) by (auto simp: ds_open_def)
qed

theorem acknowledged_put_survives_witness:
  "\<exists>st' st''. kvs_Put durable \<lparr>putKey = [1], putValue = [2], putClientId = 0, putSerial = 0\<rparr> (fresh_store []) = (Inr (), st') \<and>
     Open ''d'' 0 (crash (\<lambda>_. 3) (dfs st')) = (Inr st'', dfs st'') \<and> ds_Get st'' [1] = Some [2]"
proof -
  let ?c = "\<lparr>cOp = OpPut, cKey = [1], cValue = [2]\<rparr>" and ?r = "\<lparr>putKey = [1], putValue = [2], putClientId = 0, putSerial = 0\<rparr>"
  have "fst (logAndApply ?c (fresh_store [])) = None" by (rule logAndApply_succeeds) simp_all
  then obtain st' where p: "logAndApply ?c (fresh_store []) = (None, st')" by (metis prod.collapse)
  have f: "fresh_store []\<lparr>dfs := dfs (fresh_store [])\<lparr>faults := []\<rparr>\<rparr> = fresh_store []" by (simp add: fresh_store_def)
  have k: "kvs_Put durable ?r (fresh_store []) = (Inr (), st')"
    using p by (simp add: kvs_Put_def validateKey_def MaxKeyBytes_def MaxValueBytes_def durable_def ds_Put_def)
  from acknowledged_put_survives [OF fresh_open, of ?r "[]" "Inr ()" st' 0 "\<lambda>_. 3"] k show ?thesis
    unfolding f by auto
qed

end
