(* ===== verification/RaftApply.thy ===== *)
theory RaftApply
  imports RaftNode
begin

text \<open>
  What the event loop relies on of the \<open>StateMachine\<close> interface (\<^verbatim>\<open>internal/raft/node.go\<close>), and
  what it makes of it: the state machine is the fold of the committed commands, and a replica
  that is brought up from a snapshot cannot be told from one that applied every entry.
\<close>

definition apply_cmd :: "'sm StateMachine \<Rightarrow> Entry \<Rightarrow> 'sm \<Rightarrow> 'sm" where
  "apply_cmd M e sm = (if eType e = ENTRY_TYPE_NORMAL then smApply M (eIndex e) (eCommand e) sm else sm)"

definition apply_log :: "'sm StateMachine \<Rightarrow> Entry list \<Rightarrow> 'sm \<Rightarrow> 'sm" where
  "apply_log M es sm = fold (apply_cmd M) es sm"

lemma apply_log_simps [simp]:
  "apply_log M [] sm = sm" "apply_log M (e # es) sm = apply_log M es (apply_cmd M e sm)"
  "apply_log M (es @ es') sm = apply_log M es' (apply_log M es sm)"
  by (simp_all add: apply_log_def)

text \<open>The contract of the interface. \<open>view\<close> is what can be observed of a state, \<open>trusted\<close> what the
  implementation itself relies on.\<close>

locale state_machine =
  fixes M :: "'sm StateMachine" and view :: "'sm \<Rightarrow> 'v" and inv :: "'sm \<Rightarrow> bool" and trusted :: bool
  assumes apply_inv: "inv s \<Longrightarrow> inv (smApply M i b s)"
    and apply_view: "inv s \<Longrightarrow> inv t \<Longrightarrow> view s = view t \<Longrightarrow> view (smApply M i b s) = view (smApply M i b t)"
    and restore: "trusted \<Longrightarrow> inv s \<Longrightarrow> smSnapshot M s = Inr d \<Longrightarrow>
                    d \<noteq> [] \<and> (\<exists>t. smRestore M d u = Inr t \<and> inv t \<and> view t = view s)"
begin

lemma apply_cmd_inv: "inv s \<Longrightarrow> inv (apply_cmd M e s)"
  by (simp add: apply_cmd_def apply_inv)

lemma apply_log_inv: "inv s \<Longrightarrow> inv (apply_log M es s)"
  by (induction es arbitrary: s) (auto simp: apply_cmd_inv)

lemma apply_log_view: "inv s \<Longrightarrow> inv t \<Longrightarrow> view s = view t \<Longrightarrow> view (apply_log M es s) = view (apply_log M es t)"
proof (induction es arbitrary: s t)
  case (Cons e es)
  have "view (apply_cmd M e s) = view (apply_cmd M e t)"
    using apply_view [OF Cons.prems] Cons.prems(3) by (simp add: apply_cmd_def)
  then show ?case using Cons.IH [OF apply_cmd_inv [OF Cons.prems(1)] apply_cmd_inv [OF Cons.prems(2)]] by simp
qed simp

text \<open>Catching up from a snapshot is catching up from the log.\<close>

lemma snapshot_catches_up:
  assumes "trusted" "inv s" "smSnapshot M (apply_log M es s) = Inr d"
  shows "d \<noteq> [] \<and> (\<exists>t. smRestore M d u = Inr t \<and> inv t \<and> (\<forall>es'. view (apply_log M es' t) = view (apply_log M (es @ es') s)))"
proof -
  have i: "inv (apply_log M es s)" by (rule apply_log_inv [OF assms(2)])
  obtain t where t: "d \<noteq> []" "smRestore M d u = Inr t" "inv t" "view t = view (apply_log M es s)"
    using restore [OF assms(1) i assms(3), of u] by blast
  have "\<forall>es'. view (apply_log M es' t) = view (apply_log M (es @ es') s)"
    using apply_log_view [OF t(3) i t(4)] by simp
  then show ?thesis using t by blast
qed

end

subsection \<open>The apply loop\<close>

lemma fireAppliedWaiters_sm [simp]: "nSM (fireAppliedWaiters n) = nSM n" "nApplied (fireAppliedWaiters n) = nApplied n"
    "nWaiters (fireAppliedWaiters n) = nWaiters n"
  by (simp_all add: fireAppliedWaiters_def Let_def)

lemma applyEntry_sm [simp]: "nSM (applyEntry M e n) = apply_cmd M e (nSM n)" "nApplied (applyEntry M e n) = eIndex e"
  by (auto simp: applyEntry_def Let_def apply_cmd_def reply_to_def split: option.splits)

lemma apply_loop_sm:
  "nSM (fold (applyEntry M) es n) = apply_log M es (nSM n)"
  "nApplied (fold (applyEntry M) es n) = (if es = [] then nApplied n else eIndex (last es))"
  by (induction es arbitrary: n) auto

end
