(* ===== verification/KVStateMachine.thy ===== *)
theory KVStateMachine
  imports RaftApply Snapshot
begin

text \<open>
  \<^verbatim>\<open>internal/kvraft/statemachine.go\<close>: the replicated state machine, a map together with the
  session table that makes a retried write take effect once. The mutex makes every method one
  step. Go's \<open>gob\<close> package is a parameter: \<open>enc\<close> and \<open>dec\<close> stand for
  \<open>gob.NewEncoder(&buf).Encode\<close> and \<open>gob.NewDecoder(r).Decode\<close> at the type \<open>snapshotImage\<close>; a
  nil map of an image is the empty one.
\<close>

record command =
  clientID :: u64
  serial :: u64
  inner :: bytes

definition kv_encodeCommand :: "command \<Rightarrow> bytes" where
  "kv_encodeCommand c = le64 (clientID c) @ le64 (serial c) @ inner c"

definition kv_decodeCommand :: "bytes \<Rightarrow> err + command" where
  "kv_decodeCommand b =
     (if length b < 16 then Inl ErrEnvelopeTruncated
      else Inr \<lparr>clientID = get64 b, serial = get64 (drop 8 b), inner = drop 16 b\<rparr>)"

record stateMachine =
  kvdata :: MemStore
  sessions :: "(u64 \<times> u64) list"

definition newStateMachine :: stateMachine where
  "newStateMachine = \<lparr>kvdata = NewMemStore, sessions = []\<rparr>"

definition session_of :: "stateMachine \<Rightarrow> u64 \<Rightarrow> u64" where
  "session_of sm i = getm (map_of (sessions sm)) i"

definition Apply :: "u64 \<Rightarrow> bytes \<Rightarrow> stateMachine \<Rightarrow> stateMachine" where
  "Apply index b sm =
     (case kv_decodeCommand b of
        Inl _ \<Rightarrow> sm
      | Inr c \<Rightarrow>
          if clientID c \<noteq> 0 \<and> serial c \<le> session_of sm (clientID c) then sm
          else case DecodeCommand (inner c) of
                 Inl _ \<Rightarrow> sm
               | Inr cmd \<Rightarrow>
                   let sm1 = (case cOp cmd of
                                OpPut \<Rightarrow> sm\<lparr>kvdata := mem_Put (cKey cmd) (cValue cmd) (kvdata sm)\<rparr>
                              | OpDelete \<Rightarrow> sm\<lparr>kvdata := snd (mem_Delete (cKey cmd) (kvdata sm))\<rparr>)
                   in if clientID c \<noteq> 0 then sm1\<lparr>sessions := AList.update (clientID c) (serial c) (sessions sm1)\<rparr> else sm1)"

definition sm_get :: "stateMachine \<Rightarrow> bytes \<Rightarrow> bytes option" where
  "sm_get sm key = mem_Get (kvdata sm) key"

record snapshotImage =
  imgData :: "(bytes \<times> bytes) list"
  imgSessions :: "(u64 \<times> u64) list"

definition sm_image :: "stateMachine \<Rightarrow> snapshotImage" where
  "sm_image sm =
     \<lparr>imgData = mem_Range (kvdata sm) (\<lambda>k v m. (True, AList.update k v m)) [],
      imgSessions = fold (\<lambda>(i, s) m. AList.update i s m) (sessions sm) []\<rparr>"

definition sm_Snapshot :: "(snapshotImage \<Rightarrow> err + bytes) \<Rightarrow> stateMachine \<Rightarrow> err + bytes" where
  "sm_Snapshot enc sm = enc (sm_image sm)"

definition sm_Restore :: "(bytes \<Rightarrow> err + snapshotImage) \<Rightarrow> bytes \<Rightarrow> stateMachine \<Rightarrow> err + stateMachine" where
  "sm_Restore dec b sm =
     (case (if 0 < length b then dec b else Inr \<lparr>imgData = [], imgSessions = []\<rparr>) of
        Inl e \<Rightarrow> Inl e
      | Inr img \<Rightarrow> Inr \<lparr>kvdata = fold (\<lambda>(k, v) m. mem_Put k v m) (imgData img) NewMemStore, sessions = imgSessions img\<rparr>)"

text \<open>The implementation of the \<open>raft.StateMachine\<close> interface.\<close>

definition kv_machine :: "(snapshotImage \<Rightarrow> err + bytes) \<Rightarrow> (bytes \<Rightarrow> err + snapshotImage) \<Rightarrow> stateMachine StateMachine" where
  "kv_machine enc dec = \<lparr>smApply = Apply, smSnapshot = sm_Snapshot enc, smRestore = sm_Restore dec\<rparr>"

subsection \<open>The envelope\<close>

lemma kv_decode_encode [simp, codec_simps]: "kv_decodeCommand (kv_encodeCommand c) = Inr c"
  by (simp add: kv_decodeCommand_def kv_encodeCommand_def)

lemma kv_encode_decode:
  assumes "kv_decodeCommand b = Inr c" shows "kv_encodeCommand c = b"
proof -
  have l: "16 \<le> length b" and c: "c = \<lparr>clientID = get64 b, serial = get64 (drop 8 b), inner = drop 16 b\<rparr>"
    using assms by (auto simp: kv_decodeCommand_def split: if_splits)
  have "le64 (get64 b) @ le64 (get64 (drop 8 b)) @ drop 16 b = take 8 b @ take 8 (drop 8 b) @ drop 8 (drop 8 b)"
    using l by (simp add: le64_get64)
  also have "\<dots> = b" by (metis append_take_drop_id)
  finally show ?thesis by (simp add: kv_encodeCommand_def c)
qed

subsection \<open>One effect per serial\<close>

text \<open>The command that an entry of the log carries, with its session and serial.\<close>

definition parsed :: "bytes \<Rightarrow> (u64 \<times> u64 \<times> Command) option" where
  "parsed b =
     (case kv_decodeCommand b of
        Inl _ \<Rightarrow> None
      | Inr c \<Rightarrow> (case DecodeCommand (inner c) of Inl _ \<Rightarrow> None | Inr cmd \<Rightarrow> Some (clientID c, serial c, cmd)))"

abbreviation carries :: "bytes \<Rightarrow> u64 \<Rightarrow> u64 \<Rightarrow> Command \<Rightarrow> bool" where
  "carries b i s cmd \<equiv> parsed b = Some (i, s, cmd)"

definition sm_wf :: "stateMachine \<Rightarrow> bool" where
  "sm_wf sm \<longleftrightarrow> mem_wf (kvdata sm) \<and> distinct (keys (sessions sm))"

definition fresh :: "stateMachine \<Rightarrow> u64 \<Rightarrow> u64 \<Rightarrow> bool" where
  "fresh sm i s \<longleftrightarrow> i = 0 \<or> session_of sm i < s"

definition sm_run :: "bytes list \<Rightarrow> stateMachine \<Rightarrow> stateMachine" where
  "sm_run log sm = fold (Apply 0) log sm"

lemma Apply_index: "Apply i = Apply j"
  by (simp add: Apply_def fun_eq_iff)

lemma sm_run_simps [simp]:
  "sm_run [] sm = sm" "sm_run (b # log) sm = sm_run log (Apply 0 b sm)" "sm_run (log @ log') sm = sm_run log' (sm_run log sm)"
  by (simp_all add: sm_run_def)

lemma Apply_skips:
  assumes "\<And>i s cmd. carries b i s cmd \<Longrightarrow> \<not> fresh sm i s"
  shows "Apply x b sm = sm"
  using assms by (auto simp: Apply_def parsed_def fresh_def not_less split: sum.splits)

lemma Apply_takes_effect:
  assumes "carries b i s cmd" "fresh sm i s" "sm_wf sm"
  shows "sm_get (Apply x b sm) = kv_apply cmd (sm_get sm)"
    and "session_of (Apply x b sm) = (if i = 0 then session_of sm else (session_of sm)(i := s))"
    and "sm_wf (Apply x b sm)"
proof -
  obtain c where c: "kv_decodeCommand b = Inr c" "clientID c = i" "serial c = s" "DecodeCommand (inner c) = Inr cmd"
    using assms(1) by (auto simp: parsed_def split: sum.splits)
  have f: "\<not> (clientID c \<noteq> 0 \<and> serial c \<le> session_of sm (clientID c))" using assms(2) c by (auto simp: fresh_def)
  have wf: "mem_wf (kvdata sm)" "distinct (keys (sessions sm))" using assms(3) by (auto simp: sm_wf_def)
  define d where "d = (case cOp cmd of OpPut \<Rightarrow> mem_Put (cKey cmd) (cValue cmd) (kvdata sm) | OpDelete \<Rightarrow> snd (mem_Delete (cKey cmd) (kvdata sm)))"
  have a: "Apply x b sm = \<lparr>kvdata = d, sessions = (if i = 0 then sessions sm else AList.update i s (sessions sm))\<rparr>"
    using c f by (auto simp: Apply_def d_def Let_def split: Op.splits)
  have "mem_Get d = kv_apply cmd (mem_Get (kvdata sm))" unfolding d_def by (rule mem.apply_refines [OF wf(1)])
  then show "sm_get (Apply x b sm) = kv_apply cmd (sm_get sm)" by (simp add: a sm_get_def [abs_def])
  have "mem_wf d" unfolding d_def by (rule mem.apply_invar [OF wf(1)])
  then show "sm_wf (Apply x b sm)" using wf(2) by (simp add: a sm_wf_def distinct_update)
  show "session_of (Apply x b sm) = (if i = 0 then session_of sm else (session_of sm)(i := s))"
    by (auto simp: a session_of_def getm_def fun_eq_iff)
qed

lemma sm_wf_Apply: "sm_wf sm \<Longrightarrow> sm_wf (Apply x b sm)"
  using Apply_skips [of b sm x] Apply_takes_effect(3) [of b _ _ _ sm x] by metis

lemma sm_wf_new [simp]: "sm_wf newStateMachine"
  by (simp add: sm_wf_def newStateMachine_def mem.invar_empty)

lemma sm_wf_run: "sm_wf sm \<Longrightarrow> sm_wf (sm_run log sm)"
  by (induction log arbitrary: sm) (auto simp: sm_wf_Apply)

text \<open>The serial recorded for a client never decreases.\<close>

lemma session_mono_Apply:
  assumes "sm_wf sm" shows "session_of sm i \<le> session_of (Apply x b sm) i"
proof (cases "\<exists>j s cmd. carries b j s cmd \<and> fresh sm j s")
  case True
  then obtain j s cmd where "carries b j s cmd" "fresh sm j s" by blast
  then show ?thesis using Apply_takes_effect(2) [OF _ _ assms, of b j s cmd x] by (auto simp: fresh_def)
next
  case False
  then have "Apply x b sm = sm" by (intro Apply_skips) blast
  then show ?thesis by simp
qed

lemma session_mono: "sm_wf sm \<Longrightarrow> session_of sm i \<le> session_of (sm_run log sm) i"
proof (induction log arbitrary: sm)
  case (Cons b log)
  then show ?case using session_mono_Apply [OF Cons.prems, of i 0 b] sm_wf_Apply [OF Cons.prems] by (auto intro: order_trans)
qed simp

lemma session_after:
  assumes "sm_wf sm" "carries b i s cmd" "i \<noteq> 0"
  shows "s \<le> session_of (Apply x b sm) i"
proof (cases "fresh sm i s")
  case True then show ?thesis using Apply_takes_effect(2) [OF assms(2) True assms(1), of x] assms(3) by simp
next
  case False
  then show ?thesis using session_mono_Apply [OF assms(1), of i x b] assms(3) by (auto simp: fresh_def)
qed

text \<open>The reference: an entry takes effect when it carries a command outside of any session, or one
  whose serial is above zero and above every serial that its client has in the log before it.\<close>

definition above_all :: "bytes list \<Rightarrow> u64 \<Rightarrow> u64 \<Rightarrow> bool" where
  "above_all log i s \<longleftrightarrow> 0 < s \<and> (\<forall>b \<in> set log. case parsed b of None \<Rightarrow> True | Some (i', s', _) \<Rightarrow> i' = i \<longrightarrow> s' < s)"

definition takes_effect :: "bytes list \<Rightarrow> nat \<Rightarrow> bool" where
  "takes_effect log k \<longleftrightarrow>
     (case parsed (log ! k) of None \<Rightarrow> False | Some (i, s, _) \<Rightarrow> i = 0 \<or> above_all (take k log) i s)"

definition command_of :: "bytes \<Rightarrow> Command" where
  "command_of b = snd (snd (the (parsed b)))"

definition effective :: "bytes list \<Rightarrow> Command list" where
  "effective log = map (\<lambda>k. command_of (log ! k)) (filter (takes_effect log) [0..<length log])"

lemma session_below:
  "i \<noteq> 0 \<Longrightarrow> session_of (sm_run log newStateMachine) i < s \<longleftrightarrow> above_all log i s"
proof (induction log rule: rev_induct)
  case Nil
  then show ?case by (simp add: session_of_def newStateMachine_def getm_def above_all_def)
next
  case (snoc b log)
  let ?sm = "sm_run log newStateMachine"
  have wf: "sm_wf ?sm" by (simp add: sm_wf_run)
  show ?case
  proof (cases "\<exists>j t cmd. carries b j t cmd \<and> fresh ?sm j t")
    case True
    then obtain j t cmd where b: "carries b j t cmd" "fresh ?sm j t" by blast
    have "above_all (log @ [b]) i s \<longleftrightarrow> above_all log i s \<and> (j = i \<longrightarrow> t < s)" using b by (auto simp: above_all_def)
    moreover have "session_of (Apply 0 b ?sm) i = (if j = i then t else session_of ?sm i)"
      using Apply_takes_effect(2) [OF b wf, of 0] snoc.prems by auto
    moreover have "j = i \<Longrightarrow> session_of ?sm i < t" using b(2) snoc.prems by (simp add: fresh_def)
    ultimately show ?thesis using snoc.IH [OF snoc.prems] by (auto intro: less_trans)
  next
    case False
    then have e: "Apply 0 b ?sm = ?sm" by (intro Apply_skips) blast
    have "i' = i \<longrightarrow> s' < s" if "session_of ?sm i < s" "carries b i' s' cmd" for i' s' cmd
      using False that snoc.prems by (auto simp: fresh_def)
    then have "above_all (log @ [b]) i s \<longleftrightarrow> above_all log i s"
      using snoc.IH [OF snoc.prems] by (cases "parsed b") (auto simp: above_all_def)
    then show ?thesis using e snoc.IH [OF snoc.prems] by simp
  qed
qed

lemma effective_snoc:
  "effective (log @ [b]) = effective log @ (if takes_effect (log @ [b]) (length log) then [command_of b] else [])"
proof -
  have t: "takes_effect (log @ [b]) k = takes_effect log k" if "k < length log" for k
    using that by (auto simp: takes_effect_def nth_append split: option.split)
  have "map (\<lambda>k. command_of ((log @ [b]) ! k)) (filter (takes_effect (log @ [b])) [0..<length log]) = effective log"
    unfolding effective_def by (intro map_cong filter_cong) (auto simp: t nth_append)
  then show ?thesis by (simp add: effective_def)
qed

text \<open>C3. Exactly once: whatever sequence of bytes is committed, with every kind of duplicate,
  retransmission, reordering across clients and garbage in it, the map that reads see is the
  one that the effective commands leave, where a command of a session is effective exactly
  when its serial is above all serials its client has in the log before.\<close>

theorem run_effective: "sm_get (sm_run log newStateMachine) = fold kv_apply (effective log) Map.empty"
proof (induction log rule: rev_induct)
  case Nil
  then show ?case by (simp add: effective_def sm_get_def [abs_def] newStateMachine_def mem.get_empty)
next
  case (snoc b log)
  let ?sm = "sm_run log newStateMachine"
  have wf: "sm_wf ?sm" by (simp add: sm_wf_run)
  have t: "takes_effect (log @ [b]) (length log) \<longleftrightarrow> (\<exists>i s cmd. carries b i s cmd \<and> fresh ?sm i s)"
  proof (cases "parsed b")
    case (Some p)
    obtain i s cmd where p: "p = (i, s, cmd)" by (metis prod_cases3)
    show ?thesis using session_below [of i log s] by (auto simp: takes_effect_def fresh_def Some p)
  qed (simp add: takes_effect_def)
  show ?case
  proof (cases "takes_effect (log @ [b]) (length log)")
    case True
    then obtain i s cmd where b: "carries b i s cmd" "fresh ?sm i s" using t by blast
    then show ?thesis using snoc True Apply_takes_effect(1) [OF b wf, of 0] by (simp add: effective_snoc command_of_def)
  next
    case False
    then have "Apply 0 b ?sm = ?sm" using t by (intro Apply_skips) blast
    then show ?thesis using snoc False by (simp add: effective_snoc)
  qed
qed


lemma parsed_encode:
  "cmd_ok cmd \<Longrightarrow> carries (kv_encodeCommand \<lparr>clientID = i, serial = s, inner = EncodeCommand cmd\<rparr>) i s cmd"
  by (simp add: parsed_def DecodeCommand_def decode_encode)


text \<open>C26. A session whose serials start at zero is never heard: a command of a client with serial 0
  is acknowledged like any other, but no state of the state machine lets it take effect.\<close>

theorem serial_zero_ignored:
  assumes "clientID c \<noteq> 0" "serial c = 0"
  shows "Apply i (kv_encodeCommand c) sm = sm"
  using assms by (simp add: Apply_def)

theorem serial_zero_ignored_witness:
  "sm_get (Apply 1 (kv_encodeCommand \<lparr>clientID = 7, serial = 0, inner = EncodeCommand \<lparr>cOp = OpPut, cKey = [1], cValue = [2]\<rparr>\<rparr>) newStateMachine) [1] = None"
  by (subst serial_zero_ignored) (simp_all add: newStateMachine_def sm_get_def mem.get_empty)

subsection \<open>Snapshots\<close>

text \<open>What the code relies on of \<open>gob\<close>: decoding what was encoded gives the same maps (in some
  iteration order), and an encoded image is not empty.\<close>

definition same_map :: "('k \<times> 'v) list \<Rightarrow> ('k \<times> 'v) list \<Rightarrow> bool" where
  "same_map m m' \<longleftrightarrow> distinct (keys m') \<and> map_of m' = map_of m"

definition gob_faithful :: "(snapshotImage \<Rightarrow> err + bytes) \<Rightarrow> (bytes \<Rightarrow> err + snapshotImage) \<Rightarrow> bool" where
  "gob_faithful enc dec \<longleftrightarrow>
     (\<forall>img b. distinct (keys (imgData img)) \<longrightarrow> distinct (keys (imgSessions img)) \<longrightarrow> enc img = Inr b \<longrightarrow>
        b \<noteq> [] \<and> (\<exists>img'. dec b = Inr img' \<and> same_map (imgData img) (imgData img') \<and> same_map (imgSessions img) (imgSessions img')))"

text \<open>What a state machine shows: the answers to reads and the serials of the sessions.\<close>

definition sm_view :: "stateMachine \<Rightarrow> (bytes \<Rightarrow> bytes option) \<times> (u64 \<Rightarrow> u64)" where
  "sm_view sm = (sm_get sm, session_of sm)"

lemma Apply_view:
  assumes "sm_wf sm" "sm_wf sm'" "sm_view sm = sm_view sm'"
  shows "sm_view (Apply x b sm) = sm_view (Apply x b sm')"
proof (cases "\<exists>i s cmd. carries b i s cmd \<and> fresh sm i s")
  case True
  then obtain i s cmd where b: "carries b i s cmd" "fresh sm i s" by blast
  then have "fresh sm' i s" using assms(3) by (simp add: fresh_def sm_view_def)
  from Apply_takes_effect(1,2) [OF b assms(1), of x] Apply_takes_effect(1,2) [OF b(1) this assms(2), of x]
  show ?thesis using assms(3) by (simp add: sm_view_def)
next
  case False
  then have "Apply x b sm = sm" by (intro Apply_skips) blast
  moreover have "fresh sm' = fresh sm" using assms(3) by (simp add: fresh_def [abs_def] sm_view_def)
  then have "Apply x b sm' = sm'" using False by (intro Apply_skips) auto
  ultimately show ?thesis using assms(3) by simp
qed

lemma fold_update_keys:
  "distinct (keys (acc @ m)) \<Longrightarrow> fold (\<lambda>(k, v) m. AList.update k v m) m acc = acc @ m"
proof (induction m arbitrary: acc)
  case (Cons kv m)
  obtain k v where kv: "kv = (k, v)" by force
  have "AList.update k v acc = acc @ [(k, v)]"
    using Cons.prems by (intro AList_update_new) (auto simp: kv)
  then show ?case using Cons kv by simp
qed simp

lemma sm_image_exact:
  assumes "sm_wf sm" shows "sm_image sm = \<lparr>imgData = data (kvdata sm), imgSessions = sessions sm\<rparr>"
  using assms fold_update_keys [of "[]" "data (kvdata sm)"] fold_update_keys [of "[]" "sessions sm"]
  by (simp add: sm_image_def mem_Range_visits sm_wf_def mem_wf_def)

lemma fold_Put_data:
  "distinct (keys (data mem @ kvs)) \<Longrightarrow> fold (\<lambda>(k, v) m. mem_Put k v m) kvs mem = mem\<lparr>data := data mem @ kvs\<rparr>"
proof (induction kvs arbitrary: mem)
  case (Cons kv kvs)
  obtain k v where kv: "kv = (k, v)" by force
  have "mem_Put k v mem = mem\<lparr>data := data mem @ [(k, v)]\<rparr>"
    using Cons.prems by (auto simp: mem_Put_def kv AList_update_new)
  then show ?case using Cons by (simp add: kv)
qed simp

lemma restore_snapshot:
  assumes "gob_faithful enc dec" "sm_wf sm" "sm_Snapshot enc sm = Inr b"
  shows "b \<noteq> [] \<and> (\<exists>sm'. sm_Restore dec b old = Inr sm' \<and> sm_wf sm' \<and> sm_view sm' = sm_view sm)"
proof -
  have wf: "distinct (keys (data (kvdata sm)))" "distinct (keys (sessions sm))" using assms(2) by (auto simp: sm_wf_def mem_wf_def)
  have "enc \<lparr>imgData = data (kvdata sm), imgSessions = sessions sm\<rparr> = Inr b"
    using assms(3) by (simp add: sm_Snapshot_def sm_image_exact [OF assms(2)])
  then obtain img where b: "b \<noteq> []" "dec b = Inr img" "same_map (data (kvdata sm)) (imgData img)" "same_map (sessions sm) (imgSessions img)"
    using assms(1) wf unfolding gob_faithful_def by (metis snapshotImage.select_convs)
  have "fold (\<lambda>(k, v) m. mem_Put k v m) (imgData img) NewMemStore = \<lparr>data = imgData img\<rparr>"
    using fold_Put_data [of NewMemStore "imgData img"] b(3) by (simp add: NewMemStore_def same_map_def)
  then have "sm_Restore dec b old = Inr \<lparr>kvdata = \<lparr>data = imgData img\<rparr>, sessions = imgSessions img\<rparr>"
    using b by (simp add: sm_Restore_def)
  moreover have "sm_wf \<lparr>kvdata = \<lparr>data = imgData img\<rparr>, sessions = imgSessions img\<rparr>"
    using b by (simp add: sm_wf_def mem_wf_def same_map_def)
  moreover have "sm_view \<lparr>kvdata = \<lparr>data = imgData img\<rparr>, sessions = imgSessions img\<rparr> = sm_view sm"
    using b by (simp add: sm_view_def sm_get_def [abs_def] session_of_def [abs_def] mem_Get_def same_map_def)
  ultimately show ?thesis using b(1) by blast
qed

interpretation kvsm: state_machine "kv_machine enc dec" sm_view sm_wf "gob_faithful enc dec" for enc dec
  by unfold_locales
     (auto simp: kv_machine_def sm_wf_Apply restore_snapshot intro: Apply_view)

text \<open>C5. A replica restored from a snapshot cannot be told from one that applied the whole log:
  after any further entries both answer every read alike and know the same serials, so the
  deduplication survives snapshots and their installation on other nodes.\<close>

theorem snapshot_replica_equivalent:
  assumes "gob_faithful enc dec" "smSnapshot (kv_machine enc dec) (apply_log (kv_machine enc dec) es newStateMachine) = Inr d"
  shows "\<exists>t. smRestore (kv_machine enc dec) d old = Inr t \<and>
    (\<forall>es'. sm_view (apply_log (kv_machine enc dec) es' t) = sm_view (apply_log (kv_machine enc dec) (es @ es') newStateMachine))"
  using kvsm.snapshot_catches_up [OF assms(1) sm_wf_new assms(2), of old] by blast

text \<open>A codec that meets the hypothesis: the formats of the storage engine, with the sessions in front.\<close>

definition plain_enc :: "snapshotImage \<Rightarrow> err + bytes" where
  "plain_enc img =
     (if mem_fits \<lparr>data = imgData img\<rparr> \<and> length (imgSessions img) < 2 ^ 64
      then Inr (le64 (word_of_nat (length (imgSessions img))) @ concat (map (\<lambda>(i, s). le64 i @ le64 s) (imgSessions img))
                @ snapshot_bytes 0 \<lparr>data = imgData img\<rparr>)
      else Inl ErrGob)"

fun plain_sessions :: "nat \<Rightarrow> bytes \<Rightarrow> (u64 \<times> u64) list \<times> bytes" where
  "plain_sessions 0 b = ([], b)"
| "plain_sessions (Suc n) b = (case plain_sessions n (drop 16 b) of (m, r) \<Rightarrow> ((get64 b, get64 (drop 8 b)) # m, r))"

definition plain_dec :: "bytes \<Rightarrow> err + snapshotImage" where
  "plain_dec b =
     (case plain_sessions (unat (get64 b)) (drop 8 b) of
        (m, r) \<Rightarrow> (case parseSnapshot r of Inl e \<Rightarrow> Inl e | Inr (mem, _) \<Rightarrow> Inr \<lparr>imgData = data mem, imgSessions = m\<rparr>))"

lemma plain_sessions_back:
  "plain_sessions (length m) (concat (map (\<lambda>(i, s). le64 i @ le64 s) m) @ r) = (m, r)"
  by (induction m) auto

lemma plain_faithful: "gob_faithful plain_enc plain_dec"
  unfolding gob_faithful_def
proof (intro allI impI)
  fix img b
  assume d: "distinct (keys (imgData img))" "distinct (keys (imgSessions img))" and e: "plain_enc img = Inr b"
  then have f: "mem_fits \<lparr>data = imgData img\<rparr>" "length (imgSessions img) < 2 ^ 64"
    and b: "b = le64 (word_of_nat (length (imgSessions img))) @ concat (map (\<lambda>(i, s). le64 i @ le64 s) (imgSessions img))
                @ snapshot_bytes 0 \<lparr>data = imgData img\<rparr>"
    by (auto simp: plain_enc_def split: if_splits)
  have "unat (word_of_nat (length (imgSessions img)) :: u64) = length (imgSessions img)" using f(2) by (simp add: unat_of_nat)
  then have "plain_dec b = Inr img"
    using parse_snapshot_bytes [OF f(1), of 0] by (simp add: plain_dec_def b plain_sessions_back)
  moreover have "b \<noteq> []" by (simp add: b le64_def)
  ultimately show "b \<noteq> [] \<and> (\<exists>img'. plain_dec b = Inr img' \<and> same_map (imgData img) (imgData img') \<and> same_map (imgSessions img) (imgSessions img'))"
    using d by (simp add: same_map_def)
qed

theorem snapshot_replica_equivalent_witness:
  "\<exists>d t. smSnapshot (kv_machine plain_enc plain_dec) (apply_log (kv_machine plain_enc plain_dec) [] newStateMachine) = Inr d
     \<and> smRestore (kv_machine plain_enc plain_dec) d newStateMachine = Inr t
     \<and> sm_view (apply_log (kv_machine plain_enc plain_dec) [] t) = sm_view newStateMachine"
proof -
  have "\<exists>d. smSnapshot (kv_machine plain_enc plain_dec) (apply_log (kv_machine plain_enc plain_dec) [] newStateMachine) = Inr d"
    by (simp add: kv_machine_def sm_Snapshot_def plain_enc_def sm_image_def newStateMachine_def NewMemStore_def mem_Range_def mem_fits_def mem_wf_def)
  then obtain d where d: "smSnapshot (kv_machine plain_enc plain_dec) (apply_log (kv_machine plain_enc plain_dec) [] newStateMachine) = Inr d"
    by blast
  obtain t where t: "smRestore (kv_machine plain_enc plain_dec) d newStateMachine = Inr t"
    "\<forall>es'. sm_view (apply_log (kv_machine plain_enc plain_dec) es' t) = sm_view (apply_log (kv_machine plain_enc plain_dec) ([] @ es') newStateMachine)"
    using snapshot_replica_equivalent [OF plain_faithful d, of newStateMachine] by blast
  have "sm_view (apply_log (kv_machine plain_enc plain_dec) [] t) = sm_view newStateMachine" using t(2) [rule_format, of "[]"] by simp
  then show ?thesis using d t(1) by blast
qed

end
