(* ===== verification/NodeCalls.thy ===== *)
theory NodeCalls
  imports RaftNode
begin

text \<open>
  The methods of \<^verbatim>\<open>internal/raft/node.go\<close> by which other goroutines enter the event loop:
  \<open>Propose\<close>, \<open>ReadBarrier\<close>, the membership calls, \<open>TransferLeadership\<close> and the RPC handlers. A call
  enqueues an event and waits on channels. What the loop does meanwhile, and how each \<open>select\<close>
  resolves when several branches are ready, is the schedule: an argument of the call. The state
  that a call returns is the node's when the caller resumes; a caller whose context expires
  while its event is still queued resumes earlier, without learning anything.
\<close>

datatype pick = Ready | StopC | CtxDone

record schedule =
  before :: "event list"
  queued :: "event list"
  after :: "event list"
  pick1 :: pick
  pick2 :: pick
  pick3 :: pick

definition loop :: "'sm StateMachine \<Rightarrow> event list \<Rightarrow> 'sm Node \<Rightarrow> 'sm Node" where
  "loop M evs n = fold (run_step M) evs n"

definition recv :: "nat \<Rightarrow> 'sm Node \<Rightarrow> reply_msg option" where
  "recv ch n = map_of (nReplies n) ch"

text \<open>A \<open>select\<close> over a channel, \<open>stopc\<close> and the context. The context may expire at any time; a
  \<open>select\<close> without a \<open>stopc\<close> branch never sees the node stopped.\<close>

definition select :: "pick \<Rightarrow> 'a option \<Rightarrow> bool \<Rightarrow> err + 'a" where
  "select p ready stopc =
     (case p of
        Ready \<Rightarrow> (case ready of Some x \<Rightarrow> Inr x | None \<Rightarrow> Inl ErrContext)
      | StopC \<Rightarrow> if stopc then Inl ErrStopped else Inl ErrContext
      | CtxDone \<Rightarrow> Inl ErrContext)"

text \<open>Enqueue an event and let the loop handle it.\<close>

definition enqueue :: "'sm StateMachine \<Rightarrow> schedule \<Rightarrow> event \<Rightarrow> 'sm Node \<Rightarrow> (err + unit) \<times> 'sm Node" where
  "enqueue M sc ev n =
     (let n0 = loop M (before sc) n
      in case select (pick1 sc) (Some ()) (nStopc n0) of
           Inl e \<Rightarrow> (Inl e, n0)
         | Inr _ \<Rightarrow> (Inr (), run_step M ev (loop M (queued sc) n0)))"

text \<open>\<open>Propose\<close> and \<open>confChange\<close>: first the answer to the proposal, then its outcome.\<close>

definition await_outcome :: "'sm StateMachine \<Rightarrow> schedule \<Rightarrow> event \<Rightarrow> nat \<Rightarrow> nat \<Rightarrow> 'sm Node \<Rightarrow> err option \<times> 'sm Node" where
  "await_outcome M sc ev don respc n =
     (case enqueue M sc ev n of
        (Inl e, n0) \<Rightarrow> (Some e, n0)
      | (Inr _, n1) \<Rightarrow>
          (case select (pick2 sc) (recv respc n1) (nStopc n1) of
             Inl e \<Rightarrow> (Some e, n1)
           | Inr (ProposeReply (Inl e)) \<Rightarrow> (Some e, n1)
           | Inr _ \<Rightarrow>
               let n2 = loop M (after sc) n1
               in case select (pick3 sc) (recv don n2) (nStopc n2) of
                    Inl e \<Rightarrow> (Some e, n2)
                  | Inr (DoneReply r) \<Rightarrow> (r, n2)
                  | Inr _ \<Rightarrow> (None, n2)))"

definition Propose :: "'sm StateMachine \<Rightarrow> schedule \<Rightarrow> bytes \<Rightarrow> nat \<Rightarrow> nat \<Rightarrow> 'sm Node \<Rightarrow> err option \<times> 'sm Node" where
  "Propose M sc cmd don respc n = await_outcome M sc (evPropose cmd ENTRY_TYPE_NORMAL don respc) don respc n"

definition node_confChange :: "'sm StateMachine \<Rightarrow> schedule \<Rightarrow> confChange \<Rightarrow> nat \<Rightarrow> nat \<Rightarrow> 'sm Node \<Rightarrow> err option \<times> 'sm Node" where
  "node_confChange M sc cc don respc n = await_outcome M sc (evConfChange cc don respc) don respc n"

definition AddMember :: "'sm StateMachine \<Rightarrow> schedule \<Rightarrow> u64 \<Rightarrow> bytes \<Rightarrow> nat \<Rightarrow> nat \<Rightarrow> 'sm Node \<Rightarrow> err option \<times> 'sm Node" where
  "AddMember M sc i addr = node_confChange M sc \<lparr>ccOp = confChangeAdd, ccId = i, ccAddr = addr\<rparr>"

definition RemoveMember :: "'sm StateMachine \<Rightarrow> schedule \<Rightarrow> u64 \<Rightarrow> nat \<Rightarrow> nat \<Rightarrow> 'sm Node \<Rightarrow> err option \<times> 'sm Node" where
  "RemoveMember M sc i = node_confChange M sc \<lparr>ccOp = confChangeRemove, ccId = i, ccAddr = []\<rparr>"

text \<open>One answer; what the loop does before it comes is in \<open>after\<close>.\<close>

definition await_reply :: "'sm StateMachine \<Rightarrow> schedule \<Rightarrow> event \<Rightarrow> nat \<Rightarrow> 'sm Node \<Rightarrow> (err + reply_msg) \<times> 'sm Node" where
  "await_reply M sc ev respc n =
     (case enqueue M sc ev n of
        (Inl e, n0) \<Rightarrow> (Inl e, n0)
      | (Inr _, n1) \<Rightarrow> let n2 = loop M (after sc) n1 in (select (pick2 sc) (recv respc n2) (nStopc n2), n2))"

definition ReadBarrier :: "'sm StateMachine \<Rightarrow> schedule \<Rightarrow> nat \<Rightarrow> 'sm Node \<Rightarrow> err option \<times> 'sm Node" where
  "ReadBarrier M sc respc n =
     (case await_reply M sc (evRead respc) respc n of
        (Inl e, n') \<Rightarrow> (Some e, n')
      | (Inr (ReadReply (Inl e)), n') \<Rightarrow> (Some e, n')
      | (Inr _, n') \<Rightarrow> (None, n'))"

definition TransferLeadership :: "'sm StateMachine \<Rightarrow> schedule \<Rightarrow> u64 \<Rightarrow> nat \<Rightarrow> 'sm Node \<Rightarrow> err option \<times> 'sm Node" where
  "TransferLeadership M sc to respc n =
     (case await_reply M sc (evTransfer to respc) respc n of
        (Inl e, n') \<Rightarrow> (Some e, n')
      | (Inr (TransferReply r), n') \<Rightarrow> (r, n')
      | (Inr _, n') \<Rightarrow> (None, n'))"

text \<open>The RPC handlers do not watch \<open>stopc\<close> while they wait for the answer.\<close>

definition HandleRPC :: "'sm StateMachine \<Rightarrow> schedule \<Rightarrow> event \<Rightarrow> nat \<Rightarrow> 'sm Node \<Rightarrow> (err + reply_msg) \<times> 'sm Node" where
  "HandleRPC M sc ev respc n =
     (case enqueue M sc ev n of
        (Inl e, n0) \<Rightarrow> (Inl e, n0)
      | (Inr _, n1) \<Rightarrow> let n2 = loop M (after sc) n1 in (select (pick2 sc) (recv respc n2) False, n2))"

definition HandleRequestVote :: "'sm StateMachine \<Rightarrow> schedule \<Rightarrow> RequestVoteRequest \<Rightarrow> nat \<Rightarrow> 'sm Node \<Rightarrow> (err + reply_msg) \<times> 'sm Node" where
  "HandleRequestVote M sc req respc = HandleRPC M sc (evRequestVote req respc) respc"

definition HandleAppendEntries :: "'sm StateMachine \<Rightarrow> schedule \<Rightarrow> AppendEntriesRequest \<Rightarrow> nat \<Rightarrow> 'sm Node \<Rightarrow> (err + reply_msg) \<times> 'sm Node" where
  "HandleAppendEntries M sc req respc = HandleRPC M sc (evAppendEntries req respc) respc"

definition HandleInstallSnapshot :: "'sm StateMachine \<Rightarrow> schedule \<Rightarrow> InstallSnapshotRequest \<Rightarrow> nat \<Rightarrow> 'sm Node \<Rightarrow> (err + reply_msg) \<times> 'sm Node" where
  "HandleInstallSnapshot M sc req respc = HandleRPC M sc (evInstallSnapshot req respc) respc"

definition HandleTimeoutNow :: "'sm StateMachine \<Rightarrow> schedule \<Rightarrow> TimeoutNowRequest \<Rightarrow> nat \<Rightarrow> 'sm Node \<Rightarrow> (err + reply_msg) \<times> 'sm Node" where
  "HandleTimeoutNow M sc req respc = HandleRPC M sc (evTimeoutNow req respc) respc"

subsection \<open>The RPC service\<close>

text \<open>\<^verbatim>\<open>internal/raft/service.go\<close>: requests are routed by group; an unknown group is refused. The
  nodes of a process are its map from groups to nodes.\<close>

type_synonym 'sm service = "(u64 \<times> 'sm Node) list"

definition service_call ::
  "('sm Node \<Rightarrow> (err + reply_msg) \<times> 'sm Node) \<Rightarrow> u64 \<Rightarrow> 'sm service \<Rightarrow> (err + reply_msg) option \<times> 'sm service" where
  "service_call h g ns =
     (case map_of ns g of
        None \<Rightarrow> (None, ns)
      | Some n \<Rightarrow> (case h n of (r, n') \<Rightarrow> (Some r, AList.update g n' ns)))"

definition Service_RequestVote where
  "Service_RequestVote M sc req respc ns = service_call (HandleRequestVote M sc req respc) (rvGroup req) ns"

definition Service_AppendEntries where
  "Service_AppendEntries M sc req respc ns = service_call (HandleAppendEntries M sc req respc) (aeGroup req) ns"

definition Service_InstallSnapshot where
  "Service_InstallSnapshot M sc req respc ns = service_call (HandleInstallSnapshot M sc req respc) (isGroup req) ns"

definition Service_TimeoutNow where
  "Service_TimeoutNow M sc req respc ns = service_call (HandleTimeoutNow M sc req respc) (tnGroup req) ns"

text \<open>A request changes only the group it names.\<close>

lemma service_call_other:
  "g' \<noteq> g \<Longrightarrow> map_of (snd (service_call h g ns)) g' = map_of ns g'"
  by (auto simp: service_call_def split: option.splits prod.splits)

end
