(* ===== verification/KVService.thy ===== *)
theory KVService
  imports KVApi KVStateMachine NodeCalls
begin

text \<open>
  \<^verbatim>\<open>internal/kvraft/service.go\<close>: the client-facing service of a replicated node. Writes go
  through \<open>Propose\<close>, reads through \<open>ReadBarrier\<close>, and an answer that the node is not the leader
  carries the shard and the leader's address. The node holds the state machine, so one state
  is both \<open>s.node\<close> and \<open>s.sm\<close>. \<open>gob\<close> is the parameter \<open>M\<close>, a \<open>kv_machine enc dec\<close>.
\<close>

text \<open>The statuses of \<open>toStatus\<close>. \<open>Members[id]\<close> of an absent node is the empty string.\<close>

definition hint_text :: "u64 \<Rightarrow> u64 \<Rightarrow> string \<Rightarrow> string" where
  "hint_text shard lid addr = ''not leader; shard='' @ itoa (unat shard) @ '' leader_id='' @ itoa (unat lid) @ '' leader_addr='' @ addr"

definition toStatus :: "Status \<Rightarrow> u64 \<Rightarrow> err \<Rightarrow> status" where
  "toStatus st shard e =
     (case e of
        ErrNotLeader lid \<Rightarrow>
          let addr = (if lid \<noteq> 0 then (case map_of (stMembers st) lid of None \<Rightarrow> [] | Some a \<Rightarrow> a) else [])
          in FailedPrecondition (hint_text shard lid (str addr))
      | ErrContext \<Rightarrow> FromContextError e
      | _ \<Rightarrow> Unavailable e)"

definition put_command :: "PutRequest \<Rightarrow> bytes" where
  "put_command req = kv_encodeCommand
     \<lparr>clientID = putClientId req, serial = putSerial req,
      inner = EncodeCommand \<lparr>cOp = OpPut, cKey = putKey req, cValue = putValue req\<rparr>\<rparr>"

definition delete_command :: "DeleteRequest \<Rightarrow> bytes" where
  "delete_command req = kv_encodeCommand
     \<lparr>clientID = delClientId req, serial = delSerial req,
      inner = EncodeCommand \<lparr>cOp = OpDelete, cKey = delKey req, cValue = []\<rparr>\<rparr>"

definition svc_Put ::
  "stateMachine StateMachine \<Rightarrow> u64 \<Rightarrow> schedule \<Rightarrow> nat \<Rightarrow> nat \<Rightarrow> PutRequest \<Rightarrow> stateMachine Node \<Rightarrow> (status + unit) \<times> stateMachine Node" where
  "svc_Put M shard sc don respc req n =
     (if putKey req = [] then (Inl (InvalidArgument ''key must not be empty''), n)
      else case Propose M sc (put_command req) don respc n of
             (Some e, n') \<Rightarrow> (Inl (toStatus (nStatus n') shard e), n')
           | (None, n') \<Rightarrow> (Inr (), n'))"

definition svc_Delete ::
  "stateMachine StateMachine \<Rightarrow> u64 \<Rightarrow> schedule \<Rightarrow> nat \<Rightarrow> nat \<Rightarrow> DeleteRequest \<Rightarrow> stateMachine Node \<Rightarrow> (status + DeleteResponse) \<times> stateMachine Node" where
  "svc_Delete M shard sc don respc req n =
     (if delKey req = [] then (Inl (InvalidArgument ''key must not be empty''), n)
      else let existed = (sm_get (nSM n) (delKey req) \<noteq> None)
           in case Propose M sc (delete_command req) don respc n of
                (Some e, n') \<Rightarrow> (Inl (toStatus (nStatus n') shard e), n')
              | (None, n') \<Rightarrow> (Inr \<lparr>dExisted = existed\<rparr>, n'))"

text \<open>\<open>unsafeNoReadBarrier\<close> is a test hook that skips the barrier.\<close>

definition svc_Get ::
  "stateMachine StateMachine \<Rightarrow> u64 \<Rightarrow> bool \<Rightarrow> schedule \<Rightarrow> nat \<Rightarrow> GetRequest \<Rightarrow> stateMachine Node \<Rightarrow> (status + GetResponse) \<times> stateMachine Node" where
  "svc_Get M shard unsafeNoReadBarrier sc respc req n =
     (if getKey req = [] then (Inl (InvalidArgument ''key must not be empty''), n)
      else case (if unsafeNoReadBarrier then (None, n) else ReadBarrier M sc respc n) of
             (Some e, n') \<Rightarrow> (Inl (toStatus (nStatus n') shard e), n')
           | (None, n') \<Rightarrow> (Inr (get_response (sm_get (nSM n') (getKey req))), n'))"

subsection \<open>Leader hints\<close>

text \<open>\<open>leaderHint\<close> of \<^verbatim>\<open>cmd/cli/main.go\<close>: shard and address out of the message of a status.\<close>

fun hint_loop :: "string list \<Rightarrow> string \<times> string \<times> bool \<Rightarrow> string \<times> string \<times> bool" where
  "hint_loop [] r = r"
| "hint_loop (tok # toks) (shard, addr, ok) =
     hint_loop toks
       (if HasPrefix tok ''shard='' then (TrimPrefix tok ''shard='', addr, True)
        else if HasPrefix tok ''leader_addr='' then (shard, TrimPrefix tok ''leader_addr='', ok)
        else (shard, addr, ok))"

definition leaderHint :: "string \<Rightarrow> string \<times> string \<times> bool" where
  "leaderHint msg = hint_loop (Fields msg) ([], [], False)"

lemma Fields_hint:
  assumes "\<And>c. c \<in> set addr \<Longrightarrow> \<not> is_space c"
  shows "Fields (hint_text shard lid addr) =
    [''not'', ''leader;'', ''shard='' @ itoa (unat shard), ''leader_id='' @ itoa (unat lid), ''leader_addr='' @ addr]"
proof -
  have w: "is_space CHR '' ''" by (simp add: is_space_def)
  let ?l = "''leader_addr='' @ addr"
  have 5: "Fields ?l = [?l]" by (rule Fields_word(1)) (auto simp: assms, simp_all add: is_space_def)
  have 4: "Fields ((''leader_id='' @ itoa (unat lid)) @ CHR '' '' # ?l) = (''leader_id='' @ itoa (unat lid)) # Fields ?l"
    by (rule Fields_word(2) [OF _ _ w]) (auto, simp_all add: is_space_def)
  have 3: "Fields ((''shard='' @ itoa (unat shard)) @ CHR '' '' # r) = (''shard='' @ itoa (unat shard)) # Fields r" for r
    by (rule Fields_word(2) [OF _ _ w]) (auto, simp_all add: is_space_def)
  have 2: "Fields (''leader;'' @ CHR '' '' # r) = ''leader;'' # Fields r" for r
    by (rule Fields_word(2) [OF _ _ w]) (auto simp: is_space_def)
  have 1: "Fields (''not'' @ CHR '' '' # r) = ''not'' # Fields r" for r
    by (rule Fields_word(2) [OF _ _ w]) (auto simp: is_space_def)
  have "hint_text shard lid addr = ''not'' @ CHR '' '' # (''leader;'' @ CHR '' '' # ((''shard='' @ itoa (unat shard)) @ CHR '' '' #
      ((''leader_id='' @ itoa (unat lid)) @ CHR '' '' # ?l)))"
    by (simp add: hint_text_def)
  then show ?thesis by (simp only: 1 2 3 4 5)
qed

lemma leaderHint_text:
  assumes "\<And>c. c \<in> set addr \<Longrightarrow> \<not> is_space c"
  shows "leaderHint (hint_text shard lid addr) = (itoa (unat shard), addr, True)"
  unfolding leaderHint_def by (subst Fields_hint) (auto simp: HasPrefix_def TrimPrefix_def assms)

text \<open>C17. The hint comes across: what a client reads out of a rejection is the shard that rejected
  and the address the node has for the leader, for every address without white space.\<close>

theorem leaderHint_roundtrip:
  assumes "toStatus st shard (ErrNotLeader lid) = FailedPrecondition msg"
    and "\<forall>a c. map_of (stMembers st) lid = Some a \<longrightarrow> c \<in> set (str a) \<longrightarrow> \<not> is_space c"
  shows "leaderHint msg = (itoa (unat shard),
     (if lid = 0 then [] else case map_of (stMembers st) lid of None \<Rightarrow> [] | Some a \<Rightarrow> str a), True)"
proof -
  let ?a = "if lid = 0 then [] else case map_of (stMembers st) lid of None \<Rightarrow> [] | Some a \<Rightarrow> str a"
  have m: "msg = hint_text shard lid ?a"
    using assms(1) by (auto simp: toStatus_def str_def split: if_splits option.splits)
  have "\<not> is_space c" if "c \<in> set ?a" for c
    using assms(2) that by (cases "map_of (stMembers st) lid") (auto split: if_splits)
  then show ?thesis unfolding m by (rule leaderHint_text)
qed

theorem leaderHint_roundtrip_witness:
  "\<exists>msg. toStatus \<lparr>stID = 1, stGroup = 3, stTerm = 5, stLeaderID = 2, stIsLeader = False, stRole = follower,
      stCommitIndex = 0, stLastApplied = 0, stLastLogIndex = 0, stMembers = [(1, [97]), (2, [98, 58, 49])]\<rparr> 3 (ErrNotLeader 2)
        = FailedPrecondition msg \<and> leaderHint msg = (''3'', ''b:1'', True)"
proof -
  let ?st = "\<lparr>stID = 1, stGroup = 3, stTerm = 5, stLeaderID = 2, stIsLeader = False, stRole = follower,
      stCommitIndex = 0, stLastApplied = 0, stLastLogIndex = 0, stMembers = [(1, [97]), (2, [98, 58, 49])]\<rparr>"
  obtain msg where m: "toStatus ?st 3 (ErrNotLeader 2) = FailedPrecondition msg" by (simp add: toStatus_def Let_def)
  have s: "str [98, 58, 49] = ''b:1''" by code_simp
  have "leaderHint msg = (itoa 3, ''b:1'', True)"
    using leaderHint_roundtrip [OF m] by (simp add: s is_space_def)
  moreover have "itoa 3 = ''3''" by code_simp
  ultimately show ?thesis using m by auto
qed

end
