(* ===== verification/Sharding.thy ===== *)
theory Sharding
  imports KVService
begin

text \<open>
  \<^verbatim>\<open>internal/kvraft/sharding.go\<close>: the keyspace is partitioned over independent Raft groups by
  the FNV-1a hash of the key. The shard count is pinned in a file on first boot. Every shard
  has its own directory; here it has its own file system, the part of the disk below that
  directory. The shared ticker and the wait group only decide when events arrive.
\<close>

definition ShardFor :: "bytes \<Rightarrow> int \<Rightarrow> u64" where
  "ShardFor key shardCount = fnv1a64 key mod word_of_int shardCount"

subsection \<open>The pinned shard count\<close>

definition pinPath :: "string \<Rightarrow> path" where
  "pinPath dataRoot = (dataRoot, ''shards'')"

text \<open>\<open>os.WriteFile\<close>: create or truncate, write, close. Nothing is synced.\<close>

definition os_write_file :: "path \<Rightarrow> bytes \<Rightarrow> fs \<Rightarrow> err option \<times> fs" where
  "os_write_file p b s = and_then (os_create_trunc p s) (\<lambda>s1. and_then (os_write p b s1) os_noop)"

definition pinShardCount :: "string \<Rightarrow> int \<Rightarrow> fs \<Rightarrow> err option \<times> fs" where
  "pinShardCount dataRoot shardCount s =
     (case os_noop s of
        (Some e, s1) \<Rightarrow> (Some e, s1)
      | (None, s1) \<Rightarrow>
          (case os_read (pinPath dataRoot) s1 of
             (Inl ErrNotExist, s2) \<Rightarrow> os_write_file (pinPath dataRoot) (asc (itoa (nat shardCount))) s2
           | (Inl e, s2) \<Rightarrow> (Some e, s2)
           | (Inr b, s2) \<Rightarrow>
               (case Atoi (TrimSpace (str b)) of
                  None \<Rightarrow> (Some ErrShardPin, s2)
                | Some prev \<Rightarrow> if prev \<noteq> shardCount then (Some (ErrShardMismatch prev shardCount), s2) else (None, s2))))"

subsection \<open>A process with all shards\<close>

record ShardedServer =
  shards :: "stateMachine Node list"

text \<open>\<open>New\<close> of \<^verbatim>\<open>service.go\<close>: a node over a fresh state machine.\<close>

definition New :: "stateMachine StateMachine \<Rightarrow> Config \<Rightarrow> u64 \<Rightarrow> u64 \<Rightarrow> members option \<Rightarrow> nat list \<Rightarrow> fs \<Rightarrow> (err + stateMachine Node) \<times> fs" where
  "New M cf grp threshold peers draws s = NewNode M newStateMachine cf grp threshold peers draws s"

definition shardDir :: "string \<Rightarrow> nat \<Rightarrow> string" where
  "shardDir dataRoot g = dataRoot @ ''/shard-'' @ itoa g"

text \<open>The loop over the groups, from group \<open>g\<close> on, with one file system and one random source for
  each; a failure stops the nodes that are already up.\<close>

fun start_shards ::
  "stateMachine StateMachine \<Rightarrow> Config \<Rightarrow> u64 \<Rightarrow> members option \<Rightarrow> string \<Rightarrow> nat \<Rightarrow> (nat list \<times> fs) list \<Rightarrow> stateMachine Node list
     \<Rightarrow> err + stateMachine Node list" where
  "start_shards M base threshold peers dataRoot g [] up = Inr up"
| "start_shards M base threshold peers dataRoot g ((draws, s) # rest) up =
     (case os_noop s of
        (Some e, _) \<Rightarrow> Inl e
      | (None, s1) \<Rightarrow>
          (case New M (base\<lparr>DataDir := shardDir dataRoot g\<rparr>) (word_of_nat g) threshold peers draws s1 of
             (Inl e, _) \<Rightarrow> Inl e
           | (Inr n, _) \<Rightarrow> start_shards M base threshold peers dataRoot (Suc g) rest (up @ [n])))"

definition NewSharded ::
  "stateMachine StateMachine \<Rightarrow> Config \<Rightarrow> u64 \<Rightarrow> members option \<Rightarrow> int \<Rightarrow> string \<Rightarrow> (nat list \<times> fs) list \<Rightarrow> fs
     \<Rightarrow> (err + ShardedServer) \<times> fs" where
  "NewSharded M base threshold peers shardCount dataRoot disks s =
     (if shardCount < 1 then (Inl (ErrShardCount shardCount), s)
      else case pinShardCount dataRoot shardCount s of
             (Some e, s1) \<Rightarrow> (Inl e, s1)
           | (None, s1) \<Rightarrow>
               (case start_shards M base threshold peers dataRoot 0 (take (nat shardCount) disks) [] of
                  Inl e \<Rightarrow> (Inl e, s1)
                | Inr ns \<Rightarrow> (Inr \<lparr>shards = ns\<rparr>, s1)))"

text \<open>One tick of the shared clock.\<close>

definition tick_all :: "stateMachine StateMachine \<Rightarrow> ShardedServer \<Rightarrow> ShardedServer" where
  "tick_all M sv = sv\<lparr>shards := map (run_step M evTick) (shards sv)\<rparr>"

definition Nodes :: "ShardedServer \<Rightarrow> stateMachine service" where
  "Nodes sv = zip (map word_of_nat [0..<length (shards sv)]) (shards sv)"

definition sharded_Stop :: "ShardedServer \<Rightarrow> ShardedServer" where
  "sharded_Stop sv = sv\<lparr>shards := map Stop (shards sv)\<rparr>"

subsection \<open>Routing\<close>

definition shard_index :: "ShardedServer \<Rightarrow> bytes \<Rightarrow> nat" where
  "shard_index sv key = unat (ShardFor key (int (length (shards sv))))"

text \<open>Delegation to the shard of a key; an index out of range is a panic, shown as the error.\<close>

definition on_shard ::
  "bytes \<Rightarrow> (stateMachine Node \<Rightarrow> (status + 'a) \<times> stateMachine Node) \<Rightarrow> ShardedServer \<Rightarrow> (status + 'a) \<times> ShardedServer" where
  "on_shard key f sv =
     (if key = [] then (Inl (InvalidArgument ''key must not be empty''), sv)
      else let i = shard_index sv key
           in if length (shards sv) \<le> i then (Inl (Internal Panic), sv)
              else case f (shards sv ! i) of (r, n') \<Rightarrow> (r, sv\<lparr>shards := (shards sv)[i := n']\<rparr>))"

definition sharded_Put where
  "sharded_Put M sc don respc req sv =
     on_shard (putKey req) (\<lambda>n. svc_Put M (nGroup n) sc don respc req n) sv"

definition sharded_Get where
  "sharded_Get M unsafeNoReadBarrier sc respc req sv =
     on_shard (getKey req) (\<lambda>n. svc_Get M (nGroup n) unsafeNoReadBarrier sc respc req n) sv"

definition sharded_Delete where
  "sharded_Delete M sc don respc req sv =
     on_shard (delKey req) (\<lambda>n. svc_Delete M (nGroup n) sc don respc req n) sv"

subsection \<open>Properties\<close>

lemma ShardFor_less: "0 < n \<Longrightarrow> n < 2 ^ 63 \<Longrightarrow> unat (ShardFor key (int n)) < n"
proof -
  assume n: "0 < n" "n < 2 ^ 63"
  have u: "unat (word_of_nat n :: u64) = n" using n by (simp add: unat_of_nat)
  then have "0 < (word_of_nat n :: u64)" using n(1) by (simp add: word_less_nat_alt)
  then have "ShardFor key (int n) < word_of_nat n" unfolding ShardFor_def by (simp add: word_mod_less_divisor)
  then show ?thesis using u by (simp add: word_less_nat_alt)
qed

lemma pinned:
  assumes "lookup s (pinPath root) = Some f" "fdata f = asc (itoa n)" "faults s = []" "n < 2 ^ 63"
  shows "pinShardCount root m s = (if m = int n then None else Some (ErrShardMismatch (int n) m), s)"
  using assms by (simp add: pinShardCount_def os_noop_def os_read_def TrimSpace_id Atoi_itoa)

lemma os_write_file_lookup:
  assumes "faults s = []"
  shows "os_write_file p b s = (None, snd (os_write_file p b s))" "faults (snd (os_write_file p b s)) = []"
    "lookup (snd (os_write_file p b s)) q = (if q = p then Some \<lparr>fdata = b, fsynced = 0\<rparr> else lookup s q)"
  using assms by (simp_all add: os_write_file_def os_create_trunc_def os_write_def os_noop_def upd_file_def new_file_def)

lemma first_pin:
  assumes "lookup s (pinPath root) = None" "faults s = []"
  shows "pinShardCount root n s = (None, snd (os_write_file (pinPath root) (asc (itoa (nat n))) s))"
  using assms os_write_file_lookup(1) [OF assms(2)] by (simp add: pinShardCount_def os_noop_def os_read_def)

text \<open>C13. The pinned shard count: on a data directory without a pin the first boot succeeds, and from
  then on exactly the boots with the same count do; a different count is refused and leaves
  the disk alone.\<close>

theorem shard_count_is_pinned:
  assumes "lookup s (pinPath root) = None" "faults s = []" "0 < n" "n < 2 ^ 63"
  shows "\<exists>s'. pinShardCount root n s = (None, s') \<and>
    (\<forall>m. pinShardCount root m s' = (if m = n then None else Some (ErrShardMismatch n m), s'))"
proof -
  let ?s = "snd (os_write_file (pinPath root) (asc (itoa (nat n))) s)"
  have "pinShardCount root m ?s = (if m = int (nat n) then None else Some (ErrShardMismatch (int (nat n)) m), ?s)" for m
    using os_write_file_lookup [OF assms(2)] assms(4) by (intro pinned) auto
  then show ?thesis using first_pin [OF assms(1,2)] assms(3) by auto
qed

theorem shard_count_is_pinned_witness:
  "\<exists>s'. pinShardCount ''data'' 4 \<lparr>files = [], faults = [], windows = False\<rparr> = (None, s') \<and>
     pinShardCount ''data'' 8 s' = (Some (ErrShardMismatch 4 8), s')"
proof -
  obtain s' where "pinShardCount ''data'' 4 \<lparr>files = [], faults = [], windows = False\<rparr> = (None, s')"
    "\<forall>m. pinShardCount ''data'' m s' = (if m = 4 then None else Some (ErrShardMismatch 4 m), s')"
    using shard_count_is_pinned [of "\<lparr>files = [], faults = [], windows = False\<rparr>" "''data''" 4] by (auto simp: lookup_def)
  then show ?thesis by auto
qed

text \<open>C25. The pin itself is not durable: it is written without a sync, so a machine crash right after
  the first boot can leave an empty pin, with which no shard count is accepted any more.\<close>

theorem shard_pin_lost_in_crash:
  assumes "lookup s (pinPath root) = None" "faults s = []"
  shows "\<exists>s'. pinShardCount root n s = (None, s') \<and>
    (\<forall>m. fst (pinShardCount root m (crash (\<lambda>_. 0) s')) = Some ErrShardPin)"
proof -
  let ?s = "snd (os_write_file (pinPath root) (asc (itoa (nat n))) s)"
  have "lookup (crash (\<lambda>_. 0) ?s) (pinPath root) = Some \<lparr>fdata = [], fsynced = 0\<rparr>"
    using os_write_file_lookup(3) [OF assms(2)] by (simp add: lookup_crash)
  then have "fst (pinShardCount root m (crash (\<lambda>_. 0) ?s)) = Some ErrShardPin" for m
    by (simp add: pinShardCount_def os_noop_def os_read_def str_def TrimSpace_def Atoi_def HasPrefix_def)
  then show ?thesis using first_pin [OF assms] by blast
qed

theorem shard_pin_lost_in_crash_witness:
  "\<exists>s'. pinShardCount ''data'' 4 \<lparr>files = [], faults = [], windows = False\<rparr> = (None, s') \<and>
     fst (pinShardCount ''data'' 4 (crash (\<lambda>_. 0) s')) = Some ErrShardPin"
  using shard_pin_lost_in_crash [of "\<lparr>files = [], faults = [], windows = False\<rparr>" "''data''" 4] by (auto simp: lookup_def)

text \<open>What a client of the sharded service sees: for every key the map of its shard.\<close>

definition sharded_view :: "stateMachine list \<Rightarrow> kv" where
  "sharded_view sms key = sm_get (sms ! unat (ShardFor key (int (length sms)))) key"

text \<open>C12. The shards together are one map: a command that is committed in the group its key hashes to
  changes the view of all keys exactly as it would change a single map, and the group exists.\<close>

theorem sharded_view_refines_map:
  assumes "sms \<noteq> []" "length sms < 2 ^ 63" "\<forall>sm \<in> set sms. sm_wf sm"
    and "i = unat (ShardFor (cKey cmd) (int (length sms)))" "carries b c s cmd" "fresh (sms ! i) c s"
  shows "i < length sms \<and> sharded_view (sms[i := Apply x b (sms ! i)]) = kv_apply cmd (sharded_view sms)"
proof -
  have i: "i < length sms" using ShardFor_less [of "length sms" "cKey cmd"] assms(1,2,4) by simp
  then have wf: "sm_wf (sms ! i)" using assms(3) by simp
  have g: "sm_get (Apply x b (sms ! i)) = kv_apply cmd (sm_get (sms ! i))"
    by (rule Apply_takes_effect(1) [OF assms(5,6) wf])
  have "sharded_view (sms[i := Apply x b (sms ! i)]) k = kv_apply cmd (sharded_view sms) k" for k
  proof (cases "unat (ShardFor k (int (length sms))) = i")
    case True
    then show ?thesis using g i by (auto simp: sharded_view_def kv_apply_def split: Op.splits)
  next
    case False
    then have "k \<noteq> cKey cmd" using assms(4) by auto
    then show ?thesis using False by (auto simp: sharded_view_def kv_apply_def split: Op.splits)
  qed
  then show ?thesis using i by auto
qed

theorem sharded_view_refines_map_witness:
  "let cmd = \<lparr>cOp = OpPut, cKey = [107], cValue = [118]\<rparr>; sms = [newStateMachine, newStateMachine];
       b = kv_encodeCommand \<lparr>clientID = 0, serial = 0, inner = EncodeCommand cmd\<rparr>; i = unat (ShardFor [107] 2)
   in sharded_view (sms[i := Apply 1 b (sms ! i)]) [107] = Some [118]"
proof -
  let ?cmd = "\<lparr>cOp = OpPut, cKey = [107], cValue = [118]\<rparr>" and ?sms = "[newStateMachine, newStateMachine]"
  let ?b = "kv_encodeCommand \<lparr>clientID = 0, serial = 0, inner = EncodeCommand ?cmd\<rparr>"
  have c: "carries ?b 0 0 ?cmd" by (rule parsed_encode) (simp add: cmd_ok_def)
  have "sharded_view (?sms[unat (ShardFor (cKey ?cmd) (int (length ?sms))) := Apply 1 ?b (?sms ! unat (ShardFor (cKey ?cmd) (int (length ?sms))))])
      = kv_apply ?cmd (sharded_view ?sms)"
    using sharded_view_refines_map [OF _ _ _ refl c, of ?sms 1] by (simp add: fresh_def)
  then show ?thesis by (simp add: Let_def kv_apply_def)
qed

text \<open>A request is never routed outside of the running shards, and changes only the shard of its key.\<close>

lemma on_shard_isolated:
  assumes "0 < length (shards sv)" "length (shards sv) < 2 ^ 63" "key \<noteq> []"
  shows "on_shard key f sv = (case f (shards sv ! shard_index sv key) of (r, n) \<Rightarrow> (r, sv\<lparr>shards := (shards sv)[shard_index sv key := n]\<rparr>))"
    and "j \<noteq> shard_index sv key \<Longrightarrow> shards (snd (on_shard key f sv)) ! j = shards sv ! j"
proof -
  have "shard_index sv key < length (shards sv)"
    unfolding shard_index_def by (rule ShardFor_less [OF assms(1,2)])
  then show e: "on_shard key f sv = (case f (shards sv ! shard_index sv key) of (r, n) \<Rightarrow> (r, sv\<lparr>shards := (shards sv)[shard_index sv key := n]\<rparr>))"
    using assms(3) by (simp add: on_shard_def Let_def)
  show "j \<noteq> shard_index sv key \<Longrightarrow> shards (snd (on_shard key f sv)) ! j = shards sv ! j"
    unfolding e by (simp split: prod.splits)
qed

end
