(* ===== verification/ServerMain.thy ===== *)
theory ServerMain
  imports KVServer Sharding
begin

text \<open>
  \<^verbatim>\<open>cmd/server/main.go\<close>: the two ways to run a node, and the member list of the command line.
  Flags arrive parsed; listening, serving and signals are not modelled.
\<close>

fun parse_parts :: "string list \<Rightarrow> members \<Rightarrow> err + members" where
  "parse_parts [] m = Inr m"
| "parse_parts (p # ps) m =
     (let part = TrimSpace p
      in if part = [] then parse_parts ps m
         else case IndexByte part CHR ''@'' of
                None \<Rightarrow> Inl (ErrMemberSpec part)
              | Some n \<Rightarrow>
                  (case ParseUint (take n part) of
                     None \<Rightarrow> Inl (ErrMemberID part)
                   | Some pid \<Rightarrow> parse_parts ps (AList.update pid (asc (drop (n + 1) part)) m)))"

definition parseMembers :: "string \<Rightarrow> u64 \<Rightarrow> string \<Rightarrow> err + members" where
  "parseMembers spec selfID selfAddr =
     (if TrimSpace spec = [] then Inr [(selfID, asc selfAddr)]
      else case parse_parts (Split spec CHR '','') [] of
             Inl e \<Rightarrow> Inl e
           | Inr m \<Rightarrow> if map_of m selfID = None then Inl (ErrSelfMissing selfID) else Inr m)"

definition runStandalone :: "string \<Rightarrow> int \<Rightarrow> fs \<Rightarrow> (err + DurableStore) \<times> fs" where
  "runStandalone dataDir snapThreshold s = Open dataDir snapThreshold s"

text \<open>The transport starts out with the addresses of all members.\<close>

definition cluster_config :: "u64 \<Rightarrow> members \<Rightarrow> Config" where
  "cluster_config i m =
     \<lparr>ID = i, PeerIDs = [], Members = Some m, DataDir = [], ElectionTicksMin = 10, ElectionTicksMax = 20,
      HeartbeatTicks = 3, DisablePreVote = False\<rparr>"

definition runCluster ::
  "stateMachine StateMachine \<Rightarrow> u64 \<Rightarrow> string \<Rightarrow> members \<Rightarrow> int \<Rightarrow> u64 \<Rightarrow> (nat list \<times> fs) list \<Rightarrow> fs \<Rightarrow> (err + ShardedServer) \<times> fs" where
  "runCluster M i dataDir m shardCount compactAt disks s =
     NewSharded M (cluster_config i m) compactAt (Some m) shardCount dataDir disks s"

datatype server = Standalone DurableStore | Cluster ShardedServer

definition server_main ::
  "stateMachine StateMachine \<Rightarrow> u64 \<Rightarrow> string \<Rightarrow> string \<Rightarrow> string \<Rightarrow> int \<Rightarrow> int \<Rightarrow> u64 \<Rightarrow> (nat list \<times> fs) list \<Rightarrow> fs
     \<Rightarrow> (err + server) \<times> fs" where
  "server_main M i listenAddr peers dataDir snapThreshold shardCount compactAt disks s =
     (if TrimSpace peers = [] then (case runStandalone dataDir snapThreshold s of (r, s') \<Rightarrow> (map_sum id Standalone r, s'))
      else case parseMembers peers i listenAddr of
             Inl e \<Rightarrow> (Inl e, s)
           | Inr m \<Rightarrow> (case runCluster M i dataDir m shardCount compactAt disks s of (r, s') \<Rightarrow> (map_sum id Cluster r, s')))"

subsection \<open>The member list\<close>

text \<open>How a member list is written on the command line.\<close>

definition member_text :: "u64 \<times> string \<Rightarrow> string" where
  "member_text m = itoa (unat (fst m)) @ CHR ''@'' # snd m"

fun join :: "string list \<Rightarrow> string" where
  "join [] = []"
| "join [x] = x"
| "join (x # y # r) = x @ CHR '','' # join (y # r)"

lemma Split_join: "xs \<noteq> [] \<Longrightarrow> \<forall>x \<in> set xs. CHR '','' \<notin> set x \<Longrightarrow> Split (join xs) CHR '','' = xs"
  by (induction xs rule: join.induct) (auto simp: Split_word Split_append)

definition addr_ok :: "string \<Rightarrow> bool" where
  "addr_ok a \<longleftrightarrow> (\<forall>c \<in> set a. \<not> is_space c \<and> c \<noteq> CHR '','')"

lemma itoa_not: "c \<in> set (itoa n) \<Longrightarrow> c \<noteq> CHR '','' \<and> c \<noteq> CHR ''@''"
  using itoa_chars [of c n] by auto

lemma member_text_chars:
  assumes "addr_ok a" "c \<in> set (member_text (i, a))" shows "\<not> is_space c \<and> c \<noteq> CHR '',''"
proof -
  have "c \<in> set (itoa (unat i)) \<or> c = CHR ''@'' \<or> c \<in> set a" using assms(2) by (auto simp: member_text_def)
  then show ?thesis
  proof (elim disjE)
    assume "c \<in> set (itoa (unat i))"
    then show ?thesis using itoa_not itoa_no_space by blast
  next
    assume "c = CHR ''@''"
    then show ?thesis by (simp add: is_space_def)
  next
    assume "c \<in> set a"
    then show ?thesis using assms(1) by (simp add: addr_ok_def)
  qed
qed

lemma set_join: "c \<in> set (join xs) \<Longrightarrow> c = CHR '','' \<or> (\<exists>x \<in> set xs. c \<in> set x)"
  by (induction xs rule: join.induct) auto

lemma join_not_Nil: "xs \<noteq> [] \<Longrightarrow> \<forall>x \<in> set xs. x \<noteq> [] \<Longrightarrow> join xs \<noteq> []"
  by (induction xs rule: join.induct) auto

lemma parse_member:
  assumes "addr_ok a"
  shows "parse_parts (member_text (i, a) # ps) m = parse_parts ps (AList.update i (asc a) m)"
proof -
  have n: "CHR ''@'' \<notin> set (itoa (unat i))" using itoa_not by blast
  have t: "TrimSpace (member_text (i, a)) = member_text (i, a)"
    using member_text_chars [OF assms] by (intro TrimSpace_id) blast
  have p: "ParseUint (itoa (unat i)) = Some i" using ParseUint_itoa [of "unat i"] unat_u64_less [of i] by simp
  have "IndexByte (member_text (i, a)) CHR ''@'' = Some (length (itoa (unat i)))"
    unfolding member_text_def using IndexByte_append [OF n] by simp
  then show ?thesis using p by (simp add: t Let_def) (simp add: member_text_def)
qed

lemma parse_members_all:
  "\<forall>(i, a) \<in> set ms. addr_ok a \<Longrightarrow> distinct (keys ms) \<Longrightarrow> set (keys m) \<inter> set (keys ms) = {} \<Longrightarrow>
   parse_parts (map member_text ms) m = Inr (m @ map (\<lambda>(i, a). (i, asc a)) ms)"
proof (induction ms arbitrary: m)
  case (Cons x ms)
  obtain i a where x: "x = (i, a)" by force
  have "AList.update i (asc a) m = m @ [(i, asc a)]" using Cons.prems(3) x by (induction m) auto
  then show ?case using Cons x by (simp add: parse_member del: parse_parts.simps(2))
qed simp

text \<open>C19. The member list of the command line: a list of different ids with addresses without blanks and
  commas, this node among them, is read back as that table.\<close>

theorem members_roundtrip:
  assumes "ms \<noteq> []" "distinct (keys ms)" "\<forall>(i, a) \<in> set ms. addr_ok a" "selfID \<in> set (keys ms)"
  shows "parseMembers (join (map member_text ms)) selfID selfAddr = Inr (map (\<lambda>(i, a). (i, asc a)) ms)"
proof -
  let ?spec = "join (map member_text ms)"
  have c: "\<not> is_space c \<and> c \<noteq> CHR '',''" if "x \<in> set (map member_text ms)" "c \<in> set x" for x c
  proof -
    obtain i a where x: "(i, a) \<in> set ms" "x = member_text (i, a)" using \<open>x \<in> set (map member_text ms)\<close> by auto
    then have "addr_ok a" using assms(3) by blast
    then show ?thesis using member_text_chars \<open>c \<in> set x\<close> x(2) by blast
  qed
  have s: "Split ?spec CHR '','' = map member_text ms" using Split_join [of "map member_text ms"] assms(1) c by blast
  have "\<not> is_space d" if "d \<in> set ?spec" for d
    using set_join [OF that] c by (auto simp: is_space_def)
  then have t: "TrimSpace ?spec = ?spec" by (rule TrimSpace_id)
  have "?spec \<noteq> []" using assms(1) by (intro join_not_Nil) (auto simp: member_text_def)
  moreover have "selfID \<in> set (keys (map (\<lambda>(i, a). (i, asc a)) ms))" using assms(4) by force
  then have "map_of (map (\<lambda>(i, a). (i, asc a)) ms) selfID \<noteq> None" by (simp only: map_of_eq_None_iff set_map not_not)
  ultimately show ?thesis
    unfolding parseMembers_def t s using parse_members_all [OF assms(3,2), of "[]"] by simp
qed

theorem members_roundtrip_witness:
  "parseMembers (join (map member_text [(1, ''a:1''), (2, ''b:2'')])) 2 ''b:2'' = Inr [(1, asc ''a:1''), (2, asc ''b:2'')]"
  using members_roundtrip [of "[(1, ''a:1''), (2, ''b:2'')]" 2 "''b:2''"] by (simp add: addr_ok_def is_space_def)

end
