(* ===== verification/Transport.thy ===== *)
theory Transport
  imports RaftNode
begin

text \<open>
  \<^verbatim>\<open>internal/raft/transport.go\<close>: the table of peer addresses and the connections dialed lazily, one
  per peer. A connection is what it was dialed with, its address. \<open>grpc.NewClient\<close> is a
  parameter that accepts an address or fails. The RPC itself is a parameter as well: what the
  peer at an address answers.
\<close>

record GRPCTransport =
  addrs :: "(u64 \<times> bytes) list"
  conns :: "(u64 \<times> bytes) list"

definition NewGRPCTransport :: "(u64 \<times> bytes) list \<Rightarrow> GRPCTransport" where
  "NewGRPCTransport m = \<lparr>addrs = m, conns = []\<rparr>"

text \<open>\<open>t.addrs[id]\<close> of an absent peer is the empty string. Closing a connection drops it.\<close>

definition SetPeer :: "u64 \<Rightarrow> bytes \<Rightarrow> GRPCTransport \<Rightarrow> GRPCTransport" where
  "SetPeer i a t =
     (if (case map_of (addrs t) i of None \<Rightarrow> [] | Some b \<Rightarrow> b) = a then t
      else t\<lparr>addrs := AList.update i a (addrs t), conns := AList.delete i (conns t)\<rparr>)"

definition RemovePeer :: "u64 \<Rightarrow> GRPCTransport \<Rightarrow> GRPCTransport" where
  "RemovePeer i t = t\<lparr>addrs := AList.delete i (addrs t), conns := AList.delete i (conns t)\<rparr>"

definition transport_Close :: "GRPCTransport \<Rightarrow> GRPCTransport" where
  "transport_Close t = t\<lparr>conns := []\<rparr>"

text \<open>\<open>client\<close> takes two critical sections: a look at the connections, and when there is none a
  second look with the right to dial. Other calls may come in between.\<close>

definition client_fast :: "u64 \<Rightarrow> GRPCTransport \<Rightarrow> bytes option" where
  "client_fast i t = map_of (conns t) i"

definition client_slow :: "(bytes \<Rightarrow> err option) \<Rightarrow> u64 \<Rightarrow> GRPCTransport \<Rightarrow> (err + bytes) \<times> GRPCTransport" where
  "client_slow newClient i t =
     (case map_of (conns t) i of
        Some c \<Rightarrow> (Inr c, t)
      | None \<Rightarrow>
          (case map_of (addrs t) i of
             None \<Rightarrow> (Inl (ErrNoAddress i), t)
           | Some a \<Rightarrow>
               (case newClient a of
                  Some e \<Rightarrow> (Inl e, t)
                | None \<Rightarrow> (Inr a, t\<lparr>conns := AList.update i a (conns t)\<rparr>))))"

definition client :: "(bytes \<Rightarrow> err option) \<Rightarrow> u64 \<Rightarrow> GRPCTransport \<Rightarrow> (err + bytes) \<times> GRPCTransport" where
  "client newClient i t = (case client_fast i t of Some c \<Rightarrow> (Inr c, t) | None \<Rightarrow> client_slow newClient i t)"

text \<open>The four RPCs: find the client, then call the peer behind its address.\<close>

definition transport_call ::
  "(bytes \<Rightarrow> err option) \<Rightarrow> (bytes \<Rightarrow> 'req \<Rightarrow> err + 'resp) \<Rightarrow> u64 \<Rightarrow> 'req \<Rightarrow> GRPCTransport \<Rightarrow> (err + 'resp) \<times> GRPCTransport" where
  "transport_call newClient peer i req t =
     (case client newClient i t of (Inl e, t') \<Rightarrow> (Inl e, t') | (Inr a, t') \<Rightarrow> (peer a req, t'))"

definition transport_RequestVote ::
  "(bytes \<Rightarrow> err option) \<Rightarrow> (bytes \<Rightarrow> RequestVoteRequest \<Rightarrow> err + RequestVoteResponse) \<Rightarrow> u64 \<Rightarrow> RequestVoteRequest \<Rightarrow> GRPCTransport
     \<Rightarrow> (err + RequestVoteResponse) \<times> GRPCTransport" where
  "transport_RequestVote = transport_call"

definition transport_AppendEntries ::
  "(bytes \<Rightarrow> err option) \<Rightarrow> (bytes \<Rightarrow> AppendEntriesRequest \<Rightarrow> err + AppendEntriesResponse) \<Rightarrow> u64 \<Rightarrow> AppendEntriesRequest \<Rightarrow> GRPCTransport
     \<Rightarrow> (err + AppendEntriesResponse) \<times> GRPCTransport" where
  "transport_AppendEntries = transport_call"

definition transport_InstallSnapshot ::
  "(bytes \<Rightarrow> err option) \<Rightarrow> (bytes \<Rightarrow> InstallSnapshotRequest \<Rightarrow> err + InstallSnapshotResponse) \<Rightarrow> u64 \<Rightarrow> InstallSnapshotRequest \<Rightarrow> GRPCTransport
     \<Rightarrow> (err + InstallSnapshotResponse) \<times> GRPCTransport" where
  "transport_InstallSnapshot = transport_call"

definition transport_TimeoutNow ::
  "(bytes \<Rightarrow> err option) \<Rightarrow> (bytes \<Rightarrow> TimeoutNowRequest \<Rightarrow> err + unit) \<Rightarrow> u64 \<Rightarrow> TimeoutNowRequest \<Rightarrow> GRPCTransport
     \<Rightarrow> (err + unit) \<times> GRPCTransport" where
  "transport_TimeoutNow = transport_call"

subsection \<open>Calls go to the configured address\<close>

text \<open>The calls on a transport as a step relation; the two sections of \<open>client\<close> are steps of their
  own, so that anything may come between them.\<close>

inductive transport_step :: "(bytes \<Rightarrow> err option) \<Rightarrow> GRPCTransport \<Rightarrow> GRPCTransport \<Rightarrow> bool" for newClient where
  set: "transport_step newClient t (SetPeer i a t)"
| remove: "transport_step newClient t (RemovePeer i t)"
| close: "transport_step newClient t (transport_Close t)"
| dial: "client_slow newClient i t = (r, t') \<Longrightarrow> transport_step newClient t t'"

inductive transport_reach :: "(bytes \<Rightarrow> err option) \<Rightarrow> GRPCTransport \<Rightarrow> bool" for newClient where
  new: "transport_reach newClient (NewGRPCTransport m)"
| step: "transport_reach newClient t \<Longrightarrow> transport_step newClient t t' \<Longrightarrow> transport_reach newClient t'"

definition conns_match :: "GRPCTransport \<Rightarrow> bool" where
  "conns_match t \<longleftrightarrow> (\<forall>i a. map_of (conns t) i = Some a \<longrightarrow> map_of (addrs t) i = Some a)"

lemma conns_match_reach: "transport_reach newClient t \<Longrightarrow> conns_match t"
proof (induction rule: transport_reach.induct)
  case (step t t')
  from step.hyps(2) step.IH show ?case
  proof (cases rule: transport_step.cases)
    case (dial i r)
    then show ?thesis using step.IH
      by (auto simp: client_slow_def conns_match_def update_conv split: option.splits prod.splits if_splits)
  qed (auto simp: conns_match_def SetPeer_def RemovePeer_def transport_Close_def update_conv' delete_conv' split: if_splits)
qed (simp add: conns_match_def NewGRPCTransport_def)

text \<open>C20. An RPC never uses a stale connection: whatever address changes, removals, closes and racing
  dials came before, a call to a peer reaches the address the table has for it now, and a
  peer that is not in the table is not reached at all.\<close>

theorem calls_use_current_address:
  assumes "transport_reach newClient t"
  shows "fst (transport_call newClient peer i req t) =
    (case map_of (addrs t) i of
       None \<Rightarrow> Inl (ErrNoAddress i)
     | Some a \<Rightarrow> if map_of (conns t) i = None \<and> newClient a \<noteq> None then Inl (the (newClient a)) else peer a req)"
  using conns_match_reach [OF assms] unfolding conns_match_def transport_call_def client_def client_fast_def client_slow_def
  by (cases "map_of (conns t) i"; cases "map_of (addrs t) i") (auto split: option.splits)

theorem calls_use_current_address_witness:
  "fst (transport_call (\<lambda>_. None) (\<lambda>a r. Inr (a @ r)) 2 [1] (SetPeer 2 [99] (snd (client_slow (\<lambda>_. None) 2 (NewGRPCTransport [(2, [98])])))))
     = Inr [99, 1]"
proof -
  let ?n = "\<lambda>_. None" and ?t0 = "NewGRPCTransport [(2, [98])]"
  let ?t1 = "snd (client_slow ?n 2 ?t0)" and ?t2 = "SetPeer 2 [99] (snd (client_slow (\<lambda>_. None) 2 (NewGRPCTransport [(2, [98])])))"
  have "transport_step ?n ?t0 ?t1" by (rule transport_step.dial [OF prod.collapse [symmetric]])
  then have "transport_reach ?n ?t2" by (intro transport_reach.step [OF _ transport_step.set] transport_reach.step [OF transport_reach.new])
  then show ?thesis using calls_use_current_address [of ?n ?t2 "\<lambda>a r. Inr (a @ r)" 2 "[1]"]
    by (simp add: SetPeer_def client_slow_def NewGRPCTransport_def)
qed

end
