(* ===== verification/Cli.thy ===== *)
theory Cli
  imports KVService
begin

text \<open>
  \<^verbatim>\<open>cmd/cli/main.go\<close>: the client that follows leader hints. The cluster is a parameter: what the
  attempt with a given number is answered at a given address, an error being the message of
  its gRPC status. The deadline is the number of attempts that fit before it. Sleeping and
  printing to the terminal are not modelled beyond the text that is printed.
\<close>

record leaderClient =
  lcConns :: "string list"
  lcOrder :: "string list"
  lcCur :: string
  lcShardLeader :: "(string \<times> string) list"
  lcOpShard :: string

text \<open>The set-up in \<open>run\<close>: \<open>dial\<close> says which addresses \<open>grpc.NewClient\<close> refuses.\<close>

definition newClient :: "(string \<Rightarrow> bool) \<Rightarrow> string \<Rightarrow> leaderClient option" where
  "newClient dial addr =
     (let addrs = Split addr CHR '',''
      in if \<forall>a \<in> set addrs. dial (TrimSpace a)
         then Some \<lparr>lcConns = map TrimSpace addrs, lcOrder = addrs, lcCur = TrimSpace (addrs ! 0), lcShardLeader = [], lcOpShard = []\<rparr>
         else None)"

definition next_addr :: "leaderClient \<Rightarrow> string \<Rightarrow> string" where
  "next_addr c cur = cycle_next (map TrimSpace (lcOrder c)) cur"

definition pick_addr :: "leaderClient \<Rightarrow> string" where
  "pick_addr c =
     (case map_of (lcShardLeader c) (lcOpShard c) of
        Some a \<Rightarrow> if lcOpShard c \<noteq> [] \<and> a \<in> set (lcConns c) then a else lcCur c
      | None \<Rightarrow> lcCur c)"

text \<open>What a failed attempt at \<open>try\<close> leaves. \<open>c.shardLeader[shard]\<close> of an unknown shard is the empty
  string.\<close>

definition after_error :: "string \<Rightarrow> string \<Rightarrow> leaderClient \<Rightarrow> leaderClient" where
  "after_error try msg c =
     (case leaderHint msg of (shard, addr, ok) \<Rightarrow>
        if ok then
          let cached = (case map_of (lcShardLeader c) shard of None \<Rightarrow> [] | Some a \<Rightarrow> a);
              leaders = (if try = cached then AList.delete shard (lcShardLeader c) else lcShardLeader c);
              c1 = c\<lparr>lcOpShard := shard, lcShardLeader := leaders\<rparr>
          in if addr \<noteq> [] \<and> addr \<in> set (lcConns c) then c1\<lparr>lcShardLeader := AList.update shard addr leaders\<rparr>
             else c1\<lparr>lcCur := next_addr c1 try\<rparr>
        else c\<lparr>lcCur := next_addr c try\<rparr>)"

fun retry :: "(nat \<Rightarrow> string \<Rightarrow> string + 'r) \<Rightarrow> nat \<Rightarrow> nat \<Rightarrow> string option \<Rightarrow> leaderClient \<Rightarrow> (string option + 'r) \<times> leaderClient" where
  "retry call n 0 lastErr c = (Inl lastErr, c)"
| "retry call n (Suc left) lastErr c =
     (case call n (pick_addr c) of
        Inr r \<Rightarrow> (Inr r, c\<lparr>lcCur := pick_addr c\<rparr>)
      | Inl msg \<Rightarrow> retry call (Suc n) left (Some msg) (after_error (pick_addr c) msg c))"

subsection \<open>The commands\<close>

datatype kv_call = CallPut PutRequest | CallGet GetRequest | CallDelete DeleteRequest

datatype kv_reply = PutReply | GetReply GetResponse | DeleteReply DeleteResponse

text \<open>An exit code with what goes to standard output and to standard error.\<close>

record cli_result =
  exit_code :: int
  out :: bytes
  errors :: string

definition usageError :: "string \<Rightarrow> cli_result" where
  "usageError msg = \<lparr>exit_code = 2, out = [], errors = msg\<rparr>"

definition rpcError :: "string \<Rightarrow> cli_result" where
  "rpcError msg = \<lparr>exit_code = 1, out = [], errors = msg\<rparr>"

definition ok_result :: "bytes \<Rightarrow> cli_result" where
  "ok_result b = \<lparr>exit_code = 0, out = b @ [10], errors = []\<rparr>"

text \<open>\<open>run\<close>. When no attempt fits before the deadline \<open>retry\<close> returns a nil error, and the command
  goes on with an empty response.\<close>

definition run ::
  "(string \<Rightarrow> bool) \<Rightarrow> (kv_call \<Rightarrow> nat \<Rightarrow> string \<Rightarrow> string + kv_reply) \<Rightarrow> nat \<Rightarrow> string \<Rightarrow> u64 \<Rightarrow> u64 \<Rightarrow> string list \<Rightarrow> cli_result" where
  "run dial api fuel addr cid ser args =
     (case args of
        [] \<Rightarrow> usageError []
      | cmd # rest \<Rightarrow>
          (case newClient dial addr of
             None \<Rightarrow> rpcError ''dial''
           | Some c \<Rightarrow>
               if cmd = ''put'' then
                 (if length rest \<noteq> 2 then usageError ''put needs exactly <key> <value>''
                  else case fst (retry (api (CallPut \<lparr>putKey = asc (rest ! 0), putValue = asc (rest ! 1), putClientId = cid, putSerial = ser\<rparr>)) 0 fuel None c) of
                         Inl (Some e) \<Rightarrow> rpcError e
                       | _ \<Rightarrow> ok_result (asc ''OK''))
               else if cmd = ''get'' then
                 (if length rest \<noteq> 1 then usageError ''get needs exactly <key>''
                  else case fst (retry (api (CallGet \<lparr>getKey = asc (rest ! 0)\<rparr>)) 0 fuel None c) of
                         Inl (Some e) \<Rightarrow> rpcError e
                       | Inr (GetReply r) \<Rightarrow> if gFound r then ok_result (gValue r) else rpcError ''key not found''
                       | _ \<Rightarrow> rpcError ''key not found'')
               else if cmd = ''delete'' then
                 (if length rest \<noteq> 1 then usageError ''delete needs exactly <key>''
                  else case fst (retry (api (CallDelete \<lparr>delKey = asc (rest ! 0), delClientId = cid, delSerial = ser\<rparr>)) 0 fuel None c) of
                         Inl (Some e) \<Rightarrow> rpcError e
                       | Inr (DeleteReply r) \<Rightarrow> ok_result (asc (if dExisted r then ''deleted'' else ''key did not exist''))
                       | _ \<Rightarrow> ok_result (asc ''key did not exist''))
               else usageError (''unknown command '' @ cmd)))"

subsection \<open>Properties\<close>

text \<open>A client in order: what it would call next, and every cached leader it would use, is dialed.\<close>

definition client_ok :: "leaderClient \<Rightarrow> bool" where
  "client_ok c \<longleftrightarrow> lcOrder c \<noteq> [] \<and> lcConns c = map TrimSpace (lcOrder c) \<and> lcCur c \<in> set (lcConns c)"

lemma newClient_ok: "newClient dial addr = Some c \<Longrightarrow> client_ok c"
  by (auto simp: newClient_def client_ok_def Let_def split: if_splits)

lemma pick_addr_dialed: "client_ok c \<Longrightarrow> pick_addr c \<in> set (lcConns c)"
  by (auto simp: pick_addr_def client_ok_def split: option.splits)

lemma after_error_frame: "lcOrder (after_error a msg c) = lcOrder c" "lcConns (after_error a msg c) = lcConns c"
  by (auto simp: after_error_def Let_def split: prod.splits)

lemma after_error_ok: "client_ok c \<Longrightarrow> client_ok (after_error a msg c)"
  using cycle_next_in [of "map TrimSpace (lcOrder c)"]
  by (auto simp: client_ok_def after_error_def next_addr_def Let_def split: prod.splits)

text \<open>One rejection touches the cached leader of the shard it names and of no other.\<close>

lemma after_error_other_shards:
  "leaderHint msg = (shard, addr, ok) \<Longrightarrow> s \<noteq> shard \<Longrightarrow> map_of (lcShardLeader (after_error a msg c)) s = map_of (lcShardLeader c) s"
  by (auto simp: after_error_def Let_def update_conv' delete_conv')

lemma cycle_iterate: "distinct xs \<Longrightarrow> i < length xs \<Longrightarrow> (cycle_next xs ^^ d) (xs ! i) = xs ! ((i + d) mod length xs)"
proof (induction d)
  case (Suc d)
  have "(i + d) mod length xs < length xs" using Suc.prems(2) by (intro mod_less_divisor) linarith
  then show ?case using Suc by (simp add: cycle_next_nth mod_Suc_eq)
qed simp

lemma cycle_reaches:
  assumes "distinct xs" "x \<in> set xs" "y \<in> set xs" shows "\<exists>d < length xs. (cycle_next xs ^^ d) x = y"
proof -
  obtain i j where ij: "i < length xs" "xs ! i = x" "j < length xs" "xs ! j = y" using assms(2,3) by (auto simp: in_set_conv_nth)
  let ?d = "(j + length xs - i) mod length xs"
  have "(i + ?d) mod length xs = (i + (j + length xs - i)) mod length xs" by (rule mod_add_right_eq)
  also have "\<dots> = j" using ij by simp
  finally have "(cycle_next xs ^^ ?d) x = y" using cycle_iterate [OF assms(1) ij(1), of ?d] ij by simp
  moreover have "?d < length xs" using ij(1) by (intro mod_less_divisor) linarith
  ultimately show ?thesis by blast
qed

text \<open>Rejections are honest about a leader: they are no hints at all, or name the shard and, when they
  name a dialed address, the leader's.\<close>

definition hints_ok :: "string list \<Rightarrow> string \<Rightarrow> string \<Rightarrow> bool" where
  "hints_ok dialed L msg = (case leaderHint msg of (shard, addr, ok) \<Rightarrow>
     ok \<longrightarrow> shard \<noteq> [] \<and> (addr \<noteq> [] \<and> addr \<in> set dialed \<longrightarrow> addr = L))"

definition cache_ok :: "string \<Rightarrow> leaderClient \<Rightarrow> bool" where
  "cache_ok L c \<longleftrightarrow> client_ok c \<and> L \<in> set (lcConns c) \<and> (\<forall>s a. map_of (lcShardLeader c) s = Some a \<longrightarrow> a = L)"

lemma pick_L_or_cur: "cache_ok L c \<Longrightarrow> pick_addr c = L \<or> pick_addr c = lcCur c"
  by (auto simp: pick_addr_def cache_ok_def split: option.splits)

lemma after_error_cache:
  assumes "cache_ok L c" "hints_ok (lcConns c) L msg"
  shows "cache_ok L (after_error a msg c) \<and> (pick_addr (after_error a msg c) = L \<or> lcCur (after_error a msg c) = cycle_next (lcConns c) a)"
proof -
  obtain shard addr ok where h: "leaderHint msg = (shard, addr, ok)" by (cases "leaderHint msg")
  have k: "map_of (lcShardLeader (after_error a msg c)) s = Some b \<Longrightarrow> b = L" for s b
    using assms unfolding cache_ok_def hints_ok_def h after_error_def
    by (auto simp: h Let_def update_conv' delete_conv' split: if_splits)
  have "pick_addr (after_error a msg c) = L \<or> lcCur (after_error a msg c) = cycle_next (lcConns c) a"
    using assms unfolding cache_ok_def hints_ok_def h client_ok_def after_error_def pick_addr_def
    by (auto simp: h Let_def next_addr_def update_conv')
  then show ?thesis
    using k after_error_ok [of c a msg] assms(1) unfolding cache_ok_def by (simp add: after_error_frame)
qed

lemma retry_reaches:
  assumes "\<forall>n. is_ok (call n L)" "\<forall>n a msg. call n a = Inl msg \<longrightarrow> hints_ok dialed L msg"
    and "cache_ok L c" "lcConns c = dialed" "(cycle_next dialed ^^ d) (lcCur c) = L" "d < left"
  shows "is_ok (fst (retry call n left lastErr c))"
  using assms(3-)
proof (induction d arbitrary: c n left lastErr)
  case 0
  then obtain l where l: "left = Suc l" by (cases left) auto
  have "pick_addr c = L" using pick_L_or_cur [OF 0(1)] 0(3) by auto
  then show ?case using spec [OF assms(1), of n] l by auto
next
  case (Suc d)
  then obtain l where l: "left = Suc l" "d < l" by (cases left) auto
  show ?case
  proof (cases "call n (pick_addr c)")
    case (Inl msg)
    have at: "pick_addr c = lcCur c" using pick_L_or_cur [OF Suc.prems(1)] spec [OF assms(1), of n] Inl by auto
    let ?c = "after_error (lcCur c) msg c"
    have c: "cache_ok L ?c" "pick_addr ?c = L \<or> lcCur ?c = cycle_next dialed (lcCur c)"
      using after_error_cache [OF Suc.prems(1), of msg "lcCur c"] assms(2) Inl Suc.prems(2) by auto
    obtain m where m: "l = Suc m" using l(2) by (cases l) auto
    have "is_ok (fst (retry call (Suc n) l (Some msg) ?c))"
    proof (cases "pick_addr ?c = L")
      case True
      then show ?thesis using spec [OF assms(1), of "Suc n"] m by auto
    next
      case False
      then have "(cycle_next dialed ^^ d) (lcCur ?c) = L" using c(2) Suc.prems(3) by (simp add: funpow_swap1)
      then show ?thesis using Suc.IH [OF c(1)] Suc.prems(2) l(2) by (simp add: after_error_frame)
    qed
    then show ?thesis using Inl l(1) at by simp
  qed (use l in simp)
qed

text \<open>C15. The client finds the leader: when one of the dialed nodes answers and every rejection by another
  is honest about where the leader is, or says nothing, the command succeeds within as many
  attempts as there are nodes.\<close>

theorem client_reaches_leader:
  assumes "newClient dial addr = Some c" "distinct (lcConns c)" "L \<in> set (lcConns c)"
    and "\<forall>n. is_ok (call n L)" "\<forall>n a msg. call n a = Inl msg \<longrightarrow> hints_ok (lcConns c) L msg"
    and "length (lcConns c) \<le> fuel"
  shows "is_ok (fst (retry call 0 fuel None c))"
proof -
  have ok: "client_ok c" using newClient_ok [OF assms(1)] .
  have "lcShardLeader c = []" using assms(1) by (auto simp: newClient_def Let_def split: if_splits)
  then have cache: "cache_ok L c" using ok assms(3) by (simp add: cache_ok_def)
  have cur: "lcCur c \<in> set (lcConns c)" using ok unfolding client_ok_def by blast
  obtain d where d: "d < length (lcConns c)" "(cycle_next (lcConns c) ^^ d) (lcCur c) = L"
    using cycle_reaches [OF assms(2) cur assms(3)] by blast
  show ?thesis by (rule retry_reaches [OF assms(4,5) cache refl d(2)]) (use assms(6) d(1) in simp)
qed

theorem client_reaches_leader_witness:
  "\<exists>c. newClient (\<lambda>_. True) ''a,b'' = Some c \<and>
     fst (retry (\<lambda>n a. if a = ''b'' then Inr n else Inl (hint_text 0 2 ''b'')) 0 2 None c) = Inr 1"
proof -
  let ?call = "\<lambda>n a. if a = ''b'' then Inr n else Inl (hint_text 0 2 ''b'')"
  obtain c where c: "newClient (\<lambda>_. True) ''a,b'' = Some c" "lcConns c = [''a'', ''b'']" "pick_addr c = ''a''"
    by (simp add: newClient_def TrimSpace_def is_space_def pick_addr_def Let_def)
  have h: "leaderHint (hint_text 0 2 ''b'') = (itoa 0, ''b'', True)"
    using leaderHint_text [of "''b''" 0 2] by (simp add: is_space_def)
  have "is_ok (fst (retry ?call 0 2 None c))"
    by (rule client_reaches_leader [OF c(1), of "''b''"]) (auto simp: c(2) hints_ok_def h)
  then show ?thesis using c by (auto simp: numeral_2_eq_2 split: if_splits)
qed

end
