(* ===== verification/Checker.thy ===== *)
theory Checker
  imports Prelude "HOL-Library.Multiset"
begin

text \<open>
  \<^verbatim>\<open>internal/nemesis/checker.go\<close> and the history of \<^verbatim>\<open>history.go\<close>: a recorded history is turned
  into operations of a register per key and handed to Porcupine. Porcupine is a parameter, a
  function from operations to a verdict; what the code relies on is that its verdicts are
  correct for the model it is given. The reference is linearizability itself: an order of the
  operations that respects real time and is legal for the sequential register.
\<close>

text \<open>\<open>Op\<close> of \<^verbatim>\<open>history.go\<close>; \<open>int64\<close> stamps are integers.\<close>

record HistOp =
  hClient :: int
  hKind :: string
  hKey :: string
  hValue :: string
  hFound :: bool
  hOutput :: string
  hOk :: bool
  hUnknown :: bool
  hInvoke :: int
  hReturn :: int

record kvInput =
  inKind :: string
  inKey :: string
  inValue :: string

record kvOutput =
  outFound :: bool
  outValue :: string

record Operation =
  qClient :: int
  qInput :: kvInput
  qCall :: int
  qOutput :: kvOutput
  qReturn :: int

datatype CheckResult = Ok | Illegal | TimedOut

definition maxInt64 :: int where
  "maxInt64 = 2 ^ 63 - 1"

subsection \<open>The model handed to Porcupine\<close>

definition kv_init :: kvOutput where
  "kv_init = \<lparr>outFound = False, outValue = []\<rparr>"

definition kv_Step :: "kvOutput \<Rightarrow> kvInput \<Rightarrow> kvOutput \<Rightarrow> bool \<times> kvOutput" where
  "kv_Step st inp out =
     (if inKind inp = ''put'' then (True, \<lparr>outFound = True, outValue = inValue inp\<rparr>)
      else if inKind inp = ''delete'' then (True, kv_init)
      else if inKind inp = ''get''
      then (outFound out = outFound st \<and> (outFound st \<longrightarrow> outValue out = outValue st), st)
      else (False, st))"

abbreviation op_key :: "Operation \<Rightarrow> string" where
  "op_key p \<equiv> inKey (qInput p)"

definition kv_Partition :: "Operation list \<Rightarrow> Operation list list" where
  "kv_Partition h = map (\<lambda>k. filter (\<lambda>p. op_key p = k) h) (remdups (map op_key h))"

subsection \<open>The check\<close>

datatype check_error = UnknownKind string | CheckTimeout

definition to_operation :: "HistOp \<Rightarrow> check_error + Operation option" where
  "to_operation h =
     (let p = \<lparr>qClient = hClient h, qInput = \<lparr>inKind = hKind h, inKey = hKey h, inValue = []\<rparr>, qCall = hInvoke h,
               qOutput = kv_init, qReturn = hReturn h\<rparr>
      in if hUnknown h \<and> hKind h \<noteq> ''put'' then Inr None
         else if hKind h = ''put''
         then Inr (Some (p\<lparr>qInput := \<lparr>inKind = ''put'', inKey = hKey h, inValue = hValue h\<rparr>,
                           qReturn := if hUnknown h then maxInt64 else hReturn h\<rparr>))
         else if hKind h = ''get''
         then Inr (Some (p\<lparr>qOutput := \<lparr>outFound = hFound h, outValue = hOutput h\<rparr>\<rparr>))
         else if hKind h = ''delete'' then Inr (Some p)
         else Inl (UnknownKind (hKind h)))"

fun to_history :: "HistOp list \<Rightarrow> check_error + Operation list" where
  "to_history [] = Inr []"
| "to_history (h # hs) =
     (case to_operation h of
        Inl e \<Rightarrow> Inl e
      | Inr po \<Rightarrow> (case to_history hs of Inl e \<Rightarrow> Inl e | Inr ps \<Rightarrow> Inr (case po of None \<Rightarrow> ps | Some p \<Rightarrow> p # ps)))"

definition CheckLinearizability :: "(Operation list \<Rightarrow> CheckResult) \<Rightarrow> HistOp list \<Rightarrow> check_error + bool" where
  "CheckLinearizability porcupine ops =
     (case to_history ops of
        Inl e \<Rightarrow> Inl e
      | Inr h \<Rightarrow> (case porcupine h of Ok \<Rightarrow> Inr True | Illegal \<Rightarrow> Inr False | TimedOut \<Rightarrow> Inl CheckTimeout))"

text \<open>The keys are visited in the order \<open>ks\<close> in which Go happens to iterate its map.\<close>

definition by_key :: "HistOp list \<Rightarrow> string \<Rightarrow> HistOp list" where
  "by_key ops k = filter (\<lambda>h. hKey h = k) ops"

fun FindViolatingKey :: "(Operation list \<Rightarrow> CheckResult) \<Rightarrow> string list \<Rightarrow> HistOp list \<Rightarrow> string \<times> HistOp list" where
  "FindViolatingKey porcupine [] ops = ([], [])"
| "FindViolatingKey porcupine (k # ks) ops =
     (if CheckLinearizability porcupine (by_key ops k) = Inr False then (k, by_key ops k)
      else FindViolatingKey porcupine ks ops)"

subsection \<open>Linearizability\<close>

text \<open>Real time: an operation that returned before another was called comes first.\<close>

abbreviation may_precede :: "Operation \<Rightarrow> Operation \<Rightarrow> bool" where
  "may_precede a b \<equiv> \<not> qReturn b < qCall a"

fun legal_from :: "kvOutput \<Rightarrow> Operation list \<Rightarrow> bool" where
  "legal_from st [] = True"
| "legal_from st (p # ps) = (fst (kv_Step st (qInput p) (qOutput p)) \<and> legal_from (snd (kv_Step st (qInput p) (qOutput p))) ps)"

definition linearizable :: "Operation list \<Rightarrow> bool" where
  "linearizable h \<longleftrightarrow> (\<exists>s. mset s = mset h \<and> sorted_wrt may_precede s \<and> legal_from kv_init s)"

text \<open>The store as a whole: one order for all keys, legal for the map from keys to registers.\<close>

fun legal_store :: "(string \<Rightarrow> kvOutput) \<Rightarrow> Operation list \<Rightarrow> bool" where
  "legal_store m [] = True"
| "legal_store m (p # ps) = (case kv_Step (m (op_key p)) (qInput p) (qOutput p) of (ok, st) \<Rightarrow> ok \<and> legal_store (m(op_key p := st)) ps)"

definition linearizable_store :: "Operation list \<Rightarrow> bool" where
  "linearizable_store h \<longleftrightarrow> (\<exists>s. mset s = mset h \<and> sorted_wrt may_precede s \<and> legal_store (\<lambda>_. kv_init) s)"

lemma legal_store_by_key: "legal_store m s \<longleftrightarrow> (\<forall>k. legal_from (m k) (filter (\<lambda>p. op_key p = k) s))"
proof (induction s arbitrary: m)
  case (Cons p s)
  obtain ok st where st: "kv_Step (m (op_key p)) (qInput p) (qOutput p) = (ok, st)" by force
  have "legal_from (m k) (filter (\<lambda>p. op_key p = k) (p # s)) \<longleftrightarrow>
      (k = op_key p \<longrightarrow> ok) \<and> legal_from ((m(op_key p := st)) k) (filter (\<lambda>p. op_key p = k) s)" for k
    using st by (cases "k = op_key p") auto
  then show ?case using Cons.IH st by auto
qed simp

subsection \<open>Linearizability composes over keys\<close>

text \<open>Linearization points: along a legal order each operation is placed as early as possible.\<close>

fun points :: "int \<Rightarrow> Operation list \<Rightarrow> (int \<times> Operation) list" where
  "points t [] = []"
| "points t (p # ps) = (max t (qCall p), p) # points (max t (qCall p)) ps"

lemma points_ops [simp]: "map snd (points t ps) = ps"
  by (induction ps arbitrary: t) auto

lemma points_sorted: "sorted (map fst (points t ps)) \<and> (\<forall>x \<in> fst ` set (points t ps). t \<le> x)"
proof (induction ps arbitrary: t)
  case (Cons p ps)
  show ?case using Cons.IH [of "max t (qCall p)"] by simp
qed simp

lemma points_within:
  assumes "sorted_wrt may_precede ps" "\<forall>p \<in> set ps. qCall p \<le> qReturn p \<and> t \<le> qReturn p" "(x, p) \<in> set (points t ps)"
  shows "qCall p \<le> x \<and> x \<le> qReturn p"
  using assms
proof (induction ps arbitrary: t)
  case (Cons q ps)
  show ?case
  proof (cases "(x, p) = (max t (qCall q), q)")
    case True
    then show ?thesis using Cons.prems(2) by auto
  next
    case False
    then have "(x, p) \<in> set (points (max t (qCall q)) ps)" using Cons.prems(3) by auto
    moreover have "\<forall>p \<in> set ps. qCall p \<le> qReturn p \<and> max t (qCall q) \<le> qReturn p"
      using Cons.prems(1,2) by (auto simp: not_less)
    ultimately show ?thesis using Cons.prems(1) by (intro Cons.IH [of "max t (qCall q)"]) simp_all
  qed
qed simp

lemma mset_by_key:
  "set (map op_key h) \<subseteq> set ks \<Longrightarrow> distinct ks \<Longrightarrow> mset (concat (map (\<lambda>k. filter (\<lambda>p. op_key p = k) h) ks)) = mset h"
proof (induction ks arbitrary: h)
  case (Cons k ks)
  let ?r = "filter (\<lambda>p. op_key p \<noteq> k) h"
  have e: "map (\<lambda>k. filter (\<lambda>p. op_key p = k) h) ks = map (\<lambda>k. filter (\<lambda>p. op_key p = k) ?r) ks"
    using Cons.prems(2) by (auto intro!: filter_cong)
  have "mset (concat (map (\<lambda>k. filter (\<lambda>p. op_key p = k) ?r) ks)) = mset ?r"
    using Cons.prems by (intro Cons.IH) auto
  then have "mset (concat (map (\<lambda>k. filter (\<lambda>p. op_key p = k) h) (k # ks))) = mset (filter (\<lambda>p. op_key p = k) h) + mset ?r"
    by (simp only: e list.map concat.simps mset_append)
  also have "\<dots> = mset h" by (simp add: multiset_partition [symmetric])
  finally show ?case .
qed simp

lemma filter_concat_key:
  assumes "distinct ks" "\<And>k p. k \<in> set ks \<Longrightarrow> p \<in> set (f k) \<Longrightarrow> g p = k"
  shows "filter (\<lambda>p. g p = k) (concat (map f ks)) = (if k \<in> set ks then f k else [])"
  using assms
proof (induction ks)
  case (Cons j ks)
  have "filter (\<lambda>p. g p = k) (f j) = (if k = j then f j else [])"
    using Cons.prems(2) [of j] by (auto simp: filter_empty_conv)
  then show ?case using Cons by auto
qed simp

lemma key_orders_merge:
  assumes "\<forall>p \<in> set h. qCall p \<le> qReturn p" "\<And>k. linearizable (filter (\<lambda>p. op_key p = k) h)"
  shows "linearizable_store h"
proof -
  let ?F = "\<lambda>k. filter (\<lambda>p. op_key p = k)"
  obtain s where s: "\<And>k. mset (s k) = mset (?F k h)" "\<And>k. sorted_wrt may_precede (s k)" "\<And>k. legal_from kv_init (s k)"
  proof -
    have "\<exists>s. \<forall>k. mset (s k) = mset (?F k h) \<and> sorted_wrt may_precede (s k) \<and> legal_from kv_init (s k)"
      using assms(2) unfolding linearizable_def by (intro choice allI)
    then show ?thesis using that by blast
  qed
  have in_s: "p \<in> set (s k) \<longleftrightarrow> p \<in> set h \<and> op_key p = k" for p k
    using mset_eq_setD [OF s(1) [of k]] by auto
  define t where "t = (if h = [] then 0 else Min (qCall ` set h))"
  define ks where "ks = remdups (map op_key h)"
  define xs where "xs = concat (map (\<lambda>k. points t (s k)) ks)"
  define ys where "ys = sort_key fst xs"
  have low: "t \<le> qCall p" if "p \<in> set h" for p using that by (auto simp: t_def)
  have within: "qCall p \<le> x \<and> x \<le> qReturn p" if "(x, p) \<in> set (points t (s k))" for x p k
  proof (rule points_within [OF s(2) _ that])
    show "\<forall>p \<in> set (s k). qCall p \<le> qReturn p \<and> t \<le> qReturn p"
      using assms(1) low in_s order_trans by blast
  qed
  have snd_points: "p \<in> set (s k)" if "(x, p) \<in> set (points t (s k))" for x p k
    using that by (metis image_eqI points_ops set_map snd_conv)
  have mset_ys: "mset (map snd ys) = mset h"
  proof -
    have "mset (map snd ys) = mset (map snd xs)" unfolding ys_def by (metis mset_map mset_sort)
    also have "map snd xs = concat (map s ks)" unfolding xs_def by (simp add: map_concat comp_def)
    also have "mset (concat (map s ks)) = mset (concat (map (\<lambda>k. ?F k h) ks))"
      by (induction ks) (auto simp: s(1))
    also have "\<dots> = mset h" by (rule mset_by_key) (auto simp: ks_def)
    finally show ?thesis .
  qed
  have win_ys: "qCall p \<le> x \<and> x \<le> qReturn p" if "(x, p) \<in> set ys" for x p
    using that within by (auto simp: ys_def xs_def)
  have sorted: "sorted_wrt may_precede (map snd ys)"
  proof -
    have "sorted_wrt (\<lambda>a b. fst a \<le> fst b) ys" unfolding ys_def by (metis sorted_map sorted_sort_key)
    then have "sorted_wrt (\<lambda>a b. may_precede (snd a) (snd b)) ys"
    proof (rule sorted_wrt_mono_rel [rotated])
      fix a b assume "a \<in> set ys" "b \<in> set ys" "fst a \<le> fst b"
      then show "may_precede (snd a) (snd b)" using win_ys [of "fst a" "snd a"] win_ys [of "fst b" "snd b"] by simp
    qed
    then show ?thesis by (simp add: sorted_wrt_map)
  qed
  have key: "filter (\<lambda>p. op_key p = k) (map snd ys) = (if k \<in> set ks then s k else [])" for k
  proof -
    have "filter (\<lambda>x. op_key (snd x) = k) ys = sort_key fst (filter (\<lambda>x. op_key (snd x) = k) xs)"
      unfolding ys_def by (rule filter_sort)
    also have "filter (\<lambda>x. op_key (snd x) = k) xs = (if k \<in> set ks then points t (s k) else [])"
      unfolding xs_def
    proof (rule filter_concat_key)
      show "distinct ks" by (simp add: ks_def)
      show "op_key (snd p) = k" if "p \<in> set (points t (s k))" for k p
        using snd_points [of "fst p" "snd p" k] that in_s by simp
    qed
    also have "sort_key fst \<dots> = \<dots>"
      using points_sorted [of t "s k"] by (simp add: sort_key_id_if_sorted)
    finally show ?thesis by (simp add: filter_map comp_def)
  qed
  have "legal_store (\<lambda>_. kv_init) (map snd ys)" unfolding legal_store_by_key by (simp add: key s(3))
  then show ?thesis using mset_ys sorted unfolding linearizable_store_def by blast
qed

lemma store_order_splits:
  assumes "linearizable_store h" shows "linearizable (filter (\<lambda>p. op_key p = k) h)"
proof -
  obtain s where s: "mset s = mset h" "sorted_wrt may_precede s" "legal_store (\<lambda>_. kv_init) s"
    using assms by (auto simp: linearizable_store_def)
  have "mset (filter (\<lambda>p. op_key p = k) s) = mset (filter (\<lambda>p. op_key p = k) h)" using s(1) by (metis mset_filter)
  moreover have "sorted_wrt may_precede (filter (\<lambda>p. op_key p = k) s)" using s(2) by (rule sorted_wrt_filter)
  moreover have "legal_from kv_init (filter (\<lambda>p. op_key p = k) s)"
    using s(3) unfolding legal_store_by_key by (rule spec)
  ultimately show ?thesis unfolding linearizable_def by blast
qed

lemma linearizable_Nil: "linearizable []"
  by (simp add: linearizable_def)

lemma partition_covers:
  "(\<forall>part \<in> set (kv_Partition h). linearizable part) \<longleftrightarrow> (\<forall>k. linearizable (filter (\<lambda>p. op_key p = k) h))"
proof -
  have "linearizable (filter (\<lambda>p. op_key p = k) h)"
    if "\<forall>k \<in> op_key ` set h. linearizable (filter (\<lambda>p. op_key p = k) h)" for k
  proof (cases "k \<in> op_key ` set h")
    case False
    then have "filter (\<lambda>p. op_key p = k) h = []" by (auto simp: filter_empty_conv)
    then show ?thesis using linearizable_Nil by simp
  qed (use that in blast)
  then show ?thesis unfolding kv_Partition_def by auto
qed

text \<open>C7. Checking key by key is checking the store: the parts into which the model partitions a
  history are each linearizable exactly when the whole history is linearizable as a store of
  all keys, with one order for all operations.\<close>

theorem per_key_check_is_complete:
  assumes "\<forall>p \<in> set h. qCall p \<le> qReturn p"
  shows "(\<forall>part \<in> set (kv_Partition h). linearizable part) \<longleftrightarrow> linearizable_store h"
  unfolding partition_covers by (metis key_orders_merge [OF assms] store_order_splits)

theorem per_key_check_is_complete_witness:
  "let w = \<lparr>qClient = 1, qInput = \<lparr>inKind = ''put'', inKey = ''a'', inValue = ''x''\<rparr>, qCall = 1, qOutput = kv_init, qReturn = 2\<rparr>;
       r = \<lparr>qClient = 2, qInput = \<lparr>inKind = ''get'', inKey = ''b'', inValue = []\<rparr>, qCall = 1, qOutput = kv_init, qReturn = 3\<rparr>
   in linearizable_store [w, r]"
proof -
  let ?w = "\<lparr>qClient = 1, qInput = \<lparr>inKind = ''put'', inKey = ''a'', inValue = ''x''\<rparr>, qCall = 1, qOutput = kv_init, qReturn = 2\<rparr>"
  let ?r = "\<lparr>qClient = 2, qInput = \<lparr>inKind = ''get'', inKey = ''b'', inValue = []\<rparr>, qCall = 1, qOutput = kv_init, qReturn = 3\<rparr>"
  have "linearizable [?w]" unfolding linearizable_def by (rule exI [of _ "[?w]"]) (simp add: kv_Step_def)
  moreover have "linearizable [?r]" unfolding linearizable_def by (rule exI [of _ "[?r]"]) (simp add: kv_Step_def kv_init_def)
  ultimately have "\<forall>part \<in> set (kv_Partition [?w, ?r]). linearizable part" by (simp add: kv_Partition_def)
  moreover have "\<forall>p \<in> set [?w, ?r]. qCall p \<le> qReturn p" by simp
  ultimately show ?thesis using per_key_check_is_complete [of "[?w, ?r]"] by (simp add: Let_def)
qed

subsection \<open>No false alarms\<close>

text \<open>What happened in a run: some operations took effect, in one order. Every acknowledged one is
  among them, an operation of unknown outcome may be or not; each took effect after its
  invocation and, when acknowledged, before its return.\<close>

definition effect_end :: "HistOp \<Rightarrow> int" where
  "effect_end h = (if hUnknown h then maxInt64 else hReturn h)"

fun happened :: "(string \<Rightarrow> kvOutput) \<Rightarrow> HistOp list \<Rightarrow> bool" where
  "happened m [] = True"
| "happened m (h # hs) =
     (if hKind h = ''put'' then happened (m(hKey h := \<lparr>outFound = True, outValue = hValue h\<rparr>)) hs
      else if hKind h = ''delete'' then happened (m(hKey h := kv_init)) hs
      else (hUnknown h \<or> hFound h = outFound (m (hKey h)) \<and> (hFound h \<longrightarrow> hOutput h = outValue (m (hKey h)))) \<and> happened m hs)"

definition explains :: "HistOp list \<Rightarrow> HistOp list \<Rightarrow> bool" where
  "explains s ops \<longleftrightarrow> (\<exists>lost. mset s + mset lost = mset ops \<and> (\<forall>h \<in> set lost. hUnknown h))
     \<and> sorted_wrt (\<lambda>a b. \<not> effect_end b < hInvoke a) s \<and> happened (\<lambda>_. kv_init) s"

definition well_recorded :: "HistOp list \<Rightarrow> bool" where
  "well_recorded ops \<longleftrightarrow> (\<forall>h \<in> set ops. hKind h \<in> {''put'', ''get'', ''delete''} \<and> hInvoke h \<le> hReturn h \<and> hReturn h \<le> maxInt64)"

definition conv :: "HistOp list \<Rightarrow> Operation list" where
  "conv ops = List.map_filter (\<lambda>h. case to_operation h of Inl _ \<Rightarrow> None | Inr po \<Rightarrow> po) ops"

lemma conv_simps [simp]: "conv [] = []" "conv (a @ b) = conv a @ conv b"
  by (simp_all add: conv_def List.map_filter_def)

lemma conv_Cons: "conv (h # hs) = (case to_operation h of Inr (Some p) \<Rightarrow> p # conv hs | _ \<Rightarrow> conv hs)"
  by (auto simp: conv_def List.map_filter_def split: sum.splits option.splits)

lemma to_history_conv: "well_recorded ops \<Longrightarrow> to_history ops = Inr (conv ops)"
  by (induction ops) (auto simp: conv_Cons well_recorded_def to_operation_def Let_def split: sum.splits)

definition converts :: "HistOp \<Rightarrow> bool" where
  "converts h \<longleftrightarrow> \<not> (hUnknown h \<and> hKind h \<noteq> ''put'')"

definition op_of :: "HistOp \<Rightarrow> Operation" where
  "op_of h = (case to_operation h of Inr (Some p) \<Rightarrow> p)"

lemma op_of_simps:
  "hKind h \<in> {''put'', ''get'', ''delete''} \<Longrightarrow> converts h \<Longrightarrow>
   qCall (op_of h) = hInvoke h \<and> qReturn (op_of h) = effect_end h \<and> op_key (op_of h) = hKey h \<and>
   to_operation h = Inr (Some (op_of h))"
  by (auto simp: op_of_def to_operation_def converts_def effect_end_def Let_def)

lemma conv_eq: "well_recorded ops \<Longrightarrow> conv ops = map op_of (filter converts ops)"
proof (induction ops)
  case (Cons h ops)
  have "well_recorded ops" "hKind h \<in> {''put'', ''get'', ''delete''}" using Cons.prems by (auto simp: well_recorded_def)
  then show ?case using Cons.IH op_of_simps [of h]
    by (cases "converts h") (simp_all add: conv_Cons converts_def to_operation_def Let_def)
qed simp

text \<open>Reordering the converted history is converting a reordered history.\<close>

lemma perm_lift: "mset s = mset (map f xs) \<Longrightarrow> \<exists>ys. mset ys = mset xs \<and> map f ys = s"
proof (induction s arbitrary: xs)
  case (Cons a s)
  have "a \<in> set (map f xs)" using mset_eq_setD [OF Cons.prems] by auto
  then obtain x where x: "x \<in> set xs" "f x = a" by auto
  have "mset s = mset (map f (remove1 x xs))"
    using x by (simp add: image_mset_Diff Cons.prems [simplified, symmetric])
  then obtain ys where "mset ys = mset (remove1 x xs)" "map f ys = s" using Cons.IH by blast
  then show ?case using x by (intro exI [of _ "x # ys"]) simp
qed simp

lemma op_of_step:
  assumes "converts h"
  shows "hKind h = ''put'' \<Longrightarrow> kv_Step st (qInput (op_of h)) (qOutput (op_of h)) = (True, \<lparr>outFound = True, outValue = hValue h\<rparr>)"
    "hKind h = ''delete'' \<Longrightarrow> kv_Step st (qInput (op_of h)) (qOutput (op_of h)) = (True, kv_init)"
    "hKind h = ''get'' \<Longrightarrow> kv_Step st (qInput (op_of h)) (qOutput (op_of h)) =
       (hFound h = outFound st \<and> (outFound st \<longrightarrow> hOutput h = outValue st), st)"
  using assms by (simp_all add: op_of_def to_operation_def converts_def kv_Step_def Let_def)

lemma happened_legal:
  "\<forall>h \<in> set s. converts h \<and> hKind h \<in> {''put'', ''get'', ''delete''} \<and> \<not> (hUnknown h \<and> hKind h = ''get'') \<Longrightarrow>
   happened m s \<longleftrightarrow> legal_store m (map op_of s)"
proof (induction s arbitrary: m)
  case (Cons h s)
  then have h: "converts h" "hKind h = ''put'' \<or> hKind h = ''get'' \<or> hKind h = ''delete''" by auto
  have IH: "happened m s \<longleftrightarrow> legal_store m (map op_of s)" for m using Cons by auto
  have k: "op_key (op_of h) = hKey h" using h op_of_simps [of h] by blast
  show ?case using h(2) Cons.prems by (elim disjE) (auto simp: IH k op_of_step [OF h(1)])
qed simp

lemma happened_converted:
  assumes "\<forall>h \<in> set s. hKind h \<in> {''put'', ''get'', ''delete''} \<and> \<not> (hUnknown h \<and> hKind h = ''delete'')"
    "\<forall>h \<in> set lost. hKind h = ''put''" "happened m s"
  shows "happened m (filter converts s @ lost)"
  using assms(1,3)
proof (induction s arbitrary: m)
  case Nil
  have "happened m lost" for m using assms(2) by (induction lost arbitrary: m) auto
  then show ?case by simp
next
  case (Cons h s)
  show ?case
  proof (cases "converts h")
    case True
    then show ?thesis using Cons by (auto split: if_splits)
  next
    case False
    then have "hKind h = ''get''" using Cons.prems(1) by (auto simp: converts_def)
    then show ?thesis using False Cons by simp
  qed
qed

abbreviation no_lost_delete :: "HistOp list \<Rightarrow> bool" where
  "no_lost_delete s \<equiv> \<forall>h \<in> set s. \<not> (hUnknown h \<and> hKind h = ''delete'')"

lemma explained_linearizable:
  assumes w: "well_recorded ops" and e: "explains s ops" "no_lost_delete s"
  shows "linearizable_store (conv ops)"
proof -
  obtain lost where l: "mset s + mset lost = mset ops" "\<forall>h \<in> set lost. hUnknown h"
    and so: "sorted_wrt (\<lambda>a b. \<not> effect_end b < hInvoke a) s" and ha: "happened (\<lambda>_. kv_init) s"
    using e(1) by (auto simp: explains_def)
  have ops: "set ops = set s \<union> set lost" using l(1) by (metis set_mset_mset set_mset_union)
  have kinds: "hKind h \<in> {''put'', ''get'', ''delete''}" "hInvoke h \<le> maxInt64" if "h \<in> set s \<union> set lost" for h
    using w that unfolding ops [symmetric] well_recorded_def by force+
  let ?l = "filter converts lost" and ?s = "filter converts s"
  have puts: "\<forall>h \<in> set ?l. hKind h = ''put'' \<and> effect_end h = maxInt64"
    using l(2) by (auto simp: converts_def effect_end_def)
  have o: "qCall (op_of h) = hInvoke h \<and> qReturn (op_of h) = effect_end h" if "h \<in> set (?s @ ?l)" for h
    using op_of_simps [of h] kinds(1) [of h] that by auto
  have "sorted_wrt (\<lambda>a b. \<not> effect_end b < hInvoke a) (?s @ ?l)"
    unfolding sorted_wrt_append
  proof (intro conjI ballI)
    show "sorted_wrt (\<lambda>a b. \<not> effect_end b < hInvoke a) ?s" using so by (rule sorted_wrt_filter)
    have "sorted_wrt (\<lambda>a b. True) ?l" by simp
    then show "sorted_wrt (\<lambda>a b. \<not> effect_end b < hInvoke a) ?l"
      by (rule sorted_wrt_mono_rel [rotated]) (use puts kinds(2) in force)
    show "\<not> effect_end b < hInvoke a" if "a \<in> set ?s" "b \<in> set ?l" for a b
      using puts kinds(2) [of a] that by force
  qed
  then have "sorted_wrt (\<lambda>a b. may_precede (op_of a) (op_of b)) (?s @ ?l)"
    by (rule sorted_wrt_mono_rel [rotated]) (metis o)
  then have "sorted_wrt may_precede (map op_of (?s @ ?l))" unfolding sorted_wrt_map .
  moreover have "mset (map op_of (?s @ ?l)) = mset (conv ops)"
  proof -
    have "mset (?s @ ?l) = mset (filter converts ops)" using l(1) by (metis filter_append mset_append mset_filter)
    then show ?thesis by (simp only: conv_eq [OF w] mset_map)
  qed
  moreover have "legal_store (\<lambda>_. kv_init) (map op_of (?s @ ?l))"
  proof -
    have "happened (\<lambda>_. kv_init) (?s @ ?l)" using e(2) puts kinds(1) ha by (intro happened_converted) auto
    moreover have "\<forall>h \<in> set (?s @ ?l). converts h \<and> hKind h \<in> {''put'', ''get'', ''delete''} \<and> \<not> (hUnknown h \<and> hKind h = ''get'')"
      using kinds(1) by (auto simp: converts_def)
    ultimately show ?thesis using happened_legal by blast
  qed
  ultimately show ?thesis unfolding linearizable_store_def by blast
qed

lemma linearizable_explained:
  assumes w: "well_recorded ops" and "linearizable_store (conv ops)"
  shows "\<exists>s. explains s ops \<and> no_lost_delete s"
proof -
  obtain q where q: "mset q = mset (map op_of (filter converts ops))" "sorted_wrt may_precede q" "legal_store (\<lambda>_. kv_init) q"
    using assms by (auto simp: linearizable_store_def conv_eq)
  obtain s where s: "mset s = mset (filter converts ops)" "map op_of s = q" using perm_lift [OF q(1)] by blast
  have mem: "h \<in> set ops \<and> converts h" if "h \<in> set s" for h using mset_eq_setD [OF s(1)] that by auto
  have kinds: "hKind h \<in> {''put'', ''get'', ''delete''} \<and> converts h" if "h \<in> set s" for h
    using w mem [OF that] by (auto simp: well_recorded_def)
  have o: "qCall (op_of h) = hInvoke h \<and> qReturn (op_of h) = effect_end h" if "h \<in> set s" for h
    using op_of_simps [of h] kinds [OF that] by blast
  have "sorted_wrt (\<lambda>a b. may_precede (op_of a) (op_of b)) s" using q(2) unfolding s(2) [symmetric] sorted_wrt_map .
  then have "sorted_wrt (\<lambda>a b. \<not> effect_end b < hInvoke a) s" by (rule sorted_wrt_mono_rel [rotated]) (metis o)
  moreover have "\<forall>h \<in> set s. converts h \<and> hKind h \<in> {''put'', ''get'', ''delete''} \<and> \<not> (hUnknown h \<and> hKind h = ''get'')"
    using kinds by (auto simp: converts_def)
  then have "happened (\<lambda>_. kv_init) s" using q(3) happened_legal s(2) by blast
  moreover have "mset s + mset (filter (\<lambda>h. \<not> converts h) ops) = mset ops"
    unfolding s(1) by (simp add: multiset_partition [symmetric])
  moreover have "\<forall>h \<in> set (filter (\<lambda>h. \<not> converts h) ops). hUnknown h" by (auto simp: converts_def)
  ultimately have "explains s ops" unfolding explains_def by blast
  moreover have "no_lost_delete s" using kinds by (auto simp: converts_def)
  ultimately show ?thesis by blast
qed

subsection \<open>What a verdict means\<close>

text \<open>What the code relies on of Porcupine: a verdict about a history is a verdict about the parts
  into which the model partitions it.\<close>

definition porcupine_correct :: "(Operation list \<Rightarrow> CheckResult) \<Rightarrow> bool" where
  "porcupine_correct porcupine \<longleftrightarrow>
     (\<forall>h. (porcupine h = Ok \<longrightarrow> (\<forall>part \<in> set (kv_Partition h). linearizable part))
        \<and> (porcupine h = Illegal \<longrightarrow> (\<exists>part \<in> set (kv_Partition h). \<not> linearizable part)))"

lemma conv_windows: "well_recorded ops \<Longrightarrow> \<forall>p \<in> set (conv ops). qCall p \<le> qReturn p"
proof
  fix p assume w: "well_recorded ops" and p: "p \<in> set (conv ops)"
  from p obtain h where h: "h \<in> set ops" "converts h" "p = op_of h" by (auto simp: conv_eq [OF w])
  moreover have k: "hKind h \<in> {''put'', ''get'', ''delete''}" "hInvoke h \<le> hReturn h" "hReturn h \<le> maxInt64"
    using w h(1) unfolding well_recorded_def by blast+
  ultimately show "qCall p \<le> qReturn p" using op_of_simps [of h] by (simp add: effect_end_def)
qed

lemma verdict_meaning:
  assumes "well_recorded ops" "porcupine_correct porcupine" "CheckLinearizability porcupine ops = Inr b"
  shows "b \<longleftrightarrow> linearizable_store (conv ops)"
proof -
  have p: "(\<forall>part \<in> set (kv_Partition (conv ops)). linearizable part) \<longleftrightarrow> linearizable_store (conv ops)"
    unfolding partition_covers
    by (metis key_orders_merge [OF conv_windows [OF assms(1)]] store_order_splits)
  have "CheckLinearizability porcupine ops = (case porcupine (conv ops) of Ok \<Rightarrow> Inr True | Illegal \<Rightarrow> Inr False | TimedOut \<Rightarrow> Inl CheckTimeout)"
    by (simp add: CheckLinearizability_def to_history_conv [OF assms(1)])
  then show ?thesis using assms(2,3) p unfolding porcupine_correct_def by (cases "porcupine (conv ops)") auto
qed

text \<open>C6. What a verdict of the checker means: it passes a history exactly when the history can be
  explained by one order in which operations took effect on the store, every acknowledged
  operation inside its recorded window with the answer it gave, every put of unknown outcome
  at any time after its invocation or never, and no delete of unknown outcome at all.\<close>

theorem verdict_is_exact:
  assumes "well_recorded ops" "porcupine_correct porcupine" "CheckLinearizability porcupine ops = Inr b"
  shows "b \<longleftrightarrow> (\<exists>s. explains s ops \<and> no_lost_delete s)"
  unfolding verdict_meaning [OF assms]
  using explained_linearizable [OF assms(1)] linearizable_explained [OF assms(1)] by blast

text \<open>A correct Porcupine exists: one that answers on empty histories and gives up on all others.\<close>

definition idle_porcupine :: "Operation list \<Rightarrow> CheckResult" where
  "idle_porcupine h = (if h = [] then Ok else TimedOut)"

lemma idle_porcupine_correct: "porcupine_correct idle_porcupine"
  by (auto simp: porcupine_correct_def idle_porcupine_def kv_Partition_def)

theorem verdict_is_exact_witness:
  "let g = \<lparr>hClient = 1, hKind = ''get'', hKey = ''a'', hValue = [], hFound = False, hOutput = [], hOk = False, hUnknown = True, hInvoke = 1, hReturn = 2\<rparr>
   in \<exists>s. explains s [g] \<and> no_lost_delete s"
proof -
  let ?g = "\<lparr>hClient = 1, hKind = ''get'', hKey = ''a'', hValue = [], hFound = False, hOutput = [], hOk = False, hUnknown = True, hInvoke = 1, hReturn = 2\<rparr>"
  have "CheckLinearizability idle_porcupine [?g] = Inr True"
    by (simp add: CheckLinearizability_def to_operation_def idle_porcupine_def)
  moreover have "well_recorded [?g]" by (simp add: well_recorded_def maxInt64_def)
  ultimately show ?thesis
    using verdict_is_exact [of "[?g]" idle_porcupine True] idle_porcupine_correct by (simp add: Let_def)
qed


lemma conv_by_key:
  assumes w: "well_recorded ops" shows "conv (by_key ops k) = filter (\<lambda>p. op_key p = k) (conv ops)"
proof -
  have k: "op_key (op_of h) = hKey h" if "h \<in> set ops" "converts h" for h
    using w op_of_simps [of h] that unfolding well_recorded_def by blast
  have v: "well_recorded (by_key ops k)" using w by (simp add: well_recorded_def by_key_def)
  have "filter (\<lambda>h. hKey h = k \<and> converts h) ops = filter (\<lambda>h. converts h \<and> op_key (op_of h) = k) ops"
    by (rule filter_cong) (auto simp: k)
  then show ?thesis unfolding conv_eq [OF w] conv_eq [OF v] unfolding by_key_def by (simp add: filter_map comp_def)
qed

lemma FindViolatingKey_finds:
  "\<exists>k \<in> set ks. CheckLinearizability porcupine (by_key ops k) = Inr False \<Longrightarrow>
   \<exists>k \<in> set ks. FindViolatingKey porcupine ks ops = (k, by_key ops k) \<and> CheckLinearizability porcupine (by_key ops k) = Inr False"
  by (induction ks) auto


text \<open>The ideal Porcupine, which decides every part.\<close>

definition ideal_porcupine :: "Operation list \<Rightarrow> CheckResult" where
  "ideal_porcupine h = (if \<forall>part \<in> set (kv_Partition h). linearizable part then Ok else Illegal)"

lemma ideal_porcupine_correct: "porcupine_correct ideal_porcupine" "\<forall>h. ideal_porcupine h \<noteq> TimedOut"
  by (simp_all add: porcupine_correct_def ideal_porcupine_def)

lemma unwritten_read_illegal:
  "hUnknown g = False \<Longrightarrow> hKind g = ''get'' \<Longrightarrow> hFound g \<Longrightarrow> \<not> linearizable_store [op_of g]"
  by (auto simp: linearizable_store_def op_of_step(3) converts_def kv_init_def)


end
