(* ===== verification/History.thy ===== *)
theory History
  imports Checker Files
begin

text \<open>
  \<^verbatim>\<open>internal/nemesis/history.go\<close>: the recorder's clock, which all clients share without a lock, and
  the history as a file of JSON lines. JSON is a parameter: an encoder of one operation into
  one line and its decoder.
\<close>

record Recorder =
  rLast :: int
  rOps :: "HistOp list"

definition NewRecorder :: Recorder where
  "NewRecorder = \<lparr>rLast = 0, rOps = []\<rparr>"

definition Record :: "HistOp \<Rightarrow> Recorder \<Rightarrow> Recorder" where
  "Record h r = r\<lparr>rOps := rOps r @ [h]\<rparr>"

definition Ops :: "Recorder \<Rightarrow> HistOp list" where
  "Ops r = rOps r"

subsection \<open>The clock\<close>

text \<open>A call of \<open>Now\<close> reads the time and the last stamp, bumps the time over the stamp, and tries to
  install it; when another call was faster it starts again.\<close>

definition bump :: "int \<Rightarrow> int \<Rightarrow> int" where
  "bump now prev = (if now \<le> prev then prev + 1 else now)"

datatype now_pc = Reading | Swapping (new_stamp: int) (old_stamp: int)

text \<open>One attempt of a call that nobody disturbs, and the call that runs alone.\<close>

definition compare_and_swap :: "int \<Rightarrow> int \<Rightarrow> Recorder \<Rightarrow> bool \<times> Recorder" where
  "compare_and_swap old new r = (if rLast r = old then (True, r\<lparr>rLast := new\<rparr>) else (False, r))"

definition Now :: "int \<Rightarrow> Recorder \<Rightarrow> int \<times> Recorder" where
  "Now clock r = (let now = bump clock (rLast r) in (now, snd (compare_and_swap (rLast r) now r)))"

text \<open>All interleavings: callers by number, each between two steps of its loop; the stamps handed out
  are kept in the order of the successful swaps. The clock is whatever the system shows.\<close>

record now_state =
  sRec :: Recorder
  sPc :: "nat \<Rightarrow> now_pc"
  sStamps :: "(nat \<times> int) list"

inductive now_step :: "now_state \<Rightarrow> now_state \<Rightarrow> bool" where
  read: "sPc s i = Reading \<Longrightarrow>
    now_step s (s\<lparr>sPc := (sPc s)(i := Swapping (bump clock (rLast (sRec s))) (rLast (sRec s)))\<rparr>)"
| swap: "sPc s i = Swapping new old \<Longrightarrow> compare_and_swap old new (sRec s) = (True, r) \<Longrightarrow>
    now_step s (s\<lparr>sRec := r, sPc := (sPc s)(i := Reading), sStamps := sStamps s @ [(i, new)]\<rparr>)"
| retry: "sPc s i = Swapping new old \<Longrightarrow> compare_and_swap old new (sRec s) = (False, r) \<Longrightarrow>
    now_step s (s\<lparr>sPc := (sPc s)(i := Reading)\<rparr>)"

definition now_start :: now_state where
  "now_start = \<lparr>sRec = NewRecorder, sPc = (\<lambda>_. Reading), sStamps = []\<rparr>"

inductive_cases now_stepE: "now_step s s'"

definition clock_inv :: "now_state \<Rightarrow> bool" where
  "clock_inv s \<longleftrightarrow> sorted_wrt (<) (map snd (sStamps s)) \<and> (\<forall>x \<in> set (map snd (sStamps s)). 0 < x \<and> x \<le> rLast (sRec s))
     \<and> 0 \<le> rLast (sRec s) \<and> (\<forall>i new old. sPc s i = Swapping new old \<longrightarrow> old < new)"

lemma bump_gt: "prev < bump now prev"
  by (simp add: bump_def)

lemma clock_inv_step: "now_step s s' \<Longrightarrow> clock_inv s \<Longrightarrow> clock_inv s'"
proof (induction rule: now_step.induct)
  case (read s i clock)
  then show ?case by (auto simp: clock_inv_def bump_gt)
next
  case (swap s i new old r)
  have r: "rLast (sRec s) = old" "rLast r = new" using swap(2) by (auto simp: compare_and_swap_def split: if_splits)
  have "old < new" using swap by (auto simp: clock_inv_def)
  then show ?case using swap(3) r by (force simp: clock_inv_def sorted_wrt_append)
next
  case (retry s i new old r)
  then show ?case by (auto simp: clock_inv_def)
qed

lemma clock_inv_reach: "now_step\<^sup>*\<^sup>* now_start s \<Longrightarrow> clock_inv s"
proof (induction rule: rtranclp_induct)
  case base
  show ?case by (simp add: clock_inv_def now_start_def NewRecorder_def)
qed (rule clock_inv_step)


text \<open>Two calls on a clock that does not move, one after the other.\<close>

definition two_calls :: now_state where
  "two_calls = \<lparr>sRec = \<lparr>rLast = 2, rOps = []\<rparr>, sPc = (\<lambda>_. Reading), sStamps = [(0, 1), (1, 2)]\<rparr>"

lemma two_calls_reach: "now_step\<^sup>*\<^sup>* now_start two_calls"
proof -
  let ?s1 = "now_start\<lparr>sPc := (sPc now_start)(0 := Swapping 1 0)\<rparr>"
  let ?s2 = "\<lparr>sRec = \<lparr>rLast = 1, rOps = []\<rparr>, sPc = (\<lambda>_. Reading), sStamps = [(0, 1)]\<rparr>"
  let ?s3 = "?s2\<lparr>sPc := (\<lambda>_. Reading)(1 := Swapping 2 1)\<rparr>"
  have "now_step now_start ?s1"
    using now_step.read [of now_start 0 0] by (simp add: now_start_def NewRecorder_def bump_def)
  moreover have "now_step ?s1 ?s2"
    using now_step.swap [of ?s1 0 1 0 "\<lparr>rLast = 1, rOps = []\<rparr>"] by (simp add: now_start_def NewRecorder_def compare_and_swap_def fun_upd_idem)
  moreover have "now_step ?s2 ?s3"
    using now_step.read [of ?s2 1 0] by (simp add: bump_def)
  moreover have "now_step ?s3 two_calls"
    using now_step.swap [of ?s3 1 2 1 "\<lparr>rLast = 2, rOps = []\<rparr>"] by (simp add: compare_and_swap_def two_calls_def fun_upd_idem)
  ultimately show ?thesis by (meson converse_rtranclp_into_rtranclp rtranclp.rtrancl_refl)
qed


text \<open>A swap fails only because another call succeeded since the read, so some caller always makes
  progress.\<close>

lemma retry_means_progress:
  assumes "now_step\<^sup>*\<^sup>* (s\<lparr>sPc := (sPc s)(i := Swapping new (rLast (sRec s)))\<rparr>) t" "rLast (sRec t) \<noteq> rLast (sRec s)"
  shows "length (sStamps s) < length (sStamps t)"
proof -
  let ?s = "s\<lparr>sPc := (sPc s)(i := Swapping new (rLast (sRec s)))\<rparr>"
  have "length (sStamps ?s) \<le> length (sStamps t) \<and> (rLast (sRec t) = rLast (sRec ?s) \<or> length (sStamps ?s) < length (sStamps t))"
    using assms(1)
  proof (induction rule: rtranclp_induct)
    case (step t u)
    from step.hyps(2) step.IH show ?case by (auto elim!: now_stepE)
  qed simp
  then show ?thesis using assms(2) by simp
qed

subsection \<open>The history file\<close>

text \<open>\<open>WriteFile\<close> buffers the lines and flushes them; \<open>ReadHistory\<close> scans lines of less than
  1 MiB, without a final carriage return.\<close>

definition history_text :: "(HistOp \<Rightarrow> bytes) \<Rightarrow> HistOp list \<Rightarrow> bytes" where
  "history_text enc ops = concat (map (\<lambda>h. enc h @ [10]) ops)"

definition WriteFile :: "(HistOp \<Rightarrow> bytes) \<Rightarrow> path \<Rightarrow> Recorder \<Rightarrow> fs \<Rightarrow> err option \<times> fs" where
  "WriteFile enc p r s =
     and_then (os_create_trunc p s) (\<lambda>s1.
       case os_write p (history_text enc (Ops r)) s1 of
         (Some e, s2) \<Rightarrow> (Some e, snd (os_noop s2))
       | (None, s2) \<Rightarrow> os_noop s2)"

definition scanBuffer :: nat where
  "scanBuffer = 1024 * 1024"

fun split_lines :: "bytes \<Rightarrow> bytes \<Rightarrow> bytes list" where
  "split_lines acc [] = (if acc = [] then [] else [rev acc])"
| "split_lines acc (b # bs) = (if b = 10 then rev acc # split_lines [] bs else split_lines (b # acc) bs)"

definition dropCR :: "bytes \<Rightarrow> bytes" where
  "dropCR l = (if l \<noteq> [] \<and> last l = 13 then butlast l else l)"

datatype hist_error = HistIO err | HistoryLine nat | TokenTooLong

fun read_lines :: "(bytes \<Rightarrow> err + HistOp) \<Rightarrow> HistOp list \<Rightarrow> bytes list \<Rightarrow> HistOp list \<times> hist_error option" where
  "read_lines dec ops [] = (ops, None)"
| "read_lines dec ops (l # ls) =
     (if scanBuffer \<le> length l then (ops, Some TokenTooLong)
      else case dec (dropCR l) of
             Inl _ \<Rightarrow> ([], Some (HistoryLine (length ops + 1)))
           | Inr h \<Rightarrow> read_lines dec (ops @ [h]) ls)"

definition ReadHistory :: "(bytes \<Rightarrow> err + HistOp) \<Rightarrow> path \<Rightarrow> fs \<Rightarrow> HistOp list \<times> hist_error option" where
  "ReadHistory dec p s =
     (case os_read p s of
        (Inl e, _) \<Rightarrow> ([], Some (HistIO e))
      | (Inr b, _) \<Rightarrow> read_lines dec [] (split_lines [] b))"

lemma split_lines_line: "10 \<notin> set l \<Longrightarrow> split_lines acc (l @ 10 # bs) = (rev acc @ l) # split_lines [] bs"
  by (induction l arbitrary: acc) auto

lemma split_history: "\<forall>h \<in> set ops. 10 \<notin> set (enc h) \<Longrightarrow> split_lines [] (history_text enc ops) = map enc ops"
  by (induction ops) (auto simp: history_text_def split_lines_line)

definition json_line :: "(HistOp \<Rightarrow> bytes) \<Rightarrow> (bytes \<Rightarrow> err + HistOp) \<Rightarrow> HistOp \<Rightarrow> bool" where
  "json_line enc dec h \<longleftrightarrow> dec (enc h) = Inr h \<and> 10 \<notin> set (enc h) \<and> (enc h = [] \<or> last (enc h) \<noteq> 13)"

lemma read_lines_all:
  "\<forall>h \<in> set ops. json_line enc dec h \<and> length (enc h) < scanBuffer \<Longrightarrow> read_lines dec acc (map enc ops) = (acc @ ops, None)"
  by (induction ops arbitrary: acc) (auto simp: json_line_def dropCR_def)

text \<open>C18. A history written to disk is read back as it was, when JSON decodes what it encodes into one
  line and every operation's line is below the scanner's buffer of 1 MiB.\<close>

theorem history_roundtrip:
  assumes "\<forall>h \<in> set (Ops r). json_line enc dec h \<and> length (enc h) < scanBuffer" "faults s = []"
  shows "\<exists>s'. WriteFile enc p r s = (None, s') \<and> ReadHistory dec p s' = (Ops r, None)"
proof -
  let ?b = "history_text enc (Ops r)"
  obtain s' where s': "WriteFile enc p r s = (None, s')" "faults s' = []" "lookup s' p = Some \<lparr>fdata = ?b, fsynced = 0\<rparr>"
    using assms(2)
    by (simp add: WriteFile_def and_then_def os_create_trunc_def os_write_def os_noop_def upd_file_def new_file_def)
  have "split_lines [] ?b = map enc (Ops r)" using assms(1) by (intro split_history) (auto simp: json_line_def)
  then have "ReadHistory dec p s' = (Ops r, None)"
    using s'(2,3) read_lines_all [OF assms(1), of "[]"] by (simp add: ReadHistory_def os_read_def)
  then show ?thesis using s'(1) by blast
qed

theorem history_roundtrip_witness:
  "let h = \<lparr>hClient = 1, hKind = ''put'', hKey = ''a'', hValue = ''x'', hFound = False, hOutput = [], hOk = True, hUnknown = False, hInvoke = 1, hReturn = 2\<rparr>
   in \<exists>s'. ReadHistory (\<lambda>b. if b = [123, 125] then Inr h else Inl ErrGob) (''d'', ''f'') s' = ([h, h], None)"
proof -
  let ?h = "\<lparr>hClient = 1, hKind = ''put'', hKey = ''a'', hValue = ''x'', hFound = False, hOutput = [], hOk = True, hUnknown = False, hInvoke = 1, hReturn = 2\<rparr>"
  show ?thesis
    using history_roundtrip [of "Record ?h (Record ?h NewRecorder)" "\<lambda>_. [123, 125]" "\<lambda>b. if b = [123, 125] then Inr ?h else Inl ErrGob"
        "\<lparr>files = [], faults = [], windows = False\<rparr>" "(''d'', ''f'')"]
    by (auto simp: Record_def NewRecorder_def Ops_def json_line_def scanBuffer_def Let_def)
qed

end
