(* ===== verification/Workload.thy ===== *)
theory Workload
  imports History GoStrings
begin

text \<open>
  \<^verbatim>\<open>internal/nemesis/workload.go\<close>: session clients that write and read through a misbehaving
  cluster, the legal final values of every key, and the verification at the end. The cluster is
  the list of the answers to the attempts of one operation, until its deadline; an error
  answer is its text. The clock is a list of readings.
\<close>

record keyState =
  ackedSerial :: u64
  acked :: string
  unknownLater :: "(u64 \<times> string) list"

record Workload =
  wRec :: Recorder
  wAddrs :: "string list"
  wResolve :: "(string \<Rightarrow> string option) option"
  wSharedKeys :: bool
  wState :: "(string \<times> keyState) list"

definition newKeyState :: keyState where
  "newKeyState = \<lparr>ackedSerial = 0, acked = [], unknownLater = []\<rparr>"

definition stateFor :: "string \<Rightarrow> Workload \<Rightarrow> keyState" where
  "stateFor key w = (case map_of (wState w) key of None \<Rightarrow> newKeyState | Some st \<Rightarrow> st)"

definition set_state :: "string \<Rightarrow> keyState \<Rightarrow> Workload \<Rightarrow> Workload" where
  "set_state key st w = w\<lparr>wState := AList.update key st (wState w)\<rparr>"

definition ack_state :: "u64 \<Rightarrow> string \<Rightarrow> keyState \<Rightarrow> keyState" where
  "ack_state serial val st =
     (if ackedSerial st < serial
      then st\<lparr>ackedSerial := serial, acked := val, unknownLater := filter (\<lambda>(s, _). \<not> s \<le> serial) (unknownLater st)\<rparr>
      else st)"

definition unknown_state :: "u64 \<Rightarrow> string \<Rightarrow> keyState \<Rightarrow> keyState" where
  "unknown_state serial val st =
     (if ackedSerial st < serial then st\<lparr>unknownLater := AList.update serial val (unknownLater st)\<rparr> else st)"

definition noteAck :: "string \<Rightarrow> u64 \<Rightarrow> string \<Rightarrow> Workload \<Rightarrow> Workload" where
  "noteAck key serial val w = (if wSharedKeys w then w else set_state key (ack_state serial val (stateFor key w)) w)"

definition noteUnknown :: "string \<Rightarrow> u64 \<Rightarrow> string \<Rightarrow> Workload \<Rightarrow> Workload" where
  "noteUnknown key serial val w = (if wSharedKeys w then w else set_state key (unknown_state serial val (stateFor key w)) w)"

subsection \<open>Where the next attempt goes\<close>

text \<open>\<open>conns\<close> dials every address, so the pool holds exactly the addresses. \<open>w.Addrs[0]\<close> of an
  empty list panics; a workload has addresses.\<close>

fun follow_hint :: "Workload \<Rightarrow> string list \<Rightarrow> string option" where
  "follow_hint w [] = None"
| "follow_hint w (tok # toks) =
     (if HasPrefix tok ''leader_addr='' then
        let hint = TrimPrefix tok ''leader_addr='';
            resolved = (case wResolve w of None \<Rightarrow> None | Some f \<Rightarrow> f hint)
        in case resolved of
             Some real \<Rightarrow> if real \<in> set (wAddrs w) then Some real
                          else if hint \<in> set (wAddrs w) then Some hint else follow_hint w toks
           | None \<Rightarrow> if hint \<in> set (wAddrs w) then Some hint else follow_hint w toks
      else follow_hint w toks)"

definition nextAddr :: "Workload \<Rightarrow> string \<Rightarrow> string \<Rightarrow> string" where
  "nextAddr w cur e = (case follow_hint w (Fields e) of Some a \<Rightarrow> a | None \<Rightarrow> cycle_next (wAddrs w) cur)"

subsection \<open>Operations\<close>

text \<open>The retry loop of one operation: the answer and the address that gave it, if any came before
  the deadline.\<close>

fun attempts :: "Workload \<Rightarrow> string \<Rightarrow> (string + 'a) list \<Rightarrow> 'a option \<times> string" where
  "attempts w cur [] = (None, cur)"
| "attempts w cur (Inr r # rest) = (Some r, cur)"
| "attempts w cur (Inl e # rest) = attempts w (nextAddr w cur e) rest"

text \<open>Stamp, try, stamp again, record.\<close>

definition run_op ::
  "int \<times> int \<Rightarrow> string \<Rightarrow> (string + 'a) list \<Rightarrow> ('a option \<Rightarrow> int \<Rightarrow> int \<Rightarrow> HistOp) \<Rightarrow> Workload \<Rightarrow> 'a option \<times> string \<times> Workload" where
  "run_op clock cur answers mk w =
     (let (invoke, r1) = Now (fst clock) (wRec w);
          (res, cur') = attempts w cur answers;
          (ret, r2) = Now (snd clock) r1
      in (res, cur', w\<lparr>wRec := Record (mk res invoke ret) r2\<rparr>))"

definition doDelete :: "int \<times> int \<Rightarrow> string \<Rightarrow> u64 \<Rightarrow> string \<Rightarrow> (string + unit) list \<Rightarrow> Workload \<Rightarrow> string \<times> Workload" where
  "doDelete clock cur clientID key answers w =
     (case run_op clock cur answers
        (\<lambda>res invoke ret. \<lparr>hClient = uint clientID, hKind = ''delete'', hKey = key, hValue = [], hFound = False, hOutput = [],
                          hOk = res \<noteq> None, hUnknown = res = None, hInvoke = invoke, hReturn = ret\<rparr>) w of
        (res, cur', w') \<Rightarrow> (cur', w'))"

definition doPut :: "int \<times> int \<Rightarrow> string \<Rightarrow> u64 \<Rightarrow> u64 \<Rightarrow> string \<Rightarrow> string \<Rightarrow> (string + unit) list \<Rightarrow> Workload \<Rightarrow> string \<times> Workload" where
  "doPut clock cur clientID serial key val answers w =
     (case run_op clock cur answers
        (\<lambda>res invoke ret. \<lparr>hClient = uint clientID, hKind = ''put'', hKey = key, hValue = val, hFound = False, hOutput = [],
                          hOk = res \<noteq> None, hUnknown = res = None, hInvoke = invoke, hReturn = ret\<rparr>) w of
        (Some _, cur', w') \<Rightarrow> (cur', noteAck key serial val w')
      | (None, cur', w') \<Rightarrow> (cur', noteUnknown key serial val w'))"

definition doGet :: "int \<times> int \<Rightarrow> string \<Rightarrow> int \<Rightarrow> string \<Rightarrow> (string + bool \<times> string) list \<Rightarrow> Workload \<Rightarrow> string \<times> Workload" where
  "doGet clock cur c key answers w =
     (case run_op clock cur answers
        (\<lambda>res invoke ret. \<lparr>hClient = c + 1, hKind = ''get'', hKey = key, hValue = [],
                          hFound = (case res of Some (f, _) \<Rightarrow> f | None \<Rightarrow> False),
                          hOutput = (case res of Some (_, v) \<Rightarrow> v | None \<Rightarrow> []),
                          hOk = res \<noteq> None, hUnknown = res = None, hInvoke = invoke, hReturn = ret\<rparr>) w of
        (res, cur', w') \<Rightarrow> (cur', w'))"

text \<open>One round of \<open>client\<close>: the two numbers drawn, the clock and the answers decide what happens;
  writes take the next serial.\<close>

record client_state =
  kCur :: string
  kSerial :: u64

definition client_key :: "Workload \<Rightarrow> nat \<Rightarrow> nat \<Rightarrow> string" where
  "client_key w c j = (if wSharedKeys w then ''shared-k'' @ itoa j else ''c'' @ itoa c @ ''-k'' @ itoa j)"

definition client_op ::
  "nat \<Rightarrow> nat \<Rightarrow> nat \<Rightarrow> int \<times> int \<Rightarrow> (string + bool \<times> string) list \<Rightarrow> client_state \<Rightarrow> Workload \<Rightarrow> client_state \<times> Workload" where
  "client_op c j pick clock answers k w =
     (let key = client_key w c j; clientID = word_of_nat (c + 1); writes = map (map_sum id (\<lambda>_. ())) answers
      in if pick < 55 then
           (case doPut clock (kCur k) clientID (kSerial k + 1) key (''c'' @ itoa c @ ''-s'' @ itoa (unat (kSerial k + 1))) writes w of
              (cur, w') \<Rightarrow> (\<lparr>kCur = cur, kSerial = kSerial k + 1\<rparr>, w'))
         else if wSharedKeys w \<and> pick < 65 then
           (case doDelete clock (kCur k) clientID key writes w of (cur, w') \<Rightarrow> (\<lparr>kCur = cur, kSerial = kSerial k + 1\<rparr>, w'))
         else (case doGet clock (kCur k) (int c) key answers w of (cur, w') \<Rightarrow> (k\<lparr>kCur := cur\<rparr>, w')))"

subsection \<open>Verification\<close>

datatype verify_error = SharedMode | ClusterUnavailable string | KeyVanished string | IllegalValue string

definition legal_values :: "keyState \<Rightarrow> string set" where
  "legal_values st = (if ackedSerial st > 0 then {acked st} else {}) \<union> snd ` set (unknownLater st)"

definition verify_key :: "string \<Rightarrow> keyState \<Rightarrow> bool \<times> string \<Rightarrow> verify_error option" where
  "verify_key key st r =
     (case r of (found, got) \<Rightarrow>
        if \<not> found \<and> ackedSerial st > 0 then Some (KeyVanished key)
        else if found \<and> legal_values st \<noteq> {} \<and> got \<notin> legal_values st then Some (IllegalValue key)
        else None)"

fun verify_loop :: "Workload \<Rightarrow> string \<Rightarrow> (string \<times> (string + bool \<times> string) list) list \<Rightarrow> verify_error option" where
  "verify_loop w cur [] = None"
| "verify_loop w cur ((key, answers) # rest) =
     (case attempts w cur answers of
        (None, cur') \<Rightarrow> Some (ClusterUnavailable key)
      | (Some r, cur') \<Rightarrow>
          (case verify_key key (stateFor key w) r of Some e \<Rightarrow> Some e | None \<Rightarrow> verify_loop w cur' rest))"

text \<open>The keys with their answers, in the order in which Go iterates over the map.\<close>

definition Verify :: "Workload \<Rightarrow> (string \<times> (string + bool \<times> string) list) list \<Rightarrow> verify_error option" where
  "Verify w answers = (if wSharedKeys w then Some SharedMode else verify_loop w (wAddrs w ! 0) answers)"

subsection \<open>Attempts go to dialed nodes\<close>

lemma follow_hint_in: "follow_hint w toks = Some a \<Longrightarrow> a \<in> set (wAddrs w)"
  by (induction toks) (auto simp: Let_def split: if_splits option.splits)

lemma nextAddr_in: "wAddrs w \<noteq> [] \<Longrightarrow> nextAddr w cur e \<in> set (wAddrs w)"
  by (auto simp: nextAddr_def cycle_next_in follow_hint_in split: option.splits)

lemma attempts_in: "wAddrs w \<noteq> [] \<Longrightarrow> cur \<in> set (wAddrs w) \<Longrightarrow> snd (attempts w cur answers) \<in> set (wAddrs w)"
  by (induction w cur answers rule: attempts.induct) (auto simp: nextAddr_in)

text \<open>Every recorded window is a proper interval.\<close>

lemma run_op_window:
  "run_op clock cur answers mk w = (res, cur', w') \<Longrightarrow>
   \<exists>a b. a < b \<and> rOps (wRec w') = rOps (wRec w) @ [mk res a b] \<and> rLast (wRec w) < a \<and> rLast (wRec w') = b"
  using bump_gt [of "rLast (wRec w)" "fst clock"] bump_gt [of "bump (fst clock) (rLast (wRec w))" "snd clock"]
  by (intro exI [of _ "bump (fst clock) (rLast (wRec w))"] exI [of _ "bump (snd clock) (bump (fst clock) (rLast (wRec w)))"])
    (auto simp: run_op_def Now_def Record_def compare_and_swap_def Let_def split: prod.splits)

subsection \<open>The final value\<close>

text \<open>What the client learns about its writes to one key, in the order of their serials.\<close>

datatype wnote = Acked (note_serial: u64) (note_value: string) | Unresolved (note_serial: u64) (note_value: string)

definition note_step :: "string \<Rightarrow> wnote \<Rightarrow> Workload \<Rightarrow> Workload" where
  "note_step key n w = (case n of Acked s v \<Rightarrow> noteAck key s v w | Unresolved s v \<Rightarrow> noteUnknown key s v w)"

abbreviation is_acked :: "wnote \<Rightarrow> bool" where
  "is_acked n \<equiv> (\<exists>s v. n = Acked s v)"

definition state_step :: "wnote \<Rightarrow> keyState \<Rightarrow> keyState" where
  "state_step n st = (case n of Acked s v \<Rightarrow> ack_state s v st | Unresolved s v \<Rightarrow> unknown_state s v st)"

lemma stateFor_notes:
  "\<not> wSharedKeys w \<Longrightarrow> \<not> wSharedKeys (fold (note_step key) ns w) \<and>
   stateFor key (fold (note_step key) ns w) = fold state_step ns (stateFor key w)"
  by (induction ns arbitrary: w)
    (auto simp: note_step_def state_step_def noteAck_def noteUnknown_def set_state_def stateFor_def update_conv' split: wnote.splits)

text \<open>The state after some notes: the last acknowledged one, and the unresolved ones since.\<close>

fun summary :: "wnote list \<Rightarrow> keyState \<Rightarrow> keyState" where
  "summary [] st = st"
| "summary (Acked s v # ns) st = summary ns \<lparr>ackedSerial = s, acked = v, unknownLater = []\<rparr>"
| "summary (Unresolved s v # ns) st = summary ns (st\<lparr>unknownLater := unknownLater st @ [(s, v)]\<rparr>)"

lemma update_new_key: "k \<notin> fst ` set al \<Longrightarrow> AList.update k v al = al @ [(k, v)]"
  by (induction al) auto

lemma notes_summary:
  assumes "sorted_wrt (<) (map note_serial ns)" "\<forall>n \<in> set ns. ackedSerial st < note_serial n"
    and "\<forall>(s, v) \<in> set (unknownLater st). \<forall>n \<in> set ns. s < note_serial n"
  shows "fold state_step ns st = summary ns st"
  using assms
proof (induction ns arbitrary: st)
  case (Cons n ns)
  show ?case
  proof (cases n)
    case (Acked s v)
    have "filter (\<lambda>(t, _). \<not> t \<le> s) (unknownLater st) = []"
      using Cons.prems(3) Acked by (force simp: filter_empty_conv)
    then have "state_step n st = \<lparr>ackedSerial = s, acked = v, unknownLater = []\<rparr>"
      using Cons.prems(2) Acked by (simp add: state_step_def ack_state_def)
    then show ?thesis using Cons.prems Acked by (simp add: Cons.IH)
  next
    case (Unresolved s v)
    have "s \<notin> fst ` set (unknownLater st)" using Cons.prems(3) Unresolved by force
    then have "state_step n st = st\<lparr>unknownLater := unknownLater st @ [(s, v)]\<rparr>"
      using Cons.prems(2) Unresolved by (simp add: state_step_def unknown_state_def update_new_key)
    moreover have "fold state_step ns (st\<lparr>unknownLater := unknownLater st @ [(s, v)]\<rparr>) = summary ns (st\<lparr>unknownLater := unknownLater st @ [(s, v)]\<rparr>)"
      using Cons.prems Unresolved by (intro Cons.IH) auto
    ultimately show ?thesis using Unresolved by simp
  qed
qed simp

text \<open>The final values that are possible: of the writes of unknown outcome any selection took
  effect, of the acknowledged ones all, each in its turn; the last one that did is seen.\<close>

inductive possible :: "wnote list \<Rightarrow> string option \<Rightarrow> string option \<Rightarrow> bool" where
  none: "possible [] v v"
| effect: "possible ns (Some (note_value n)) v \<Longrightarrow> possible (n # ns) u v"
| lost: "possible ns u v \<Longrightarrow> \<not> is_acked n \<Longrightarrow> possible (n # ns) u v"

inductive_cases possible_NilE: "possible [] u v"
inductive_cases possible_ConsE: "possible (n # ns) u v"

definition allowed :: "keyState \<Rightarrow> string option \<Rightarrow> bool" where
  "allowed st v = (case v of None \<Rightarrow> ackedSerial st = 0 | Some x \<Rightarrow> x \<in> legal_values st)"

lemma possible_Cons:
  "possible (n # ns) u v \<longleftrightarrow> possible ns (Some (note_value n)) v \<or> \<not> is_acked n \<and> possible ns u v"
  by (auto elim: possible_ConsE intro: possible.intros)

lemma some_allowed: "\<exists>u. allowed st u"
  by (cases "ackedSerial st = 0") (auto simp: allowed_def legal_values_def word_gt_0 intro: exI [of _ None] exI [of _ "Some (acked st)"])

lemma summary_exact:
  "\<forall>n \<in> set ns. 0 < note_serial n \<Longrightarrow> allowed (summary ns st) v \<longleftrightarrow> (\<exists>u. allowed st u \<and> possible ns u v)"
proof (induction ns st rule: summary.induct)
  case (1 st)
  show ?case by (auto elim: possible_NilE intro: possible.none)
next
  case (2 s x ns st)
  then have "allowed \<lparr>ackedSerial = s, acked = x, unknownLater = []\<rparr> u \<longleftrightarrow> u = Some x" for u
    by (auto simp: allowed_def legal_values_def split: option.splits)
  then show ?case using 2 some_allowed [of st] by (simp add: possible_Cons)
next
  case (3 s x ns st)
  have "allowed (st\<lparr>unknownLater := unknownLater st @ [(s, x)]\<rparr>) u \<longleftrightarrow> allowed st u \<or> u = Some x" for u
    by (auto simp: allowed_def legal_values_def split: option.splits)
  then show ?case using 3 some_allowed [of st] by (auto simp: possible_Cons)
qed

lemma legal_values_summary:
  "\<forall>n \<in> set ns. 0 < note_serial n \<Longrightarrow> ns \<noteq> [] \<or> legal_values st \<noteq> {} \<Longrightarrow> legal_values (summary ns st) \<noteq> {}"
proof (induction ns st rule: summary.induct)
  case (2 s x ns st)
  then have "legal_values \<lparr>ackedSerial = s, acked = x, unknownLater = []\<rparr> \<noteq> {}" by (simp add: legal_values_def)
  then show ?case using 2 by simp
next
  case (3 s x ns st)
  have "legal_values (st\<lparr>unknownLater := unknownLater st @ [(s, x)]\<rparr>) \<noteq> {}" by (simp add: legal_values_def)
  then show ?case using 3 by simp
qed simp

text \<open>C14. What the final verification accepts: after writes to one key with growing serials, some
  acknowledged and some of unknown outcome, a key read back passes exactly when its value is
  what the acknowledged writes and some selection of the others leave. A lost acknowledged
  write is always noticed, and a write whose acknowledgement was lost never is a false alarm.\<close>

theorem verify_is_exact:
  assumes "\<not> wSharedKeys w" "stateFor key w = newKeyState"
    and "ns \<noteq> []" "sorted_wrt (<) (map note_serial ns)" "\<forall>n \<in> set ns. 0 < note_serial n"
  shows "verify_key key (stateFor key (fold (note_step key) ns w)) (found, got) = None
    \<longleftrightarrow> possible ns None (if found then Some got else None)"
proof -
  let ?st = "stateFor key (fold (note_step key) ns w)"
  have st: "?st = summary ns newKeyState"
    using stateFor_notes [OF assms(1), of key ns] notes_summary [OF assms(4), of newKeyState] assms(2,5)
    by (simp add: newKeyState_def)
  have "legal_values ?st \<noteq> {}" unfolding st using legal_values_summary assms(3,5) by blast
  then have "verify_key key ?st (found, got) = None \<longleftrightarrow> allowed ?st (if found then Some got else None)"
    by (auto simp: verify_key_def allowed_def word_gt_0)
  also have "\<dots> \<longleftrightarrow> possible ns None (if found then Some got else None)"
  proof -
    have "allowed newKeyState u \<longleftrightarrow> u = None" for u
      by (auto simp: allowed_def newKeyState_def legal_values_def split: option.splits)
    then show ?thesis unfolding st summary_exact [OF assms(5)] by simp
  qed
  finally show ?thesis .
qed

theorem verify_is_exact_witness:
  "let w = fold (note_step ''k'') [Acked 1 ''a'', Unresolved 2 ''b''] \<lparr>wRec = NewRecorder, wAddrs = [''n1''], wResolve = None, wSharedKeys = False, wState = []\<rparr>
   in verify_key ''k'' (stateFor ''k'' w) (True, ''b'') = None \<and> verify_key ''k'' (stateFor ''k'' w) (False, []) \<noteq> None"
proof -
  let ?w = "\<lparr>wRec = NewRecorder, wAddrs = [''n1''], wResolve = None, wSharedKeys = False, wState = []\<rparr>"
  have "possible [Acked 1 ''a'', Unresolved 2 ''b''] None (Some ''b'')" "\<not> possible [Acked 1 ''a'', Unresolved 2 ''b''] None None"
    by (auto simp: possible_Cons intro: possible.none elim: possible_NilE)
  then show ?thesis
    using verify_is_exact [of ?w "''k''" "[Acked 1 ''a'', Unresolved 2 ''b'']" True "''b''"]
      verify_is_exact [of ?w "''k''" "[Acked 1 ''a'', Unresolved 2 ''b'']" False "[]"]
    by (simp add: stateFor_def Let_def)
qed

end
