(* ===== verification/Proxy.thy ===== *)
theory Proxy
  imports Prelude
begin

text \<open>
  \<^verbatim>\<open>internal/nemesis/proxy.go\<close>: one proxy for every directed edge of the cluster. A connection is a
  number; the sockets that the code closes are collected in \<open>pClosedConns\<close>. The bytes that a
  proxy copies, and how long it sleeps before each write, are not modelled; what is modelled
  is which connections it lets through, which it cuts, and what delay it would add.
\<close>

record Proxy =
  pFrom :: u64
  pTo :: u64
  pAddr :: string
  pTarget :: string
  pDropped :: bool
  pDelay :: nat
  pConns :: "nat list"
  pClosed :: bool
  pClosedConns :: "nat list"

definition newProxy :: "u64 \<Rightarrow> u64 \<Rightarrow> string \<Rightarrow> string \<Rightarrow> Proxy" where
  "newProxy src dst target addr =
     \<lparr>pFrom = src, pTo = dst, pAddr = addr, pTarget = target, pDropped = False, pDelay = 0, pConns = [], pClosed = False, pClosedConns = []\<rparr>"

subsection \<open>Connections\<close>

definition close_conns :: "nat list \<Rightarrow> Proxy \<Rightarrow> Proxy" where
  "close_conns cs p = p\<lparr>pClosedConns := pClosedConns p @ cs\<rparr>"

text \<open>One round of \<open>acceptLoop\<close>, and \<open>forward\<close> once it has dialed the target (or failed to):
  the two places where connections are let in. \<open>forward\<close> untracks the client when it ends.\<close>

definition acceptLoop :: "nat \<Rightarrow> Proxy \<Rightarrow> Proxy" where
  "acceptLoop c p =
     (if pDropped p \<or> pClosed p then close_conns [c] p else p\<lparr>pConns := List.insert c (pConns p)\<rparr>)"

definition untrack :: "nat \<Rightarrow> Proxy \<Rightarrow> Proxy" where
  "untrack c p = p\<lparr>pConns := removeAll c (pConns p)\<rparr>"

definition forward :: "nat \<Rightarrow> nat option \<Rightarrow> Proxy \<Rightarrow> Proxy" where
  "forward c dialed p =
     (case dialed of
        None \<Rightarrow> untrack c (close_conns [c] p)
      | Some srv \<Rightarrow>
          if pDropped p \<or> pClosed p then untrack c (close_conns [c, srv] p)
          else p\<lparr>pConns := List.insert srv (pConns p)\<rparr>)"

text \<open>The end of the copying in both directions.\<close>

definition forward_done :: "nat \<Rightarrow> nat \<Rightarrow> Proxy \<Rightarrow> Proxy" where
  "forward_done c srv p = untrack c (untrack srv (close_conns [srv, c] p))"

definition setDropped :: "bool \<Rightarrow> Proxy \<Rightarrow> Proxy" where
  "setDropped v p = (if v then close_conns (pConns p) (p\<lparr>pDropped := v, pConns := []\<rparr>) else p\<lparr>pDropped := v\<rparr>)"

definition setDelay :: "nat \<Rightarrow> Proxy \<Rightarrow> Proxy" where
  "setDelay d p = p\<lparr>pDelay := d\<rparr>"

definition proxy_close :: "Proxy \<Rightarrow> Proxy" where
  "proxy_close p = setDropped True (p\<lparr>pClosed := True\<rparr>)"

subsection \<open>The network\<close>

type_synonym Net = "((u64 \<times> u64) \<times> Proxy) list"

text \<open>The listeners get the addresses \<open>listen i j\<close>; \<open>None\<close> is a failure to listen, after which
  everything is closed again.\<close>

fun build_edges :: "(u64 \<Rightarrow> u64 \<Rightarrow> string option) \<Rightarrow> ((u64 \<times> u64) \<times> string) list \<Rightarrow> Net \<Rightarrow> Net option" where
  "build_edges listen [] net = Some net"
| "build_edges listen (((i, j), target) # es) net =
     (if i = j then build_edges listen es net
      else case listen i j of
             None \<Rightarrow> None
           | Some a \<Rightarrow> build_edges listen es (net @ [((i, j), newProxy i j target a)]))"

definition NewNet :: "(u64 \<Rightarrow> u64 \<Rightarrow> string option) \<Rightarrow> (u64 \<times> string) list \<Rightarrow> Net option" where
  "NewNet listen realAddrs =
     build_edges listen (concat (map (\<lambda>(i, _). map (\<lambda>(j, t). ((i, j), t)) realAddrs) realAddrs)) []"

text \<open>\<open>None\<close> is the nil dereference of a missing edge, or the panic of \<open>edge\<close>.\<close>

definition PeerAddr :: "Net \<Rightarrow> u64 \<Rightarrow> u64 \<Rightarrow> string option" where
  "PeerAddr net i j = map_option pAddr (map_of net (i, j))"

definition ProxyOwner :: "Net \<Rightarrow> string \<Rightarrow> u64 option" where
  "ProxyOwner net a = (case filter (\<lambda>(e, p). pAddr p = a) net of [] \<Rightarrow> None | (e, p) # _ \<Rightarrow> Some (snd e))"

definition on_edge :: "(Proxy \<Rightarrow> Proxy) \<Rightarrow> u64 \<Rightarrow> u64 \<Rightarrow> Net \<Rightarrow> Net option" where
  "on_edge f i j net =
     (case map_of net (i, j) of None \<Rightarrow> None | Some _ \<Rightarrow> Some (map (\<lambda>(e, p). (e, if e = (i, j) then f p else p)) net))"

definition Blackhole :: "u64 \<Rightarrow> u64 \<Rightarrow> Net \<Rightarrow> Net option" where
  "Blackhole = on_edge (setDropped True)"

definition HealEdge :: "u64 \<Rightarrow> u64 \<Rightarrow> Net \<Rightarrow> Net option" where
  "HealEdge = on_edge (setDropped False)"

text \<open>\<open>side[id]\<close>: the last group that lists a node, and 0 for a node in no group.\<close>

definition side :: "u64 list list \<Rightarrow> u64 \<Rightarrow> nat" where
  "side groups i = (case filter (\<lambda>k. i \<in> set (groups ! k)) [0..<length groups] of [] \<Rightarrow> 0 | ks \<Rightarrow> last ks)"

definition Partition :: "u64 list list \<Rightarrow> Net \<Rightarrow> Net" where
  "Partition groups net = map (\<lambda>(e, p). (e, setDropped (side groups (fst e) \<noteq> side groups (snd e)) p)) net"

definition Heal :: "Net \<Rightarrow> Net" where
  "Heal net = map (\<lambda>(e, p). (e, setDelay 0 (setDropped False p))) net"

definition DelayAll :: "nat \<Rightarrow> Net \<Rightarrow> Net" where
  "DelayAll d net = map (\<lambda>(e, p). (e, setDelay d p)) net"

definition net_Close :: "Net \<Rightarrow> Net" where
  "net_Close net = map (\<lambda>(e, p). (e, proxy_close p)) net"

subsection \<open>Cut edges carry nothing\<close>

text \<open>Everything that can happen to the network: the connections of any edge move on, and the
  harness injects or heals faults.\<close>

inductive conn_step :: "Net \<Rightarrow> Net \<Rightarrow> bool" where
  accept: "on_edge (acceptLoop c) i j net = Some net' \<Longrightarrow> conn_step net net'"
| forward: "on_edge (forward c dialed) i j net = Some net' \<Longrightarrow> conn_step net net'"
| finish: "on_edge (forward_done c srv) i j net = Some net' \<Longrightarrow> conn_step net net'"

inductive net_step :: "Net \<Rightarrow> Net \<Rightarrow> bool" where
  conn: "conn_step net net' \<Longrightarrow> net_step net net'"
| blackhole: "Blackhole i j net = Some net' \<Longrightarrow> net_step net net'"
| heal_edge: "HealEdge i j net = Some net' \<Longrightarrow> net_step net net'"
| partition: "net_step net (Partition groups net)"
| heal: "net_step net (Heal net)"
| delay: "net_step net (DelayAll d net)"
| close: "net_step net (net_Close net)"

inductive net_reach :: "(u64 \<Rightarrow> u64 \<Rightarrow> string option) \<Rightarrow> (u64 \<times> string) list \<Rightarrow> Net \<Rightarrow> bool" for listen realAddrs where
  start: "NewNet listen realAddrs = Some net \<Longrightarrow> net_reach listen realAddrs net"
| step: "net_reach listen realAddrs net \<Longrightarrow> net_step net net' \<Longrightarrow> net_reach listen realAddrs net'"

text \<open>An edge in order: cut or closed it has no open connection, and it listens where it was set up.\<close>

definition edge_ok :: "(u64 \<Rightarrow> u64 \<Rightarrow> string option) \<Rightarrow> u64 \<times> u64 \<Rightarrow> Proxy \<Rightarrow> bool" where
  "edge_ok listen e p \<longleftrightarrow> (pDropped p \<or> pClosed p \<longrightarrow> pConns p = []) \<and> listen (fst e) (snd e) = Some (pAddr p)"

abbreviation edges_ok :: "(u64 \<Rightarrow> u64 \<Rightarrow> string option) \<Rightarrow> Net \<Rightarrow> bool" where
  "edges_ok listen net \<equiv> \<forall>(e, p) \<in> set net. edge_ok listen e p"

lemmas proxy_defs = acceptLoop_def forward_def forward_done_def untrack_def close_conns_def setDropped_def setDelay_def proxy_close_def

lemma edge_ok_ops:
  "edge_ok l e p \<Longrightarrow> edge_ok l e (acceptLoop c p)" "edge_ok l e p \<Longrightarrow> edge_ok l e (forward c d p)"
  "edge_ok l e p \<Longrightarrow> edge_ok l e (forward_done c srv p)" "edge_ok l e p \<Longrightarrow> edge_ok l e (setDropped v p)"
  "edge_ok l e p \<Longrightarrow> edge_ok l e (setDelay n p)" "edge_ok l e p \<Longrightarrow> edge_ok l e (proxy_close p)"
  by (auto simp: edge_ok_def proxy_defs split: option.splits)

lemma on_edge_mem:
  "on_edge f i j net = Some net' \<Longrightarrow> (e, p') \<in> set net' \<Longrightarrow> \<exists>p. (e, p) \<in> set net \<and> p' = (if e = (i, j) then f p else p)"
  unfolding on_edge_def by (cases "map_of net (i, j)") force+

lemma on_edge_ok:
  assumes "on_edge f i j net = Some net'" "edges_ok l net" "\<And>e p. edge_ok l e p \<Longrightarrow> edge_ok l e (f p)"
  shows "edges_ok l net'"
proof clarify
  fix a b p' assume "((a, b), p') \<in> set net'"
  then obtain p where "((a, b), p) \<in> set net" "p' = (if (a, b) = (i, j) then f p else p)"
    using on_edge_mem [OF assms(1)] by blast
  then show "edge_ok l (a, b) p'" using assms(2,3) by fastforce
qed

lemma map_edges_ok:
  assumes "edges_ok l net" "\<And>e p. edge_ok l e p \<Longrightarrow> edge_ok l e (f e p)" shows "edges_ok l (map (\<lambda>(e, p). (e, f e p)) net)"
  using assms by fastforce

lemma conn_step_ok: "conn_step net net' \<Longrightarrow> edges_ok l net \<Longrightarrow> edges_ok l net'"
  by (induction rule: conn_step.induct) (erule (1) on_edge_ok, erule edge_ok_ops)+

lemma net_step_ok: "net_step net net' \<Longrightarrow> edges_ok l net \<Longrightarrow> edges_ok l net'"
proof (induction rule: net_step.induct)
  case (blackhole i j net net')
  then show ?case unfolding Blackhole_def by (rule on_edge_ok) (rule edge_ok_ops)
next
  case (heal_edge i j net net')
  then show ?case unfolding HealEdge_def by (rule on_edge_ok) (rule edge_ok_ops)
next
  case (partition net groups)
  then show ?case unfolding Partition_def by (rule map_edges_ok) (rule edge_ok_ops)
next
  case (heal net)
  then show ?case unfolding Heal_def by (rule map_edges_ok) (intro edge_ok_ops)
next
  case (delay net d)
  then show ?case unfolding DelayAll_def by (rule map_edges_ok) (rule edge_ok_ops)
next
  case (close net)
  then show ?case unfolding net_Close_def by (rule map_edges_ok) (rule edge_ok_ops)
qed (rule conn_step_ok)

lemma build_edges_ok: "build_edges listen es net = Some net' \<Longrightarrow> edges_ok listen net \<Longrightarrow> edges_ok listen net'"
  by (induction listen es net rule: build_edges.induct)
    (auto simp: edge_ok_def newProxy_def split: if_splits option.splits)

lemma net_reach_ok: "net_reach listen realAddrs net \<Longrightarrow> edges_ok listen net"
proof (induction rule: net_reach.induct)
  case (start net)
  then show ?case unfolding NewNet_def using build_edges_ok [of listen _ "[]" net] by simp
qed (rule net_step_ok)

text \<open>Connections never change whether an edge is cut.\<close>

lemma conn_step_dropped:
  "conn_step net net' \<Longrightarrow> (e, p') \<in> set net' \<Longrightarrow> \<exists>p. (e, p) \<in> set net \<and> pDropped p' = pDropped p"
  by (induction rule: conn_step.induct) (drule (1) on_edge_mem, force simp: proxy_defs split: option.splits)+


definition listen3 :: "u64 \<Rightarrow> u64 \<Rightarrow> string option" where
  "listen3 i j = Some (replicate (unat i) CHR ''a'' @ replicate (unat j) CHR ''b'')"


text \<open>C22. The address of an edge leads back to the node behind it: when the listeners have different
  addresses, the owner of the address that one node uses for another is that other node, after
  any faults.\<close>

theorem proxy_owner_roundtrip:
  assumes "net_reach listen realAddrs net" "PeerAddr net i j = Some a"
    and "\<forall>i j k l. listen i j \<noteq> None \<and> listen i j = listen k l \<longrightarrow> i = k \<and> j = l"
  shows "ProxyOwner net a = Some j"
proof -
  obtain p where p: "((i, j), p) \<in> set net" "pAddr p = a" using assms(2) by (auto simp: PeerAddr_def dest: map_of_SomeD)
  have l: "listen (fst e) (snd e) = Some (pAddr q)" if "(e, q) \<in> set net" for e q
    using net_reach_ok [OF assms(1)] that unfolding edge_ok_def by fastforce
  have u: "snd e = j" if "(e, q) \<in> set net" "pAddr q = a" for e q
    using l [OF that(1)] l [OF p(1)] assms(3) that(2) p(2) by (metis fst_conv option.distinct(1) snd_conv)
  have "filter (\<lambda>(e, p). pAddr p = a) net \<noteq> []" using p by (force simp: filter_empty_conv)
  then obtain e q rest where f: "filter (\<lambda>(e, p). pAddr p = a) net = (e, q) # rest" by (metis list.exhaust surj_pair)
  have "(e, q) \<in> set (filter (\<lambda>(e, p). pAddr p = a) net)" unfolding f by simp
  then have "snd e = j" using u [of e q] by simp
  then show ?thesis using f by (simp add: ProxyOwner_def)
qed

lemma runs_inject:
  "replicate m CHR ''a'' @ replicate n CHR ''b'' = replicate k CHR ''a'' @ replicate l CHR ''b'' \<longleftrightarrow> m = k \<and> n = l"
proof
  assume e: "replicate m CHR ''a'' @ replicate n CHR ''b'' = replicate k CHR ''a'' @ replicate l CHR ''b''"
  have c: "length (filter ((=) x) (replicate m CHR ''a'' @ replicate n CHR ''b'')) = length (filter ((=) x) (replicate k CHR ''a'' @ replicate l CHR ''b''))" for x
    by (simp only: e)
  show "m = k \<and> n = l" using c [of "CHR ''a''"] c [of "CHR ''b''"] by simp
qed simp

theorem proxy_owner_roundtrip_witness:
  "\<exists>net a. NewNet listen3 [(1, ''x''), (2, ''y'')] = Some net \<and> PeerAddr net 1 2 = Some a \<and> ProxyOwner net a = Some 2"
proof -
  obtain net a where n: "NewNet listen3 [(1, ''x''), (2, ''y'')] = Some net" "PeerAddr net 1 2 = Some a"
    by (simp add: NewNet_def listen3_def PeerAddr_def newProxy_def)
  have "\<forall>i j k l. listen3 i j \<noteq> None \<and> listen3 i j = listen3 k l \<longrightarrow> i = k \<and> j = l"
    by (simp add: listen3_def runs_inject word_unat_eq_iff)
  then show ?thesis using proxy_owner_roundtrip [OF net_reach.start [OF n(1)] n(2)] n by blast
qed

end
