(* ===== verification/Cluster.thy ===== *)
theory Cluster
  imports RaftVotes
begin

text \<open>
  A Raft group as a whole: the nodes of \<^verbatim>\<open>internal/raft\<close> over their own disks, the network
  between them, crashes and restarts. A request that a node has handed to the transport
  (\<open>sendAsync\<close>) may arrive at any later time, any number of times, or never, and so may the
  answer to it; a disk operation may fail at any point; a machine may crash at any point of time
  and come up again with what its disk kept. What is proved here holds for every such run.
\<close>

subsection \<open>Quorums\<close>

text \<open>All that elections need of counting: two quorums have a member in common.\<close>

locale quorum_system =
  fixes quorum :: "'a set \<Rightarrow> bool"
  assumes common: "quorum Q \<Longrightarrow> quorum R \<Longrightarrow> \<exists>x. x \<in> Q \<and> x \<in> R"
begin

lemma agree:
  assumes "quorum Q" "quorum R" "\<And>x. x \<in> Q \<Longrightarrow> vote x = a" "\<And>x. x \<in> R \<Longrightarrow> vote x = b"
  shows "a = b"
  using common [OF assms(1,2)] assms(3,4) by auto

end

definition majority_of :: "u64 list \<Rightarrow> u64 set \<Rightarrow> bool" where
  "majority_of ms Q \<longleftrightarrow> Q \<subseteq> set ms \<and> length ms div 2 + 1 \<le> card Q"

lemma majorities_meet:
  assumes "majority_of ms Q" "majority_of ms R"
  shows "\<exists>x. x \<in> Q \<and> x \<in> R"
proof (rule ccontr)
  assume "\<nexists>x. x \<in> Q \<and> x \<in> R"
  then have d: "Q \<inter> R = {}" by auto
  have s: "Q \<subseteq> set ms" "R \<subseteq> set ms" using assms by (auto simp: majority_of_def)
  have "card Q + card R = card (Q \<union> R)"
    using card_Un_disjoint [OF _ _ d] s finite_subset [OF _ finite_set] by metis
  also have "\<dots> \<le> card (set ms)" by (rule card_mono) (use s in auto)
  also have "\<dots> \<le> length ms" by (rule card_length)
  finally have "card Q + card R \<le> length ms" .
  then show False using assms unfolding majority_of_def by linarith
qed

interpretation maj: quorum_system "majority_of ms" for ms
  by unfold_locales (rule majorities_meet)

subsection \<open>The cluster\<close>

text \<open>A machine is up, with its node running, or down, with what is on its disk.\<close>

datatype 'sm host = Up "'sm Node" | Down fs

fun disk_of :: "'sm host \<Rightarrow> fs" where
  "disk_of (Up n) = disk (nCore n)"
| "disk_of (Down s) = s"

text \<open>Requests are recorded with their sender, answers with the request they belong to; \<open>led\<close>
  remembers who was seen leading in which term, \<open>states\<close> which state machines were seen behind
  how many applied entries.\<close>

record 'sm cluster =
  hosts :: "u64 \<Rightarrow> 'sm host"
  sent :: "(u64 \<times> outbound) set"
  answered :: "(u64 \<times> outbound \<times> reply_msg) set"
  led :: "(u64 \<times> u64) set"
  states :: "(u64 \<times> 'sm) set"

record 'sm deployment =
  dMembers :: "u64 list"
  dConfig :: "u64 \<Rightarrow> Config"
  dMachine :: "'sm StateMachine"
  dInit :: 'sm
  dThreshold :: u64
  dPeers :: "members option"
  dKills :: bool

definition with_faults :: "nat option list \<Rightarrow> 'sm Node \<Rightarrow> 'sm Node" where
  "with_faults fl n = n\<lparr>nCore := (nCore n)\<lparr>disk := (disk (nCore n))\<lparr>faults := fl\<rparr>\<rparr>\<rparr>"

text \<open>What a node is asked to do other than by its peers. A proposal fits a log record, which the
  bounds on gRPC messages see to.\<close>

definition fits_record :: "u32 \<Rightarrow> bytes \<Rightarrow> bool" where
  "fits_record typ b = entry_ok \<lparr>eTerm = 0, eIndex = 0, eType = typ, eCommand = b\<rparr>"

definition local_event :: "event \<Rightarrow> bool" where
  "local_event ev = (case ev of evTick \<Rightarrow> True | evPropose b typ _ _ \<Rightarrow> fits_record typ b
     | evConfChange cc _ _ \<Rightarrow> fits_record ENTRY_TYPE_CONFIG (encodeConfChange cc)
     | evTransfer _ _ \<Rightarrow> True | evRead _ \<Rightarrow> True | _ \<Rightarrow> False)"

definition request_event :: "message \<Rightarrow> nat \<Rightarrow> event" where
  "request_event m ch = (case m of
     RequestVote q \<Rightarrow> evRequestVote q ch
   | AppendEntries q \<Rightarrow> evAppendEntries q ch
   | InstallSnapshot q \<Rightarrow> evInstallSnapshot q ch
   | TimeoutNow q \<Rightarrow> evTimeoutNow q ch)"

definition leads :: "'sm Node \<Rightarrow> bool" where
  "leads n \<longleftrightarrow> role (nCore n) = leader \<and> \<not> nStopped n"

text \<open>Put a node back after a step: what it sent is on the network, and its rule is noted.\<close>

definition put_back :: "u64 \<Rightarrow> 'sm Node \<Rightarrow> 'sm cluster \<Rightarrow> 'sm cluster" where
  "put_back i n C = C\<lparr>hosts := (hosts C)(i := Up n), sent := sent C \<union> Pair i ` set (nSent n),
     led := led C \<union> (if leads n then {(currentTerm (nCore n), i)} else {}),
     states := states C \<union> (if nStopped n then {} else {(nApplied n, nSM n)})\<rparr>"

definition put_down :: "u64 \<Rightarrow> fs \<Rightarrow> 'sm cluster \<Rightarrow> 'sm cluster" where
  "put_down i s C = C\<lparr>hosts := (hosts C)(i := Down s)\<rparr>"

inductive cstep :: "'sm deployment \<Rightarrow> 'sm cluster \<Rightarrow> 'sm cluster \<Rightarrow> bool" for D where
  local_step:
    "i \<in> set (dMembers D) \<Longrightarrow> hosts C i = Up n \<Longrightarrow> local_event ev
      \<Longrightarrow> cstep D C (put_back i (run_step (dMachine D) ev (with_faults fl n)) C)"
| request:
    "(s, ob) \<in> sent C \<Longrightarrow> oTo ob \<in> set (dMembers D) \<Longrightarrow> hosts C (oTo ob) = Up n \<Longrightarrow> ch \<notin> fst ` set (nReplies n)
      \<Longrightarrow> n' = run_step (dMachine D) (request_event (oMsg ob) ch) (with_faults fl n)
      \<Longrightarrow> cstep D C ((put_back (oTo ob) n' C)\<lparr>answered := answered C \<union> {(s, ob, r) |r. (ch, r) \<in> set (nReplies n')}\<rparr>)"
| response:
    "(s, ob, r) \<in> answered C \<Longrightarrow> hosts C s = Up n \<Longrightarrow> response_event ob r = Some ev
      \<Longrightarrow> cstep D C (put_back s (run_step (dMachine D) ev (with_faults fl n)) C)"
| exit_loop:
    "i \<in> set (dMembers D) \<Longrightarrow> hosts C i = Up n \<Longrightarrow> cstep D C (put_back i (run_exit (Stop n)) C)"
| crash_host:
    "i \<in> set (dMembers D) \<Longrightarrow> cstep D C (put_down i (crash k (disk_of (hosts C i))) C)"
| kill_process:
    "dKills D \<Longrightarrow> i \<in> set (dMembers D) \<Longrightarrow> cstep D C (put_down i (kill (disk_of (hosts C i))) C)"
| restart:
    "i \<in> set (dMembers D) \<Longrightarrow> hosts C i = Down s
      \<Longrightarrow> NewNode (dMachine D) (dInit D) (dConfig D i) 0 (dThreshold D) (dPeers D) draws (s\<lparr>faults := fl\<rparr>) = (Inr n, s')
      \<Longrightarrow> cstep D C (put_back i n C)"
| failed_start:
    "i \<in> set (dMembers D) \<Longrightarrow> hosts C i = Down s
      \<Longrightarrow> NewNode (dMachine D) (dInit D) (dConfig D i) 0 (dThreshold D) (dPeers D) draws (s\<lparr>faults := fl\<rparr>) = (Inl e, s')
      \<Longrightarrow> cstep D C (put_down i s' C)"

text \<open>A run starts with empty disks and stays within a condition on the states.\<close>

definition initial :: "'sm deployment \<Rightarrow> 'sm cluster \<Rightarrow> bool" where
  "initial D C \<longleftrightarrow> sent C = {} \<and> answered C = {} \<and> led C = {} \<and> states C = {} \<and>
     (\<forall>i \<in> set (dMembers D). \<exists>s. hosts C i = Down s \<and> (\<forall>f. lookup s (DataDir (dConfig D i), f) = None))"

inductive reach :: "'sm deployment \<Rightarrow> ('sm cluster \<Rightarrow> bool) \<Rightarrow> 'sm cluster \<Rightarrow> bool" for D P where
  start: "initial D C \<Longrightarrow> P C \<Longrightarrow> reach D P C"
| onward: "reach D P C \<Longrightarrow> cstep D C C' \<Longrightarrow> P C' \<Longrightarrow> reach D P C'"

definition sound :: "'sm deployment \<Rightarrow> bool" where
  "sound D \<longleftrightarrow> (\<forall>i \<in> set (dMembers D). ID (dConfig D i) = i \<and> i \<noteq> noVote)"

text \<open>The condition for elections: the members are the deployed ones (configuration changes that
  add or remove a node are left out), and term numbers do not run out.\<close>

definition static :: "'sm deployment \<Rightarrow> 'sm cluster \<Rightarrow> bool" where
  "static D C \<longleftrightarrow>
     (\<forall>i \<in> set (dMembers D). \<forall>n. hosts C i = Up n \<longrightarrow>
        length (members (nCore n)) = length (dMembers D) \<and> currentTerm (nCore n) < - 1) \<and>
     (\<forall>s ob q. (s, ob) \<in> sent C \<longrightarrow> oMsg ob = TimeoutNow q \<longrightarrow> tnTerm q < - 1)"

subsection \<open>A step of one node\<close>

lemma with_faults_simps [simp]:
  "lookup (s\<lparr>faults := fl\<rparr>) p = lookup s p"
  "nStopped (with_faults fl n) = nStopped n" "nSent (with_faults fl n) = nSent n" "nReplies (with_faults fl n) = nReplies n"
  by (simp_all add: lookup_def with_faults_def)

lemma state_holds_faults [simp]: "state_holds (s\<lparr>faults := fl\<rparr>) d t v = state_holds s d t v"
  by (rule state_holds_cong) simp

lemma with_faults_core [simp]:
  "cfg (nCore (with_faults fl n)) = cfg (nCore n)" "currentTerm (nCore (with_faults fl n)) = currentTerm (nCore n)"
  "votedFor (nCore (with_faults fl n)) = votedFor (nCore n)" "role (nCore (with_faults fl n)) = role (nCore n)"
  "votes (nCore (with_faults fl n)) = votes (nCore n)" "members (nCore (with_faults fl n)) = members (nCore n)"
  "outbox (nCore (with_faults fl n)) = outbox (nCore n)" "good (nCore (with_faults fl n)) = good (nCore n)"
  "headroom ev (nCore (with_faults fl n)) = headroom ev (nCore n)"
  by (simp_all add: with_faults_def good_def headroom_def)

text \<open>Everything that the loop does behind the dispatch of an RPC answers other channels.\<close>

fun rpc_reply :: "reply_msg \<Rightarrow> bool" where
  "rpc_reply (VoteReply _) = True"
| "rpc_reply (AppendReply _) = True"
| "rpc_reply (SnapshotReply _) = True"
| "rpc_reply (TimeoutReply _) = True"
| "rpc_reply _ = False"

abbreviation rpc_replies :: "'sm Node \<Rightarrow> (nat \<times> reply_msg) set" where
  "rpc_replies n \<equiv> {x \<in> set (nReplies n). rpc_reply (snd x)}"

lemma fireAppliedWaiters_rpc [simp]: "rpc_replies (fireAppliedWaiters n) = rpc_replies n"
  by (auto simp: fireAppliedWaiters_def Let_def)

lemma applyEntry_rpc: "rpc_replies (applyEntry M e n) = rpc_replies n"
proof -
  define n2 where "n2 = fireAppliedWaiters
    ((if eType e = ENTRY_TYPE_NORMAL then n\<lparr>nSM := smApply M (eIndex e) (eCommand e) (nSM n)\<rparr> else n)\<lparr>nApplied := eIndex e\<rparr>)"
  have "rpc_replies n2 = rpc_replies n" by (simp add: n2_def)
  moreover have "applyEntry M e n = (case nWaiters n2 (eIndex e) of None \<Rightarrow> n2
      | Some w \<Rightarrow> reply_to (wDone w) (DoneReply (if wTerm w = eTerm e then None else Some ErrProposalLost))
          (n2\<lparr>nWaiters := (nWaiters n2)(eIndex e := None)\<rparr>))"
    unfolding applyEntry_def n2_def Let_def by (rule refl)
  then have "rpc_replies (applyEntry M e n) = rpc_replies n2" by (auto simp: reply_to_def split: option.splits)
  ultimately show ?thesis by simp
qed

lemma fold_applyEntry_rpc [simp]: "rpc_replies (fold (applyEntry M) es n) = rpc_replies n"
  by (induction es arbitrary: n) (simp_all add: applyEntry_rpc)

lemma resolveRead_rpc: "rpc_replies (resolveRead r n) = rpc_replies n"
  by (auto simp: resolveRead_def Let_def reply_to_def split: option.splits)

lemma fold_resolveRead_rpc [simp]: "rpc_replies (fold resolveRead rs n) = rpc_replies n"
  by (induction rs arbitrary: n) (simp_all add: resolveRead_rpc)

lemma fold_sendAsync_rpc [simp]: "nReplies (fold sendAsync obs n) = nReplies n"
  by (induction obs arbitrary: n) (simp_all add: sendAsync_def)

lemma maybeCompact_rpc [simp]: "nReplies (maybeCompact M n) = nReplies n"
  by (simp add: maybeCompact_def split: sum.splits prod.splits)

lemma sync_rpc [simp]: "nReplies (publishStatus n) = nReplies n" "nReplies (syncTransportConfig n) = nReplies n"
  by (auto simp: publishStatus_def syncTransportConfig_def split: option.splits)

lemma afterStep_rpc: "rpc_replies (afterStep M n) = rpc_replies n"
  by (auto simp: afterStep_def takeRestore_def takeCommitted_def takeReadOutcomes_def takeOutbox_def Let_def split: sum.splits)

lemma reply_to_simps [simp]:
  "nSent (reply_to ch m n) = nSent n" "nStopped (reply_to ch m n) = nStopped n" "nCore (reply_to ch m n) = nCore n"
  "nReplies (reply_to ch m n) = nReplies n @ [(ch, m)]"
  by (simp_all add: reply_to_def)

lemma dispatch_sent:
  assumes "dispatch ev n = (r, n1)"
  shows "nSent n1 = nSent n \<and> nStopped n1 = nStopped n \<and> nGroup n1 = nGroup n"
  using assms
  by (cases ev)
     (auto simp: dispatch_def Let_def on_core_def on_reply_def on_propose_def reply_to_def split: prod.splits sum.splits if_splits)

lemma dispatch_vote_reply:
  assumes "dispatch ev n = (r, n1)" "(ch, VoteReply x) \<in> set (nReplies n1)" "ch \<notin> fst ` set (nReplies n)"
  shows "\<exists>q. ev = evRequestVote q ch \<and> handleRequestVote q (nCore n) = (x, nCore n1) \<and> r = err_of x"
proof -
  have "(ch, y) \<notin> set (nReplies n)" for y using assms(3) by force
  then show ?thesis
    using assms(1,2)
    by (cases ev)
       (auto simp: dispatch_def Let_def on_core_def on_reply_def on_propose_def prod_eq_iff split: prod.splits sum.splits if_splits)
qed

text \<open>What a step does to the election state, whether it ends well or halts the node.\<close>

lemma run_step_election:
  assumes "\<not> nStopped n" "good (nCore n)" "headroom ev (nCore n)"
    "\<forall>ob \<in> set (outbox (nCore n)). own_candidacy (ID (cfg (nCore n))) ob"
  shows "edisk (nCore n) (nCore (run_step M ev n))"
    and "\<not> nStopped (run_step M ev n) \<Longrightarrow> vstep (new_voter ev (nCore n)) (nCore n) (nCore (run_step M ev n))"
    and "\<forall>ob \<in> set (nSent (run_step M ev n)). ob \<in> set (nSent n) \<or> own_candidacy (ID (cfg (nCore n))) ob"
    and "\<not> nStopped (run_step M ev n) \<Longrightarrow>
      \<forall>ob \<in> set (outbox (nCore (run_step M ev n))). own_candidacy (ID (cfg (nCore n))) ob"
proof -
  obtain r n1 where d: "dispatch ev n = (r, n1)" by force
  note v = dispatch_vres [OF d assms(2,3)] and ds = dispatch_sent [OF d]
  have all: "edisk (nCore n) (nCore (run_step M ev n)) \<and>
    (\<not> nStopped (run_step M ev n) \<longrightarrow> vstep (new_voter ev (nCore n)) (nCore n) (nCore (run_step M ev n))) \<and>
    (\<forall>ob \<in> set (nSent (run_step M ev n)). ob \<in> set (nSent n) \<or> own_candidacy (ID (cfg (nCore n))) ob) \<and>
    (\<not> nStopped (run_step M ev n) \<longrightarrow>
      (\<forall>ob \<in> set (outbox (nCore (run_step M ev n))). own_candidacy (ID (cfg (nCore n))) ob))"
  proof (cases r)
    case (Some e)
    then have "run_step M ev n = n1\<lparr>nStopc := True, nStopped := True\<rparr>" using d assms(1) by (simp add: run_step_def)
    then show ?thesis using v(1) ds by simp
  next
    case None
    then have rs: "run_step M ev n = afterStep M n1" using d assms(1) by (simp add: run_step_def)
    have vs: "vstep (new_voter ev (nCore n)) (nCore n) (nCore n1)" by (rule v(2) [OF None])
    have cf: "cfg (nCore n1) = cfg (nCore n)" using vs by (simp add: vstep_def)
    have "\<forall>ob \<in> set (outbox (nCore n1)). own_candidacy (ID (cfg (nCore n1))) ob"
      using vs assms(4) cf by (auto simp: vstep_def)
    from afterStep_settled [OF this, of M] have st: "settled n1 (afterStep M n1)" .
    have "vstep (new_voter ev (nCore n)) (nCore n) (nCore (afterStep M n1))"
      by (rule vstep_then_same [OF vs]) (use st in \<open>auto simp: settled_def\<close>)
    then show ?thesis using st rs ds cf vstep_edisk by (simp add: settled_def)
  qed
  from all show "edisk (nCore n) (nCore (run_step M ev n))" by blast
  from all show "\<not> nStopped (run_step M ev n) \<Longrightarrow> vstep (new_voter ev (nCore n)) (nCore n) (nCore (run_step M ev n))" by blast
  from all show "\<forall>ob \<in> set (nSent (run_step M ev n)). ob \<in> set (nSent n) \<or> own_candidacy (ID (cfg (nCore n))) ob" by blast
  from all show "\<not> nStopped (run_step M ev n) \<Longrightarrow>
      \<forall>ob \<in> set (outbox (nCore (run_step M ev n))). own_candidacy (ID (cfg (nCore n))) ob" by blast
qed

text \<open>A granted vote is on disk when the answer goes out.\<close>

lemma run_step_grant:
  assumes "\<not> nStopped n" "good (nCore n)" "headroom ev (nCore n)"
    "\<forall>ob \<in> set (outbox (nCore n)). own_candidacy (ID (cfg (nCore n))) ob"
    "(ch, VoteReply (Inr resp)) \<in> set (nReplies (run_step M ev n))" "ch \<notin> fst ` set (nReplies n)" "vrGranted resp"
  shows "\<exists>q. ev = evRequestVote q ch \<and>
    (rvPreVote q \<or> state_holds (disk (nCore (run_step M ev n))) (dirOf (nCore n)) (rvTerm q) (rvCandidateId q))"
proof -
  obtain r n1 where d: "dispatch ev n = (r, n1)" by force
  have "(ch, VoteReply (Inr resp)) \<in> rpc_replies (run_step M ev n)" using assms(5) by simp
  also have "rpc_replies (run_step M ev n) = rpc_replies n1"
    using d assms(1) afterStep_rpc [of M n1] by (cases r) (simp_all add: run_step_def)
  finally have "(ch, VoteReply (Inr resp)) \<in> set (nReplies n1)" by simp
  from dispatch_vote_reply [OF d this assms(6)] obtain q where
    q: "ev = evRequestVote q ch" "handleRequestVote q (nCore n) = (Inr resp, nCore n1)" "r = None" by auto
  have vs: "vstep (new_voter ev (nCore n)) (nCore n) (nCore n1)" by (rule dispatch_vres(2) [OF d assms(2,3) q(3)])
  have cf: "cfg (nCore n1) = cfg (nCore n)" using vs by (simp add: vstep_def)
  have "\<forall>ob \<in> set (outbox (nCore n1)). own_candidacy (ID (cfg (nCore n1))) ob"
    using vs assms(4) cf by (auto simp: vstep_def)
  from afterStep_settled [OF this, of M] have "same_vote (nCore n1) (nCore (run_step M ev n))"
    using d q(3) assms(1) by (simp add: settled_def run_step_def)
  from same_vote_good [OF this] have "good (nCore (run_step M ev n))" "tv (nCore (run_step M ev n)) = tv (nCore n1)"
    "dirOf (nCore (run_step M ev n)) = dirOf (nCore n)"
    using vs \<open>same_vote (nCore n1) _\<close> by (auto simp: vstep_def same_vote_def)
  moreover have "\<not> rvPreVote q \<Longrightarrow> tv (nCore n1) = (rvTerm q, rvCandidateId q)"
    using handleRequestVote_steps(2) [OF q(2) assms(2) refl assms(7)] by simp
  ultimately show ?thesis using q(1) by (cases "rvPreVote q") (simp_all add: good_def)
qed

lemma state_holds_unique: "state_holds s d t v \<Longrightarrow> state_holds s d t' v' \<Longrightarrow> t' = t \<and> v' = v"
  using parse_state_bytes [of t v] parse_state_bytes [of t' v']
  by (auto simp: state_holds_def replaced_def simp del: parse_state_bytes)

subsection \<open>Starting a node\<close>

lemma os_snd_other:
  "q \<noteq> p \<Longrightarrow> lookup (snd (os_truncate p k s)) q = lookup s q"
  "q \<noteq> p \<Longrightarrow> lookup (snd (os_create_append p s)) q = lookup s q"
  "lookup (snd (os_read p s)) q = lookup s q" "lookup (snd (os_noop s)) q = lookup s q" "lookup (snd (SyncDir s)) q = lookup s q"
  by (auto simp: os_defs SyncDir_def next_fault_lookup split: prod.splits option.splits if_splits)

lemma openLog_other:
  assumes "openLog dir base s = (r, s')" "q \<noteq> logPath dir"
  shows "lookup s' q = lookup s q"
proof -
  have "lookup (snd (openLog dir base s)) q = lookup s q"
    using assms(2) unfolding openLog_def case_prod_beta by (auto simp: os_snd_other split: sum.splits option.splits)
  then show ?thesis using assms(1) by simp
qed

text \<open>The state that \<open>newCore\<close> returns when nothing fails.\<close>

definition started :: "Config \<Rightarrow> members \<Rightarrow> nat list \<Rightarrow> u64 \<Rightarrow> u64 \<Rightarrow> raftSnapshot \<Rightarrow> logStore \<Rightarrow> Entry list \<Rightarrow> fs \<Rightarrow> core" where
  "started cf ms draws trm vote snap st es s = resetElectionTimer (recalcConfig
     \<lparr>cfg = cf\<lparr>Members := Some ms\<rparr>, role = follower, currentTerm = trm, votedFor = vote, leaderID = 0,
      entries = es, store = st, commitIndex = sIndex snap,
      electionElapsed = 0, electionTimeout = 0, heartbeatElapsed = 0, rng = draws, ticksSinceLeader = 0,
      votes = {}, preVotes = None, outbox = [], nextIndex = Map.empty, matchIndex = Map.empty,
      committed = [], lastDelivered = sIndex snap, snapIndex = sIndex snap, snapTerm = sTerm snap,
      snapConfig = (case sConfig snap of Some m \<Rightarrow> m | None \<Rightarrow> ms), pendingRestore = sData snap,
      members = [], lastConfigIndex = 0, configVersion = 0, transferTarget = 0, transferTicks = 0,
      appendSeq = 0, readCounter = 0, pendingReads = [], readOutcomes = [], disk = s\<rparr>)"

lemma started_simps [simp]:
  "cfg (started cf ms draws t v sn st es s) = cf\<lparr>Members := Some ms\<rparr>"
  "role (started cf ms draws t v sn st es s) = follower" "currentTerm (started cf ms draws t v sn st es s) = t"
  "votedFor (started cf ms draws t v sn st es s) = v" "entries (started cf ms draws t v sn st es s) = es"
  "store (started cf ms draws t v sn st es s) = st" "commitIndex (started cf ms draws t v sn st es s) = sIndex sn"
  "outbox (started cf ms draws t v sn st es s) = []" "lastDelivered (started cf ms draws t v sn st es s) = sIndex sn"
  "snapIndex (started cf ms draws t v sn st es s) = sIndex sn" "snapTerm (started cf ms draws t v sn st es s) = sTerm sn"
  "committed (started cf ms draws t v sn st es s) = []" "pendingRestore (started cf ms draws t v sn st es s) = sData sn"
  "disk (started cf ms draws t v sn st es s) = s" "votes (started cf ms draws t v sn st es s) = {}"
  by (simp_all add: started_def resetElectionTimer_def recalcConfig_def Let_def split: prod.split)

lemma applyDefaults_simps [simp]: "DataDir (applyDefaults cf) = DataDir cf" "ID (applyDefaults cf) = ID cf"
  by (simp_all add: applyDefaults_def)

lemma newCore_cases:
  assumes "newCore cf draws s = (r, s')"
  obtains (early) e where "r = Inl e" "s' = s"
  | (state) e where "r = Inl e" "loadTermAndVote (DataDir cf) s = (Inl e, s')"
  | (snapshot) e tr vo s1 where "r = Inl e" "loadTermAndVote (DataDir cf) s = (Inr (tr, vo), s1)"
      "loadRaftSnapshot (DataDir cf) s1 = (Inl e, s')"
  | (log) e tr vo s1 sn s2 x where "r = Inl e" "loadTermAndVote (DataDir cf) s = (Inr (tr, vo), s1)"
      "loadRaftSnapshot (DataDir cf) s1 = (Inr sn, s2)" "openLog (DataDir cf) (sIndex sn) s2 = (x, s')"
  | (ok) ms tr vo s1 sn s2 st es where "ID cf \<noteq> 0" "loadTermAndVote (DataDir cf) s = (Inr (tr, vo), s1)"
      "loadRaftSnapshot (DataDir cf) s1 = (Inr sn, s2)" "openLog (DataDir cf) (sIndex sn) s2 = (Inr (st, es), s')"
      "initial_members (applyDefaults cf) = Inr ms"
      "r = Inr (started (applyDefaults cf) ms draws tr vo sn st es s')"
proof (cases "ID cf = 0")
  case True
  then have "r = Inl ErrNodeID" "s' = s" using assms by (simp_all add: newCore_def Let_def)
  then show thesis by (rule early)
next
  case id: False
  show thesis
  proof (cases "initial_members (applyDefaults cf)")
    case (Inl e)
    then have "r = Inl e" "s' = s" using assms id by (simp_all add: newCore_def Let_def)
    then show thesis by (rule early)
  next
    case ms: (Inr ms)
    obtain r1 s1 where 1: "loadTermAndVote (DataDir cf) s = (r1, s1)" by force
    show thesis
    proof (cases r1)
      case (Inl e)
      then have "r = Inl e" "s' = s1" using assms id ms 1 by (simp_all add: newCore_def Let_def)
      then show thesis using 1 Inl by (intro state) simp_all
    next
      case (Inr p)
      then obtain tr vo where r1: "r1 = Inr (tr, vo)" by (cases p) auto
      obtain r2 s2 where 2: "loadRaftSnapshot (DataDir cf) s1 = (r2, s2)" by force
      show thesis
      proof (cases r2)
        case (Inl e)
        then have "r = Inl e" "s' = s2" using assms id ms 1 r1 2 by (simp_all add: newCore_def Let_def)
        then show thesis using 1 r1 2 Inl by (intro snapshot) simp_all
      next
        case sn: (Inr sn)
        obtain r3 s3 where 3: "openLog (DataDir cf) (sIndex sn) s2 = (r3, s3)" by force
        show thesis
        proof (cases r3)
          case (Inl e)
          then have "r = Inl e" "s' = s3" using assms id ms 1 r1 2 sn 3 by (simp_all add: newCore_def Let_def)
          then show thesis using 1 r1 2 sn 3 by (intro log) simp_all
        next
          case (Inr q)
          then obtain st es where q: "r3 = Inr (st, es)" by (cases q) auto
          note all = assms [unfolded newCore_def Let_def] id ms 1 r1 2 sn 3 q
          show thesis
          proof (cases "ElectionTicksMax (applyDefaults cf) \<le> ElectionTicksMin (applyDefaults cf)")
            case True
            then have "r = Inl Panic" "s' = s3" using all by simp_all
            then show thesis using 1 r1 2 sn 3 by (intro log) simp_all
          next
            case False
            then have "s' = s3" "r = Inr (started (applyDefaults cf) ms draws tr vo sn st es s3)"
              using all by (auto simp: started_def)
            then show thesis using id ms 1 r1 2 sn 3 q by (intro ok) simp_all
          qed
        qed
      qed
    qed
  qed
qed

lemma loadTermAndVote_holds:
  assumes "loadTermAndVote dir s = (r, s')" "state_holds s dir t v"
  shows "lookup s' q = lookup s q" "r = Inr p \<Longrightarrow> p = (t, v)"
  using assms by (auto simp: loadTermAndVote_def state_holds_def replaced_def os_read_def next_fault_lookup
      split: prod.splits sum.splits option.splits if_splits)

lemma newCore_lookup:
  assumes "newCore cf draws s = (r, s')" "q \<noteq> logPath (DataDir cf)"
  shows "lookup s' q = lookup s q"
proof -
  have l1: "lookup s1 q = lookup s q" if "loadTermAndVote (DataDir cf) s = (x, s1)" for x s1
    using that os_snd_other(3) [of "(DataDir cf, stateFileName)" s q]
    by (auto simp: loadTermAndVote_def split: prod.splits sum.splits if_splits)
  have l2: "lookup s2 q = lookup s1 q" if "loadRaftSnapshot (DataDir cf) s1 = (x, s2)" for x s1 s2
    using that loadRaftSnapshot_lookup [of "DataDir cf" s1 q] by simp
  from assms(1) show ?thesis
    by (cases rule: newCore_cases) (auto dest!: l1 l2 openLog_other [OF _ assms(2)])
qed

lemma openLog_store: "openLog d b s = (Inr (st, es), s') \<Longrightarrow> st = \<lparr>ldir = d, lfailed = False\<rparr>"
proof -
  assume "openLog d b s = (Inr (st, es), s')"
  then have "fst (openLog d b s) = Inr (st, es)" by simp
  then show "st = \<lparr>ldir = d, lfailed = False\<rparr>"
    unfolding openLog_def case_prod_beta by (simp split: sum.splits option.splits if_splits)
qed

lemma newCore_holds:
  assumes "newCore cf draws s = (r, s')" "state_holds s (DataDir cf) t v"
  shows "state_holds s' (DataDir cf) t v"
    and "r = Inr c \<Longrightarrow> good c \<and> ID (cfg c) = ID cf \<and> dirOf c = DataDir cf \<and> tv c = (t, v) \<and> role c = follower
           \<and> outbox c = [] \<and> disk c = s'"
proof -
  show h: "state_holds s' (DataDir cf) t v"
    using state_holds_cong [OF newCore_lookup [OF assms(1)], of "DataDir cf" t v] assms(2) by simp
  assume "r = Inr c"
  with assms(1) show "good c \<and> ID (cfg c) = ID cf \<and> dirOf c = DataDir cf \<and> tv c = (t, v) \<and> role c = follower
           \<and> outbox c = [] \<and> disk c = s'"
  proof (cases rule: newCore_cases)
    case (ok ms tr vo s1 sn s2 st es)
    have "(tr, vo) = (t, v)" by (rule loadTermAndVote_holds(2) [OF ok(2) assms(2) refl])
    then show ?thesis using ok(1,6) openLog_store [OF ok(4)] h \<open>r = Inr c\<close> by (simp add: good_def noVote_def)
  qed auto
qed

lemma sync_publish_simps [simp]:
  "nReplies (publishStatus (syncTransportConfig n)) = nReplies n" "nSM (publishStatus (syncTransportConfig n)) = nSM n"
  "nApplied (publishStatus (syncTransportConfig n)) = nApplied n" "nCompactAt (publishStatus (syncTransportConfig n)) = nCompactAt n"
  by (auto simp: publishStatus_def syncTransportConfig_def split: option.splits)

lemma NewNode_cases:
  assumes "NewNode M sm0 cf g th ps draws s = (r, s')"
  obtains (core) e where "r = Inl e" "newCore cf draws s = (Inl e, s')"
  | (restore) c e s1 where "r = Inl e" "newCore cf draws s = (Inr c, s1)" "s' = disk (snd (core_close (c\<lparr>pendingRestore := []\<rparr>)))"
  | (ok) c n where "r = Inr n" "newCore cf draws s = (Inr c, s')" "nCore n = c\<lparr>pendingRestore := []\<rparr>"
      "nSent n = []" "nReplies n = []" "\<not> nStopped n" "nApplied n = snapIndex c" "nCompactAt n = (if th = 0 then 4096 else th)"
      "if pendingRestore c = [] then nSM n = sm0 else smRestore M (pendingRestore c) sm0 = Inr (nSM n)"
proof -
  obtain r1 s1 where 1: "newCore cf draws s = (r1, s1)" by force
  note eq = assms [unfolded NewNode_def 1 prod.case]
  show thesis
  proof (cases r1)
    case (Inl e)
    then have "r = Inl e" "s' = s1" using eq by auto
    then show thesis using 1 Inl by (intro core) simp_all
  next
    case c: (Inr c)
    show thesis
    proof (cases "if pendingRestore c = [] then Inr sm0 else smRestore M (pendingRestore c) sm0")
      case (Inl e)
      then have "r = Inl e" "s' = disk (snd (core_close (c\<lparr>pendingRestore := []\<rparr>)))"
        using eq c by (auto simp: takeRestore_def)
      then show thesis using 1 c by (intro restore) simp_all
    next
      case (Inr m)
      define n0 where "n0 = \<lparr>nGroup = g, nCore = c\<lparr>pendingRestore := []\<rparr>, nSM = m, nCompactAt = (if th = 0 then 4096 else th),
                          nStopc = False, nStopped = False,
                          nStatus = \<lparr>stID = 0, stGroup = 0, stTerm = 0, stLeaderID = 0, stIsLeader = False, stRole = follower,
                                     stCommitIndex = 0, stLastApplied = 0, stLastLogIndex = 0, stMembers = []\<rparr>,
                          nWaiters = Map.empty, nSyncedConfigV = 0, nTransportPeers = ps, nApplied = snapIndex c,
                          nReadWaiters = Map.empty, nAppliedWaiters = [], nReplies = [], nSent = []\<rparr>"
      have "(r, s') = (Inr (publishStatus (syncTransportConfig n0)), s1)"
        using eq c Inr by (simp add: takeRestore_def Let_def n0_def split del: if_split)
      then have r: "r = Inr (publishStatus (syncTransportConfig n0))" "s' = s1" by simp_all
      have "if pendingRestore c = [] then m = sm0 else smRestore M (pendingRestore c) sm0 = Inr m"
        using Inr by (auto split: if_splits)
      then show thesis using 1 c r by (intro ok [of "publishStatus (syncTransportConfig n0)" c]) (simp_all add: n0_def)
    qed
  qed
qed

lemma NewNode_holds:
  assumes "NewNode M sm0 cf g th ps draws s = (r, s')" "state_holds s (DataDir cf) t v"
  shows "state_holds s' (DataDir cf) t v"
    and "r = Inr n \<Longrightarrow> good (nCore n) \<and> ID (cfg (nCore n)) = ID cf \<and> dirOf (nCore n) = DataDir cf \<and> tv (nCore n) = (t, v)
      \<and> role (nCore n) = follower \<and> outbox (nCore n) = [] \<and> nSent n = [] \<and> nReplies n = [] \<and> \<not> nStopped n"
proof -
  have cl: "lookup (disk (snd (core_close c))) q = lookup (disk c) q" for c q
    using os_snd_other(4) [of "disk c" q] by (simp add: core_close_def log_close_def case_prod_beta)
  from assms(1) have "state_holds s' (DataDir cf) t v \<and> (\<forall>n. r = Inr n \<longrightarrow> good (nCore n) \<and> ID (cfg (nCore n)) = ID cf
      \<and> dirOf (nCore n) = DataDir cf \<and> tv (nCore n) = (t, v)
      \<and> role (nCore n) = follower \<and> outbox (nCore n) = [] \<and> nSent n = [] \<and> nReplies n = [] \<and> \<not> nStopped n)"
  proof (cases rule: NewNode_cases)
    case (core e)
    then show ?thesis using newCore_holds(1) [OF core(2) assms(2)] by simp
  next
    case (restore c e s1)
    have "disk c = s1" using newCore_holds(2) [OF restore(2) assms(2) refl] by simp
    then show ?thesis
      using state_holds_cong [OF cl [of "c\<lparr>pendingRestore := []\<rparr>"], of "DataDir cf" t v] newCore_holds(1) [OF restore(2) assms(2)] restore(1,3) by simp
  next
    case (ok c n)
    then show ?thesis using newCore_holds [OF ok(2) assms(2)] by (auto simp: good_def)
  qed
  then show "state_holds s' (DataDir cf) t v" "r = Inr n \<Longrightarrow> good (nCore n) \<and> ID (cfg (nCore n)) = ID cf \<and> dirOf (nCore n) = DataDir cf
      \<and> tv (nCore n) = (t, v) \<and> role (nCore n) = follower \<and> outbox (nCore n) = [] \<and> nSent n = [] \<and> nReplies n = [] \<and> \<not> nStopped n"
    by blast+
qed

subsection \<open>Election safety\<close>

text \<open>The proof keeps the set \<open>G\<close> of votes ever granted: who, in which term, for whom. A member
  grants at most one vote in a term because what its disk holds only moves forward.\<close>

type_synonym grants = "(u64 \<times> u64 \<times> u64) set"

definition elected :: "'sm deployment \<Rightarrow> grants \<Rightarrow> u64 \<Rightarrow> u64 \<Rightarrow> bool" where
  "elected D G t i \<longleftrightarrow> majority_of (dMembers D) {v. (v, t, i) \<in> G}"

definition grants_ok :: "'sm deployment \<Rightarrow> grants \<Rightarrow> bool" where
  "grants_ok D G \<longleftrightarrow> (\<forall>v t c. (v, t, c) \<in> G \<longrightarrow> v \<in> set (dMembers D) \<and> c \<noteq> noVote \<and> (\<forall>c'. (v, t, c') \<in> G \<longrightarrow> c' = c))"

definition host_inv :: "'sm deployment \<Rightarrow> grants \<Rightarrow> u64 \<Rightarrow> 'sm host \<Rightarrow> bool" where
  "host_inv D G i h \<longleftrightarrow>
     (\<exists>t v. state_holds (disk_of h) (DataDir (dConfig D i)) t v \<and> (\<forall>t' c'. (i, t', c') \<in> G \<longrightarrow> tv_le (t', c') (t, v))) \<and>
     (case h of Down s \<Rightarrow> True
      | Up n \<Rightarrow> (\<forall>ob \<in> set (nSent n). own_candidacy i ob) \<and> ID (cfg (nCore n)) = i \<and> dirOf (nCore n) = DataDir (dConfig D i) \<and>
          (\<not> nStopped n \<longrightarrow> good (nCore n) \<and> (\<forall>ob \<in> set (outbox (nCore n)). own_candidacy i ob)
             \<and> (role (nCore n) \<noteq> follower \<longrightarrow> (\<forall>v \<in> votes (nCore n). (v, currentTerm (nCore n), i) \<in> G))
             \<and> (role (nCore n) = leader \<longrightarrow> elected D G (currentTerm (nCore n)) i)))"

definition einv :: "'sm deployment \<Rightarrow> grants \<Rightarrow> 'sm cluster \<Rightarrow> bool" where
  "einv D G C \<longleftrightarrow> grants_ok D G \<and> (\<forall>i \<in> set (dMembers D). host_inv D G i (hosts C i))
     \<and> (\<forall>s ob. (s, ob) \<in> sent C \<longrightarrow> s \<in> set (dMembers D) \<and> own_candidacy s ob)
     \<and> (\<forall>s ob r. (s, ob, r) \<in> answered C \<longrightarrow> (s, ob) \<in> sent C)
     \<and> (\<forall>s ob q p. (s, ob, VoteReply (Inr p)) \<in> answered C \<longrightarrow> oMsg ob = RequestVote q \<longrightarrow> \<not> rvPreVote q \<longrightarrow> vrGranted p
          \<longrightarrow> (oTo ob, rvTerm q, rvCandidateId q) \<in> G)
     \<and> (\<forall>t i. (t, i) \<in> led C \<longrightarrow> elected D G t i)"

lemma elected_unique:
  assumes "grants_ok D G" "elected D G t i" "elected D G t j"
  shows "i = j"
proof (rule maj.agree [OF assms(2,3) [unfolded elected_def]])
  fix x assume x: "x \<in> {v. (v, t, i) \<in> G}"
  show "(THE c. (x, t, c) \<in> G) = i"
    by (rule the_equality) (use x assms(1) in \<open>auto simp: grants_ok_def\<close>)
next
  fix x assume x: "x \<in> {v. (v, t, j) \<in> G}"
  show "(THE c. (x, t, c) \<in> G) = j"
    by (rule the_equality) (use x assms(1) in \<open>auto simp: grants_ok_def\<close>)
qed

lemma elected_mono: "elected D G t i \<Longrightarrow> G \<subseteq> G' \<Longrightarrow> grants_ok D G' \<Longrightarrow> elected D G' t i"
proof -
  assume a: "elected D G t i" "G \<subseteq> G'" "grants_ok D G'"
  have s: "{v. (v, t, i) \<in> G'} \<subseteq> set (dMembers D)" using a(3) by (auto simp: grants_ok_def)
  have "card {v. (v, t, i) \<in> G} \<le> card {v. (v, t, i) \<in> G'}"
    by (rule card_mono [OF finite_subset [OF s]]) (use a(2) in auto)
  then show ?thesis using a(1) s by (auto simp: elected_def majority_of_def)
qed

text \<open>Recording what a member's disk holds after a step.\<close>

definition record_vote :: "u64 \<Rightarrow> u64 \<times> u64 \<Rightarrow> grants \<Rightarrow> grants" where
  "record_vote i p G = (if snd p = noVote then G else insert (i, p) G)"

lemma record_vote_ok:
  assumes "grants_ok D G" "i \<in> set (dMembers D)" "\<forall>t' c'. (i, t', c') \<in> G \<longrightarrow> tv_le (t', c') p"
  shows "grants_ok D (record_vote i p G)" "\<forall>t' c'. (i, t', c') \<in> record_vote i p G \<longrightarrow> tv_le (t', c') p"
proof -
  have u: "c' = snd p" if "(i, fst p, c') \<in> G" for c'
  proof -
    have "tv_le (fst p, c') p" "c' \<noteq> noVote" using that assms(1,3) by (auto simp: grants_ok_def)
    then show ?thesis by (simp add: tv_le_def)
  qed
  show "\<forall>t' c'. (i, t', c') \<in> record_vote i p G \<longrightarrow> tv_le (t', c') p"
    using assms(3) by (auto simp: record_vote_def)
  show "grants_ok D (record_vote i p G)"
  proof (cases "snd p = noVote")
    case False
    obtain t v where p: "p = (t, v)" by force
    have g: "record_vote i p G = insert (i, t, v) G" "v \<noteq> noVote" using False by (simp_all add: record_vote_def p)
    have u': "c' = v" if "(i, t, c') \<in> G" for c' using u that by (simp add: p)
    show ?thesis using assms(1,2) g(2) u' unfolding grants_ok_def g(1) by auto
  qed (simp add: record_vote_def assms(1))
qed

lemma record_vote_simps:
  "G \<subseteq> record_vote i p G" "j \<noteq> i \<Longrightarrow> (j, t, c) \<in> record_vote i p G \<longleftrightarrow> (j, t, c) \<in> G"
  "v \<noteq> noVote \<Longrightarrow> (i, t, v) \<in> record_vote i (t, v) G"
  by (auto simp: record_vote_def)

lemma host_inv_other:
  assumes "host_inv D G j h" "j \<noteq> i" "grants_ok D (record_vote i p G)"
  shows "host_inv D (record_vote i p G) j h"
proof -
  define G' where "G' = record_vote i p G"
  have sub: "x \<in> G \<Longrightarrow> x \<in> G'" for x by (simp add: G'_def record_vote_def)
  have el: "elected D G t k \<Longrightarrow> elected D G' t k" for t k
    using elected_mono [OF _ record_vote_simps(1) assms(3)] by (simp add: G'_def)
  have oth: "(j, t, c) \<in> G' \<longleftrightarrow> (j, t, c) \<in> G" for t c using record_vote_simps(2) [OF assms(2)] by (simp add: G'_def)
  have "host_inv D G' j h"
  proof (cases h)
    case (Up n)
    then show ?thesis using assms(1) sub el by (simp add: host_inv_def oth)
  next
    case (Down s)
    then show ?thesis using assms(1) by (simp add: host_inv_def oth)
  qed
  then show ?thesis by (simp add: G'_def)
qed

text \<open>One step of a member: the vote that is on disk afterwards is recorded.\<close>

lemma node_step:
  assumes "host_inv D G i (Up n)" "grants_ok D G" "i \<in> set (dMembers D)" "headroom ev (nCore n)"
    "length (members (nCore n)) = length (dMembers D)"
    "\<forall>v \<in> new_voter ev (nCore n). role (nCore n) \<noteq> follower \<longrightarrow> (v, currentTerm (nCore n), i) \<in> G"
    "n' = run_step M ev (with_faults fl n)"
  obtains p where "grants_ok D (record_vote i p G)" "host_inv D (record_vote i p G) i (Up n')"
    "state_holds (disk (nCore n')) (DataDir (dConfig D i)) (fst p) (snd p)"
proof (cases "nStopped n")
  case True
  then have n': "n' = with_faults fl n" by (simp add: assms(7) run_step_def)
  obtain t v where tv: "state_holds (disk (nCore n)) (DataDir (dConfig D i)) t v" "\<forall>t' c'. (i, t', c') \<in> G \<longrightarrow> tv_le (t', c') (t, v)"
    using assms(1) by (auto simp: host_inv_def)
  note rv = record_vote_ok [OF assms(2,3) tv(2)]
  have "host_inv D (record_vote i (t, v) G) i (Up n')"
    using assms(1) tv(1) rv(2) True unfolding host_inv_def n'
    by (simp add: with_faults_def) (rule exI [of _ t], rule exI [of _ v], simp)
  then show ?thesis by (rule that [OF rv(1)]) (simp add: n' with_faults_def tv(1))
next
  case False
  let ?n = "with_faults fl n"
  let ?c = "nCore n" and ?c' = "nCore n'"
  have hi: "good ?c" "\<forall>ob \<in> set (outbox ?c). own_candidacy i ob" "ID (cfg ?c) = i" "dirOf ?c = DataDir (dConfig D i)"
    "\<forall>ob \<in> set (nSent n). own_candidacy i ob" "role ?c \<noteq> follower \<Longrightarrow> \<forall>v \<in> votes ?c. (v, currentTerm ?c, i) \<in> G"
    "role ?c = leader \<Longrightarrow> elected D G (currentTerm ?c) i"
    using assms(1) False by (simp_all add: host_inv_def)
  obtain t0 v0 where tv0: "state_holds (disk ?c) (DataDir (dConfig D i)) t0 v0" "\<forall>t' c'. (i, t', c') \<in> G \<longrightarrow> tv_le (t', c') (t0, v0)"
    using assms(1) by (auto simp: host_inv_def)
  have hc: "state_holds (disk ?c) (DataDir (dConfig D i)) (currentTerm ?c) (votedFor ?c)" using hi(1,4) by (simp add: good_def)
  have le0: "\<forall>t' c'. (i, t', c') \<in> G \<longrightarrow> tv_le (t', c') (tv ?c)"
    using tv0(2) state_holds_unique [OF tv0(1) hc] by simp
  note st = run_step_election [of ?n ev M, folded assms(7)]
  have ed: "edisk (nCore ?n) ?c'" and sn: "\<forall>ob \<in> set (nSent n'). ob \<in> set (nSent n) \<or> own_candidacy i ob"
    using st(1,3) False hi(1-3) assms(4) by simp_all
  obtain t v where p: "state_holds (disk ?c') (DataDir (dConfig D i)) t v" "tv_le (tv ?c) (t, v)" and cf: "cfg ?c' = cfg ?c"
    using ed hi(4) by (auto simp: edisk_def)
  have le: "\<forall>t' c'. (i, t', c') \<in> G \<longrightarrow> tv_le (t', c') (t, v)" using le0 p(2) tv_le_trans by blast
  note rv = record_vote_ok [OF assms(2,3) le]
  let ?G = "record_vote i (t, v) G"
  have up: "good ?c' \<and> (\<forall>ob \<in> set (outbox ?c'). own_candidacy i ob)
       \<and> (role ?c' \<noteq> follower \<longrightarrow> (\<forall>v \<in> votes ?c'. (v, currentTerm ?c', i) \<in> ?G)) \<and> (role ?c' = leader \<longrightarrow> elected D ?G (currentTerm ?c') i)"
    if run: "\<not> nStopped n'"
  proof -
    have vs: "vstep (new_voter ev (nCore ?n)) (nCore ?n) ?c'" and ob: "\<forall>ob \<in> set (outbox ?c'). own_candidacy i ob"
      using st(2,4) False hi(1-3) assms(4) run by simp_all
    have g: "good ?c'" using vs by (simp add: vstep_def)
    then have "state_holds (disk ?c') (DataDir (dConfig D i)) (currentTerm ?c') (votedFor ?c')" using hi(4) cf by (simp add: good_def)
    from state_holds_unique [OF this p(1)] have tv: "t = currentTerm ?c'" "v = votedFor ?c'" by simp_all
    have nv: "new_voter ev (nCore ?n) = new_voter ev ?c" by (simp add: new_voter_def with_faults_def split: event.split)
    have votes: "(x, currentTerm ?c', i) \<in> ?G" if r: "role ?c' \<noteq> follower" and x: "x \<in> votes ?c'" for x
    proof -
      have "votes ?c' = {i} \<and> votedFor ?c' = i \<or> tv ?c' = tv ?c \<and> role ?c \<noteq> follower \<and> votes ?c' \<subseteq> votes ?c \<union> new_voter ev ?c"
        using vs r hi(3) nv by (simp add: vstep_def)
      then show ?thesis
      proof
        assume "votes ?c' = {i} \<and> votedFor ?c' = i"
        then show ?thesis using x tv g r by (auto simp: record_vote_def good_def)
      next
        assume "tv ?c' = tv ?c \<and> role ?c \<noteq> follower \<and> votes ?c' \<subseteq> votes ?c \<union> new_voter ev ?c"
        then have "(x, currentTerm ?c', i) \<in> G" using x hi(6) assms(6) by auto
        then show ?thesis using record_vote_simps(1) by blast
      qed
    qed
    have "elected D ?G (currentTerm ?c') i" if l: "role ?c' = leader"
    proof -
      have "role ?c = leader \<and> tv ?c' = tv ?c \<and> votes ?c' = votes ?c \<or> members ?c' = members ?c \<and> majority ?c' \<le> card (votes ?c')"
        using vs l by (simp add: vstep_def)
      then show ?thesis
      proof
        assume "role ?c = leader \<and> tv ?c' = tv ?c \<and> votes ?c' = votes ?c"
        then show ?thesis using hi(7) elected_mono [OF _ record_vote_simps(1) rv(1)] by simp
      next
        assume m: "members ?c' = members ?c \<and> majority ?c' \<le> card (votes ?c')"
        have s: "{v. (v, currentTerm ?c', i) \<in> ?G} \<subseteq> set (dMembers D)" using rv(1) by (auto simp: grants_ok_def)
        have "card (votes ?c') \<le> card {v. (v, currentTerm ?c', i) \<in> ?G}"
          by (rule card_mono [OF finite_subset [OF s]]) (use votes l in auto)
        moreover have "length (dMembers D) div 2 + 1 \<le> card (votes ?c')" using m assms(5) by (auto simp: majority_def)
        ultimately show ?thesis using s by (simp add: elected_def majority_of_def)
      qed
    qed
    then show ?thesis using g ob votes by blast
  qed
  have own: "\<forall>ob \<in> set (nSent n'). own_candidacy i ob" using sn hi(5) by blast
  have ex: "\<exists>t v. state_holds (disk ?c') (DataDir (dConfig D i)) t v \<and> (\<forall>t' c'. (i, t', c') \<in> ?G \<longrightarrow> tv_le (t', c') (t, v))"
    using p(1) rv(2) by blast
  have id: "ID (cfg ?c') = i" "dirOf ?c' = DataDir (dConfig D i)" using cf hi(3,4) by simp_all
  have "host_inv D ?G i (Up n')"
    unfolding host_inv_def host.case disk_of.simps by (intro conjI [OF ex] conjI [OF own] conjI [OF id(1)] conjI [OF id(2)] impI up)
  then show ?thesis by (rule that [OF rv(1)]) (simp add: p(1))
qed

lemma put_back_inv:
  assumes "einv D G C" "i \<in> set (dMembers D)" "grants_ok D (record_vote i p G)" "host_inv D (record_vote i p G) i (Up n)"
    "\<And>s ob r. (s, ob, r) \<in> A \<Longrightarrow> (s, ob) \<in> sent C"
    "\<And>s ob r q. (s, ob, VoteReply (Inr r)) \<in> A \<Longrightarrow> oMsg ob = RequestVote q \<Longrightarrow> \<not> rvPreVote q \<Longrightarrow> vrGranted r
       \<Longrightarrow> (oTo ob, rvTerm q, rvCandidateId q) \<in> record_vote i p G"
  shows "einv D (record_vote i p G) ((put_back i n C)\<lparr>answered := answered C \<union> A\<rparr>)"
proof -
  define G' where "G' = record_vote i p G"
  have sub: "x \<in> G \<Longrightarrow> x \<in> G'" for x by (simp add: G'_def record_vote_def)
  have el: "elected D G t k \<Longrightarrow> elected D G' t k" for t k
    using elected_mono [OF _ record_vote_simps(1) assms(3)] by (simp add: G'_def)
  note e = assms(1) [unfolded einv_def]
  have hosts: "\<forall>j \<in> set (dMembers D). host_inv D G' j (((hosts C)(i := Up n)) j)"
    using e assms(4) host_inv_other [OF _ _ assms(3)] by (simp add: G'_def)
  have own: "\<forall>ob \<in> set (nSent n). own_candidacy i ob" and lead: "leads n \<Longrightarrow> elected D G' (currentTerm (nCore n)) i"
    using assms(4) by (simp_all add: host_inv_def G'_def leads_def)
  have ans: "(oTo ob, rvTerm q, rvCandidateId q) \<in> G'"
    if "(s, ob, VoteReply (Inr r)) \<in> answered C \<union> A" "oMsg ob = RequestVote q" "\<not> rvPreVote q" "vrGranted r" for s ob r q
  proof (cases "(s, ob, VoteReply (Inr r)) \<in> A")
    case True
    then show ?thesis using assms(6) that(2-4) by (simp add: G'_def)
  next
    case False
    then have "(oTo ob, rvTerm q, rvCandidateId q) \<in> G" using e that by blast
    then show ?thesis by (rule sub)
  qed
  have "einv D G' ((put_back i n C)\<lparr>answered := answered C \<union> A\<rparr>)"
    unfolding einv_def
  proof (intro conjI allI impI)
    show "grants_ok D G'" using assms(3) by (simp add: G'_def)
    show "\<forall>j \<in> set (dMembers D). host_inv D G' j (hosts ((put_back i n C)\<lparr>answered := answered C \<union> A\<rparr>) j)"
      using hosts by (simp add: put_back_def)
    fix s ob assume "(s, ob) \<in> sent ((put_back i n C)\<lparr>answered := answered C \<union> A\<rparr>)"
    then have "(s, ob) \<in> sent C \<or> s = i \<and> ob \<in> set (nSent n)" by (auto simp: put_back_def)
    then show "s \<in> set (dMembers D)" "own_candidacy s ob" using e own assms(2) by blast+
  next
    fix s ob r assume "(s, ob, r) \<in> answered ((put_back i n C)\<lparr>answered := answered C \<union> A\<rparr>)"
    then have "(s, ob, r) \<in> A \<or> (s, ob, r) \<in> answered C" by auto
    then have "(s, ob) \<in> sent C" using assms(5) e by blast
    then show "(s, ob) \<in> sent ((put_back i n C)\<lparr>answered := answered C \<union> A\<rparr>)" by (simp add: put_back_def)
  next
    fix s ob q r assume "(s, ob, VoteReply (Inr r)) \<in> answered ((put_back i n C)\<lparr>answered := answered C \<union> A\<rparr>)"
      "oMsg ob = RequestVote q" "\<not> rvPreVote q" "vrGranted r"
    then show "(oTo ob, rvTerm q, rvCandidateId q) \<in> G'" using ans by simp
  next
    fix t k assume "(t, k) \<in> led ((put_back i n C)\<lparr>answered := answered C \<union> A\<rparr>)"
    then have "(t, k) \<in> led C \<or> leads n \<and> t = currentTerm (nCore n) \<and> k = i" by (auto simp: put_back_def split: if_splits)
    then show "elected D G' t k" using e el lead by blast
  qed
  then show ?thesis by (simp add: G'_def)
qed

lemma put_down_inv:
  assumes "einv D G C" "i \<in> set (dMembers D)" "state_holds s (DataDir (dConfig D i)) t v"
    "state_holds (disk_of (hosts C i)) (DataDir (dConfig D i)) t v"
  shows "einv D G (put_down i s C)"
proof -
  have "host_inv D G i (hosts C i)" using assms(1,2) by (simp add: einv_def)
  then obtain t' v' where "state_holds (disk_of (hosts C i)) (DataDir (dConfig D i)) t' v'"
    "\<forall>t c. (i, t, c) \<in> G \<longrightarrow> tv_le (t, c) (t', v')" by (auto simp: host_inv_def)
  with state_holds_unique [OF assms(4) this(1)] assms(3) have "host_inv D G i (Down s)"
    unfolding host_inv_def by (simp, blast)
  then show ?thesis using assms(1) by (simp add: einv_def put_down_def)
qed

lemma einv_step:
  assumes "cstep D C C'" "einv D G C" "sound D" "static D C"
  shows "\<exists>G'. einv D G' C'"
  using assms(1)
proof cases
  case (local_step i n ev fl)
  have h: "host_inv D G i (Up n)" "grants_ok D G" using assms(2) local_step by (auto simp: einv_def)
  have st: "length (members (nCore n)) = length (dMembers D)" "currentTerm (nCore n) < - 1"
    using assms(4) local_step by (auto simp: static_def)
  have "headroom ev (nCore n)" "new_voter ev (nCore n) = {}"
    using st(2) local_step(4) by (auto simp: headroom_def new_voter_def local_event_def split: event.splits)
  then obtain p where p: "grants_ok D (record_vote i p G)"
    "host_inv D (record_vote i p G) i (Up (run_step (dMachine D) ev (with_faults fl n)))"
    using node_step [OF h local_step(2) _ st(1) _ refl] by (metis empty_iff)
  have "einv D (record_vote i p G) ((put_back i (run_step (dMachine D) ev (with_faults fl n)) C)\<lparr>answered := answered C \<union> {}\<rparr>)"
    by (rule put_back_inv [OF assms(2) local_step(2) p]) auto
  then show ?thesis using local_step(1) by (auto simp: put_back_def)
next
  case (request s ob n ch n' fl)
  let ?i = "oTo ob" and ?ev = "request_event (oMsg ob) ch"
  have h: "host_inv D G ?i (Up n)" "grants_ok D G" using assms(2) request by (auto simp: einv_def)
  have st: "length (members (nCore n)) = length (dMembers D)" "currentTerm (nCore n) < - 1"
    using assms(4) request by (auto simp: static_def)
  have hr: "headroom ?ev (nCore n)" and nv: "new_voter ?ev (nCore n) = {}"
    using st(2) request(2) assms(4) by (auto simp: headroom_def new_voter_def request_event_def static_def split: message.splits)
  obtain p where p: "grants_ok D (record_vote ?i p G)" "host_inv D (record_vote ?i p G) ?i (Up n')"
    "state_holds (disk (nCore n')) (DataDir (dConfig D ?i)) (fst p) (snd p)"
    using node_step [OF h request(3) hr st(1) _ request(6)] nv by (metis empty_iff)
  have "(?i, rvTerm q, rvCandidateId q) \<in> record_vote ?i p G"
    if g: "(ch, VoteReply (Inr r)) \<in> set (nReplies n')" "oMsg ob = RequestVote q" "\<not> rvPreVote q" "vrGranted r" for r q
  proof -
    have run: "\<not> nStopped n"
    proof
      assume "nStopped n"
      then have "nReplies n' = nReplies n" using request(6) by (simp add: run_step_def)
      then show False using g(1) request(5) by force
    qed
    then have hn: "good (nCore n)" "\<forall>ob \<in> set (outbox (nCore n)). own_candidacy ?i ob" "ID (cfg (nCore n)) = ?i"
      "dirOf (nCore n) = DataDir (dConfig D ?i)" using h(1) by (simp_all add: host_inv_def)
    have "\<exists>q'. ?ev = evRequestVote q' ch \<and> (rvPreVote q' \<or> state_holds (disk (nCore n')) (dirOf (nCore (with_faults fl n))) (rvTerm q') (rvCandidateId q'))"
      using run_step_grant [of "with_faults fl n" ?ev ch r "dMachine D", folded request(6)] run hn hr g(1,4) request(5) by simp
    then have "state_holds (disk (nCore n')) (DataDir (dConfig D ?i)) (rvTerm q) (rvCandidateId q)"
      using g(2,3) hn(4) by (auto simp: request_event_def)
    from state_holds_unique [OF p(3) this] have pq: "p = (rvTerm q, rvCandidateId q)" by (simp add: prod_eq_iff)
    have "s \<in> set (dMembers D)" "own_candidacy s ob" using assms(2) request(2) by (auto simp: einv_def)
    then have "rvCandidateId q \<noteq> noVote" using g(2,3) assms(3) by (auto simp: own_candidacy_def sound_def)
    then show ?thesis unfolding pq by (rule record_vote_simps(3))
  qed
  then have "einv D (record_vote ?i p G) ((put_back ?i n' C)\<lparr>answered := answered C \<union> {(s, ob, r) |r. (ch, r) \<in> set (nReplies n')}\<rparr>)"
    by (intro put_back_inv [OF assms(2) request(3) p(1,2)]) (use request(2) in auto)
  then show ?thesis using request(1) by blast
next
  case (response s ob r n ev fl)
  have so: "(s, ob) \<in> sent C" using assms(2) response(2) unfolding einv_def by blast
  then have s: "s \<in> set (dMembers D)" "own_candidacy s ob" using assms(2) by (auto simp: einv_def)
  have h: "host_inv D G s (Up n)" "grants_ok D G" using assms(2) response s(1) by (auto simp: einv_def)
  have st: "length (members (nCore n)) = length (dMembers D)" "currentTerm (nCore n) < - 1"
    using assms(4) response s(1) by (auto simp: static_def)
  have hr: "headroom ev (nCore n)"
    using st(2) response(4)
    by (auto simp: headroom_def response_event_def split: message.splits reply_msg.splits sum.splits)
  have nv: "(v, currentTerm (nCore n), s) \<in> G" if nw: "v \<in> new_voter ev (nCore n)" for v
  proof -
    obtain q x where qx: "oMsg ob = RequestVote q" "r = VoteReply (Inr x)" "ev = evVoteResp (oTo ob) (rvTerm q) (rvPreVote q) x"
      using nw response(4)
      by (auto simp: response_event_def new_voter_def split: message.splits reply_msg.splits sum.splits)
    then have "\<not> rvPreVote q" "vrGranted x" "rvTerm q = currentTerm (nCore n)" "v = oTo ob"
      using nw by (auto simp: new_voter_def split: if_splits)
    moreover from this qx have "(oTo ob, rvTerm q, rvCandidateId q) \<in> G" using assms(2) response(2) unfolding einv_def by blast
    ultimately show ?thesis using s(2) qx(1) by (simp add: own_candidacy_def)
  qed
  obtain p where p: "grants_ok D (record_vote s p G)"
    "host_inv D (record_vote s p G) s (Up (run_step (dMachine D) ev (with_faults fl n)))"
    using node_step [OF h s(1) hr st(1) _ refl] nv by metis
  have "einv D (record_vote s p G) ((put_back s (run_step (dMachine D) ev (with_faults fl n)) C)\<lparr>answered := answered C \<union> {}\<rparr>)"
    by (rule put_back_inv [OF assms(2) s(1) p]) auto
  then show ?thesis using response(1) by (auto simp: put_back_def)
next
  case (exit_loop i n)
  have h: "host_inv D G i (Up n)" "grants_ok D G" using assms(2) exit_loop by (auto simp: einv_def)
  have g: "record_vote i (0, noVote) G = G" by (simp add: record_vote_def)
  have "host_inv D (record_vote i (0, noVote) G) i (Up (run_exit (Stop n)))"
    using h(1) unfolding g host_inv_def by (simp add: run_exit_def Stop_def)
  then have "einv D (record_vote i (0, noVote) G) ((put_back i (run_exit (Stop n)) C)\<lparr>answered := answered C \<union> {}\<rparr>)"
    by (intro put_back_inv [OF assms(2) exit_loop(2)]) (use h(2) g in auto)
  then show ?thesis using exit_loop(1) by (auto simp: put_back_def)
next
  case (crash_host i k)
  obtain t v where "state_holds (disk_of (hosts C i)) (DataDir (dConfig D i)) t v"
    using assms(2) crash_host(2) by (auto simp: einv_def host_inv_def)
  then show ?thesis using put_down_inv [OF assms(2) crash_host(2) state_holds_crash] crash_host(1) by blast
next
  case (kill_process i)
  obtain t v where "state_holds (disk_of (hosts C i)) (DataDir (dConfig D i)) t v"
    using assms(2) kill_process(3) by (auto simp: einv_def host_inv_def)
  then show ?thesis using put_down_inv [OF assms(2) kill_process(3), of "kill (disk_of (hosts C i))" t v] kill_process(1)
    by (auto simp: kill_def)
next
  case (restart i s draws fl n s')
  have h: "host_inv D G i (Down s)" "grants_ok D G" using assms(2) restart by (auto simp: einv_def)
  then obtain t v where tv: "state_holds s (DataDir (dConfig D i)) t v" "\<forall>t' c'. (i, t', c') \<in> G \<longrightarrow> tv_le (t', c') (t, v)"
    by (auto simp: host_inv_def)
  have "state_holds (s\<lparr>faults := fl\<rparr>) (DataDir (dConfig D i)) t v" using tv(1) by simp
  from NewNode_holds(2) [OF restart(4) this refl]
  have n: "good (nCore n)" "ID (cfg (nCore n)) = ID (dConfig D i)" "dirOf (nCore n) = DataDir (dConfig D i)" "tv (nCore n) = (t, v)"
    "role (nCore n) = follower" "outbox (nCore n) = []" "nSent n = []" by simp_all
  have g: "record_vote i (0, noVote) G = G" by (simp add: record_vote_def)
  have "ID (dConfig D i) = i" using assms(3) restart(2) by (simp add: sound_def)
  moreover have "state_holds (disk (nCore n)) (DataDir (dConfig D i)) t v" using n(1,3,4) by (simp add: good_def)
  ultimately have "host_inv D (record_vote i (0, noVote) G) i (Up n)"
    unfolding g host_inv_def using n tv(2) by (simp, blast)
  then have "einv D (record_vote i (0, noVote) G) ((put_back i n C)\<lparr>answered := answered C \<union> {}\<rparr>)"
    by (intro put_back_inv [OF assms(2) restart(2)]) (use h(2) g in auto)
  then show ?thesis using restart(1) by (auto simp: put_back_def)
next
  case (failed_start i s draws fl e s')
  obtain t v where tv: "state_holds s (DataDir (dConfig D i)) t v"
    using assms(2) failed_start by (auto simp: einv_def host_inv_def)
  then have "state_holds (s\<lparr>faults := fl\<rparr>) (DataDir (dConfig D i)) t v" by simp
  from NewNode_holds(1) [OF failed_start(4) this]
  show ?thesis using put_down_inv [OF assms(2) failed_start(2)] tv failed_start(1,3) by (metis disk_of.simps(2))
qed

lemma reach_einv:
  assumes "reach D P C" "\<And>C. P C \<Longrightarrow> static D C" "sound D"
  shows "\<exists>G. einv D G C"
  using assms(1)
proof induction
  case (start C)
  have "host_inv D {} i (hosts C i)" if i: "i \<in> set (dMembers D)" for i
  proof -
    obtain s where "hosts C i = Down s" "lookup s (DataDir (dConfig D i), stateFileName) = None"
      using start(1) i by (auto simp: initial_def)
    then have "state_holds (disk_of (hosts C i)) (DataDir (dConfig D i)) 0 noVote" by (simp add: state_holds_def)
    then show ?thesis using \<open>hosts C i = Down s\<close> unfolding host_inv_def by auto
  qed
  then have "einv D {} C" using start(1) by (simp add: einv_def grants_ok_def initial_def)
  then show ?case by blast
next
  case (onward C C')
  then show ?case using einv_step [OF onward(2) _ assms(3)] assms(2) onward(1) by (metis reach.simps)
qed

end
