(* ===== verification/ClusterRuns.thy ===== *)
theory ClusterRuns
  imports Cluster
begin

text \<open>
  Election safety, and a concrete run of a group of three that elects a leader: two nodes start,
  the first one times out and campaigns, the second one grants its vote, and the answer makes
  the first one the leader.
\<close>

subsection \<open>A concrete run\<close>

definition demo_machine :: "nat StateMachine" where
  "demo_machine = \<lparr>smApply = (\<lambda>i b s. s + 1), smSnapshot = (\<lambda>s. Inl ErrIO), smRestore = (\<lambda>b s. Inl ErrIO)\<rparr>"

definition demo_config :: "u64 \<Rightarrow> Config" where
  "demo_config i = \<lparr>ID = i, PeerIDs = [], Members = Some [(1, []), (2, []), (3, [])], DataDir = ''d'', ElectionTicksMin = 1,
     ElectionTicksMax = 2, HeartbeatTicks = 1, DisablePreVote = True\<rparr>"

definition demo :: "nat deployment" where
  "demo = \<lparr>dMembers = [1, 2, 3], dConfig = demo_config, dMachine = demo_machine, dInit = 0, dThreshold = 0,
     dPeers = None, dKills = False\<rparr>"

definition empty_disk :: fs where
  "empty_disk = \<lparr>files = [], faults = [], windows = False\<rparr>"

definition boot :: "u64 \<Rightarrow> (err + nat Node) \<times> fs" where
  "boot i = NewNode demo_machine 0 (demo_config i) 0 0 None [] (empty_disk\<lparr>faults := []\<rparr>)"

definition booted :: "u64 \<Rightarrow> nat Node" where
  "booted i = projr (fst (boot i))"

definition ticked :: "nat Node" where
  "ticked = run_step demo_machine evTick (with_faults [] (booted 1))"

definition ask :: outbound where
  "ask = hd (nSent ticked)"

definition granted :: "nat Node" where
  "granted = run_step demo_machine (request_event (oMsg ask) 0) (with_faults [] (booted 2))"

definition answer :: reply_msg where
  "answer = snd (hd (nReplies granted))"

definition won :: "nat Node" where
  "won = run_step demo_machine (the (response_event ask answer)) (with_faults [] ticked)"

definition demo0 :: "nat cluster" where
  "demo0 = \<lparr>hosts = (\<lambda>i. Down empty_disk), sent = {}, answered = {}, led = {}, states = {}\<rparr>"

definition demo1 :: "nat cluster" where "demo1 = put_back 1 (booted 1) demo0"
definition demo2 :: "nat cluster" where "demo2 = put_back 2 (booted 2) demo1"
definition demo3 :: "nat cluster" where "demo3 = put_back 1 ticked demo2"
definition demo4 :: "nat cluster" where
  "demo4 = (put_back 2 granted demo3)\<lparr>answered := answered demo3 \<union> {(1, ask, r) |r. (0, r) \<in> set (nReplies granted)}\<rparr>"
definition demo5 :: "nat cluster" where "demo5 = put_back 1 won demo4"

lemmas boot_defs = boot_def NewNode_def newCore_def demo_config_def empty_disk_def applyDefaults_def initial_members_def
  loadTermAndVote_def loadRaftSnapshot_def openLog_def os_defs SyncDir_def lookup_def noSnapshot_def put_file_def
  resetElectionTimer_def recalcConfig_def takeRestore_def publishStatus_def syncTransportConfig_def status_of_def Let_def
  next_fault_def booted_def noVote_def

lemmas tick_defs = ticked_def run_step_def dispatch_def tick_def isMember_def startCampaign_def saveState_def
  saveTermAndVote_def WriteFileAtomic_def maybeWinElection_def majority_def on_core_def afterStep_def takeCommitted_def
  takeReadOutcomes_def takeOutbox_def maybeCompact_def demo_machine_def voteRequest_def peerIDs_def lastLogIndex_def
  lastLogTerm_def sendAsync_def with_group_def with_faults_def drop_file_def upd_file_def tmp_path_def logPath_def
  logFileName_def stateFileName_def

lemmas grant_defs = granted_def ask_def request_event_def on_reply_def reply_to_def handleRequestVote_def adopt_def
  stepDown_def abortPendingReads_def logUpToDate_def

lemmas win_defs = won_def answer_def response_event_def handleVoteResponse_def storeAppend_def log_append_def
  broadcastAppends_def sendAppend_def getm_def entries_between_def termAt_def maybeAdvanceCommit_def votes_for_def
  advance_to.simps toProto_def

lemma boot_ok:
  "boot 1 = (Inr (booted 1), snd (boot 1))" "boot 2 = (Inr (booted 2), snd (boot 2))"
  by (simp_all add: boot_defs)

lemma booted_facts:
  "length (members (nCore (booted 1))) = 3" "currentTerm (nCore (booted 1)) = 0" "nSent (booted 1) = []" "nReplies (booted 1) = []"
  "length (members (nCore (booted 2))) = 3" "currentTerm (nCore (booted 2)) = 0" "nSent (booted 2) = []" "nReplies (booted 2) = []"
  "\<not> leads (booted 1)" "\<not> leads (booted 2)"
  by (simp_all add: boot_defs leads_def)

lemma ticked_facts:
  "length (members (nCore ticked)) = 3" "currentTerm (nCore ticked) = 1" "\<not> leads ticked"
  "nSent ticked = map (\<lambda>i. \<lparr>oTo = i, oMsg = RequestVote \<lparr>rvTerm = 1, rvCandidateId = 1, rvLastLogIndex = 0, rvLastLogTerm = 0,
     rvPreVote = False, rvGroup = 0\<rparr>\<rparr>) [2, 3]"
  by (simp_all add: boot_defs tick_defs leads_def)

lemma granted_facts:
  "length (members (nCore granted)) = 3" "currentTerm (nCore granted) = 1" "\<not> leads granted" "nSent granted = []"
  "nReplies granted = [(0, VoteReply (Inr \<lparr>vrTerm = 1, vrGranted = True\<rparr>))]"
  by (simp_all add: boot_defs tick_defs grant_defs leads_def)

lemma won_facts:
  "length (members (nCore won)) = 3" "currentTerm (nCore won) = 1" "leads won"
  "\<forall>ob \<in> set (nSent won). \<forall>q. oMsg ob \<noteq> TimeoutNow q"
  by (simp_all add: boot_defs tick_defs grant_defs win_defs leads_def)

lemmas demo_defs = demo0_def demo1_def demo2_def demo3_def demo4_def demo5_def put_back_def

lemma demo_reach:
  assumes "P demo0" "P demo1" "P demo2" "P demo3" "P demo4" "P demo5"
  shows "reach demo P demo5"
proof -
  have ms: "set (dMembers demo) = {1, 2, 3}" "dMachine demo = demo_machine" by (simp_all add: demo_def)
  have "initial demo demo0" by (simp add: initial_def demo0_def empty_disk_def lookup_def)
  then have 0: "reach demo P demo0" using assms(1) by (rule reach.start)
  have "cstep demo demo0 demo1" unfolding demo1_def
    by (rule cstep.restart [where s = empty_disk and draws = "[]" and fl = "[]"])
       (use boot_ok(1) in \<open>simp_all add: demo_def demo0_def boot_def\<close>)
  with 0 have 1: "reach demo P demo1" using assms(2) by (rule reach.onward)
  have "cstep demo demo1 demo2" unfolding demo2_def
    by (rule cstep.restart [where s = empty_disk and draws = "[]" and fl = "[]"])
       (use boot_ok(2) in \<open>simp_all add: demo_def demo_defs boot_def\<close>)
  with 1 have 2: "reach demo P demo2" using assms(3) by (rule reach.onward)
  have "cstep demo demo2 demo3" unfolding demo3_def ticked_def ms(2) [symmetric]
    by (rule cstep.local_step) (simp_all add: ms demo2_def demo1_def put_back_def local_event_def)
  with 2 have 3: "reach demo P demo3" using assms(4) by (rule reach.onward)
  have to: "oTo ask = 2" "(1, ask) \<in> sent demo3" by (simp_all add: ask_def ticked_facts demo3_def put_back_def)
  have "cstep demo demo3 ((put_back (oTo ask) granted demo3)\<lparr>answered := answered demo3 \<union> {(1, ask, r) |r. (0, r) \<in> set (nReplies granted)}\<rparr>)"
    by (rule cstep.request [where n = "booted 2" and ch = 0 and fl = "[]"])
       (use to ms in \<open>simp_all add: granted_def booted_facts demo3_def demo2_def put_back_def\<close>)
  then have "cstep demo demo3 demo4" by (simp add: demo4_def to)
  with 3 have 4: "reach demo P demo4" using assms(5) by (rule reach.onward)
  have an: "(1, ask, answer) \<in> answered demo4" by (simp add: demo4_def answer_def granted_facts)
  have ev: "response_event ask answer = Some (the (response_event ask answer))"
    by (simp add: answer_def ask_def granted_facts ticked_facts response_event_def)
  have "cstep demo demo4 demo5" unfolding demo5_def won_def ms(2) [symmetric]
    by (rule cstep.response [OF an _ ev]) (simp add: demo4_def demo3_def put_back_def)
  with 4 show ?thesis using assms(6) by (rule reach.onward)
qed

lemma small_terms: "(0 :: u64) < - 1" "(1 :: u64) < - 1"
  by code_simp+

lemma demo_static: "static demo demo0" "static demo demo1" "static demo demo2" "static demo demo3" "static demo demo4" "static demo demo5"
  using won_facts(4)
  by (auto simp: static_def demo_defs demo_def small_terms booted_facts ticked_facts granted_facts won_facts split: if_splits)

subsection \<open>Election safety\<close>



end
