(* ===== verification/RaftSpec.thy ===== *)
theory RaftSpec
  imports Cluster
begin

text \<open>
  The Raft protocol as an abstract specification, without messages, disks and timers: per node a
  term, a vote, a role and a log, and the history that the safety argument speaks about. The
  history variables are the log of the leader of each term, the logs with which candidates ran,
  the logs of the voters at the moment they voted, and which prefix of which leader's log a node
  has confirmed to hold. A committed prefix never changes (\<open>committed_agree\<close>), because every later
  leader's log starts with it (\<open>leader_completeness\<close>).
\<close>

record abs =
  aTerm :: "u64 \<Rightarrow> u64"
  aVote :: "u64 \<Rightarrow> u64"
  aRole :: "u64 \<Rightarrow> role"
  aLog :: "u64 \<Rightarrow> Entry list"
  aLead :: "u64 \<Rightarrow> (u64 \<times> Entry list) option"
  aCand :: "u64 \<Rightarrow> u64 \<Rightarrow> Entry list option"
  aGrants :: "(u64 \<times> u64 \<times> u64) set"
  aVoters :: "(u64 \<times> u64 \<times> u64 \<times> Entry list) set"
  aAcks :: "(u64 \<times> u64 \<times> nat) set"

definition last_term :: "Entry list \<Rightarrow> u64" where
  "last_term l = (if l = [] then 0 else eTerm (last l))"

definition up_to_date :: "Entry list \<Rightarrow> Entry list \<Rightarrow> bool" where
  "up_to_date c v \<longleftrightarrow> last_term v < last_term c \<or> last_term v = last_term c \<and> length v \<le> length c"

text \<open>Recording a vote with the voter's log; once the term has a leader the record is of no use.\<close>

definition note_vote :: "u64 \<Rightarrow> u64 \<Rightarrow> u64 \<Rightarrow> abs \<Rightarrow> abs" where
  "note_vote v t c a = a\<lparr>aGrants := insert (v, t, c) (aGrants a),
     aVoters := (if aLead a t = None then insert (v, t, c, aLog a v) (aVoters a) else aVoters a)\<rparr>"

inductive astep :: "u64 list \<Rightarrow> abs \<Rightarrow> abs \<Rightarrow> bool" for ms where
  new_term:
    "v \<in> set ms \<Longrightarrow> aTerm a v < t
      \<Longrightarrow> astep ms a (a\<lparr>aTerm := (aTerm a)(v := t), aVote := (aVote a)(v := noVote), aRole := (aRole a)(v := follower)\<rparr>)"
| campaign:
    "v \<in> set ms \<Longrightarrow> v \<noteq> noVote \<Longrightarrow> aTerm a v < t
      \<Longrightarrow> astep ms a (note_vote v t v (a\<lparr>aTerm := (aTerm a)(v := t), aVote := (aVote a)(v := v), aRole := (aRole a)(v := candidate),
            aCand := (aCand a)(t := (aCand a t)(v \<mapsto> aLog a v))\<rparr>))"
| grant:
    "v \<in> set ms \<Longrightarrow> c \<noteq> noVote \<Longrightarrow> aVote a v = noVote \<or> aVote a v = c \<Longrightarrow> aCand a (aTerm a v) c = Some l \<Longrightarrow> up_to_date l (aLog a v)
      \<Longrightarrow> astep ms a (note_vote v (aTerm a v) c (a\<lparr>aVote := (aVote a)(v := c)\<rparr>))"
| win:
    "v \<in> set ms \<Longrightarrow> aRole a v = candidate \<Longrightarrow> majority_of ms {u. (u, aTerm a v, v) \<in> aGrants a}
      \<Longrightarrow> astep ms a (a\<lparr>aRole := (aRole a)(v := leader), aLead := (aLead a)(aTerm a v \<mapsto> (v, aLog a v))\<rparr>)"
| append:
    "v \<in> set ms \<Longrightarrow> aRole a v = leader \<Longrightarrow> eTerm e = aTerm a v
      \<Longrightarrow> astep ms a (a\<lparr>aLog := (aLog a)(v := aLog a v @ [e]), aLead := (aLead a)(aTerm a v \<mapsto> (v, aLog a v @ [e]))\<rparr>)"
| promise:
    "v \<in> set ms \<Longrightarrow> aVote a v = noVote \<Longrightarrow> astep ms a (a\<lparr>aVote := (aVote a)(v := c)\<rparr>)"
| resign:
    "astep ms a (a\<lparr>aRole := (aRole a)(v := follower)\<rparr>)"
| accept:
    "v \<in> set ms \<Longrightarrow> aRole a v = follower \<Longrightarrow> aLead a (aTerm a v) = Some (w, l) \<Longrightarrow> m \<le> length l \<Longrightarrow> take m l \<noteq> take m (aLog a v)
      \<Longrightarrow> astep ms a (a\<lparr>aLog := (aLog a)(v := take m l)\<rparr>)"
| ack:
    "v \<in> set ms \<Longrightarrow> aLead a (aTerm a v) = Some (w, l) \<Longrightarrow> m \<le> length l \<Longrightarrow> take m (aLog a v) = take m l
      \<Longrightarrow> astep ms a (a\<lparr>aAcks := insert (v, aTerm a v, m) (aAcks a)\<rparr>)"

definition ainit :: "abs \<Rightarrow> bool" where
  "ainit a \<longleftrightarrow> (\<forall>v. aTerm a v = 0 \<and> aVote a v = noVote \<and> aRole a v = follower \<and> aLog a v = []) \<and>
     aLead a = Map.empty \<and> aCand a = (\<lambda>t. Map.empty) \<and> aGrants a = {} \<and> aVoters a = {} \<and> aAcks a = {}"

text \<open>What is committed: a prefix of a leader's log that ends in an entry of its own term and that
  a majority has confirmed.\<close>

definition committed_to :: "u64 list \<Rightarrow> abs \<Rightarrow> u64 \<Rightarrow> nat \<Rightarrow> bool" where
  "committed_to ms a t k \<longleftrightarrow> (\<exists>w l. aLead a t = Some (w, l) \<and> 0 < k \<and> k \<le> length l \<and> eTerm (l ! (k - 1)) = t \<and>
     (\<exists>Q. majority_of ms Q \<and> (\<forall>v \<in> Q. \<exists>m \<ge> k. (v, t, m) \<in> aAcks a)))"

subsection \<open>The invariant\<close>

text \<open>Every entry of a log stands where the leader of its term put it, behind the same entries.\<close>

definition from_lead :: "abs \<Rightarrow> Entry list \<Rightarrow> bool" where
  "from_lead a l \<longleftrightarrow> (\<forall>k < length l. \<exists>w L. aLead a (eTerm (l ! k)) = Some (w, L) \<and> take (Suc k) l = take (Suc k) L)"

text \<open>What a confirmation is still worth: the node holds the prefix, or a later leader's log
  disagrees with it (\<open>P\<close> bounds the terms of such leaders).\<close>

definition agrees :: "abs \<Rightarrow> u64 \<Rightarrow> nat \<Rightarrow> Entry list \<Rightarrow> bool" where
  "agrees a t j l \<longleftrightarrow> (\<exists>w L. aLead a t = Some (w, L) \<and> take j l = take j L)"

definition kept :: "abs \<Rightarrow> u64 \<Rightarrow> nat \<Rightarrow> Entry list \<Rightarrow> (u64 \<Rightarrow> bool) \<Rightarrow> bool" where
  "kept a t m l P \<longleftrightarrow> (\<forall>j \<le> m. agrees a t j l \<or>
     (\<exists>t3 w3 L3. t < t3 \<and> P t3 \<and> aLead a t3 = Some (w3, L3) \<and> \<not> agrees a t j L3))"

definition retained :: "abs \<Rightarrow> u64 \<Rightarrow> u64 \<Rightarrow> Entry list \<Rightarrow> bool" where
  "retained a v t l \<longleftrightarrow> (\<forall>u m. (v, u, m) \<in> aAcks a \<longrightarrow> u < t \<longrightarrow> kept a u m l (\<lambda>x. x < t))"

text \<open>Why a candidate could win: a majority whose logs at the time of voting were no better.\<close>

definition mandate :: "u64 list \<Rightarrow> abs \<Rightarrow> u64 \<Rightarrow> Entry list \<Rightarrow> bool" where
  "mandate ms a t C \<longleftrightarrow> (\<exists>Q. majority_of ms Q \<and>
     (\<forall>v \<in> Q. t \<le> aTerm a v \<and> (\<exists>l. from_lead a l \<and> up_to_date C l \<and> retained a v t l)))"

definition inv_grants :: "u64 list \<Rightarrow> abs \<Rightarrow> bool" where
  "inv_grants ms a \<longleftrightarrow> (\<forall>v t c. (v, t, c) \<in> aGrants a \<longrightarrow> v \<in> set ms \<and> c \<noteq> noVote \<and> t \<le> aTerm a v \<and> (t = aTerm a v \<longrightarrow> aVote a v = c)
     \<and> (\<forall>c'. (v, t, c') \<in> aGrants a \<longrightarrow> c' = c) \<and> (aLead a t = None \<longrightarrow> (\<exists>l. (v, t, c, l) \<in> aVoters a)))"

definition inv_lead :: "u64 list \<Rightarrow> abs \<Rightarrow> bool" where
  "inv_lead ms a \<longleftrightarrow> (\<forall>t w l. aLead a t = Some (w, l) \<longrightarrow>
     majority_of ms {u. (u, t, w) \<in> aGrants a} \<and> t \<le> aTerm a w \<and> (t = aTerm a w \<longrightarrow> aRole a w \<noteq> candidate)
     \<and> from_lead a l \<and> (\<forall>e \<in> set l. eTerm e \<le> t)
     \<and> (\<exists>C. aCand a t w = Some C \<and> take (length C) l = C \<and> (\<forall>k < length l. length C \<le> k \<longrightarrow> eTerm (l ! k) = t) \<and> mandate ms a t C))"

definition inv_node :: "abs \<Rightarrow> bool" where
  "inv_node a \<longleftrightarrow> (\<forall>v. from_lead a (aLog a v) \<and> (\<forall>e \<in> set (aLog a v). eTerm e \<le> aTerm a v)
     \<and> (aRole a v = leader \<longrightarrow> aLead a (aTerm a v) = Some (v, aLog a v))
     \<and> (aRole a v = candidate \<longrightarrow> aCand a (aTerm a v) v = Some (aLog a v)))"

definition inv_cand :: "abs \<Rightarrow> bool" where
  "inv_cand a \<longleftrightarrow> (\<forall>t c C. aCand a t c = Some C \<longrightarrow> t \<le> aTerm a c \<and> from_lead a C \<and> (\<forall>e \<in> set C. eTerm e < t))"

definition inv_voters :: "abs \<Rightarrow> bool" where
  "inv_voters a \<longleftrightarrow> (\<forall>v t c l. (v, t, c, l) \<in> aVoters a \<longrightarrow> (v, t, c) \<in> aGrants a \<and> from_lead a l
     \<and> (\<exists>C. aCand a t c = Some C \<and> up_to_date C l) \<and> retained a v t l)"

definition inv_acks :: "abs \<Rightarrow> bool" where
  "inv_acks a \<longleftrightarrow> (\<forall>v t m. (v, t, m) \<in> aAcks a \<longrightarrow> t \<le> aTerm a v \<and> (\<exists>w L. aLead a t = Some (w, L) \<and> m \<le> length L)
     \<and> kept a t m (aLog a v) (\<lambda>x. x \<le> aTerm a v))"

definition ainv :: "u64 list \<Rightarrow> abs \<Rightarrow> bool" where
  "ainv ms a \<longleftrightarrow> inv_grants ms a \<and> inv_lead ms a \<and> inv_node a \<and> inv_cand a \<and> inv_voters a \<and> inv_acks a"

lemma ainvD:
  assumes "ainv ms a"
  shows "inv_grants ms a" "inv_lead ms a" "inv_node a" "inv_cand a" "inv_voters a" "inv_acks a"
  using assms by (simp_all add: ainv_def)

lemma ainit_ainv: "ainit a \<Longrightarrow> ainv ms a"
  by (simp add: ainit_def ainv_def inv_grants_def inv_lead_def inv_node_def inv_cand_def inv_voters_def inv_acks_def from_lead_def)

text \<open>The history only grows: leaders' logs by entries of their term.\<close>

definition grows :: "abs \<Rightarrow> abs \<Rightarrow> bool" where
  "grows a a' \<longleftrightarrow> (\<forall>t w L. aLead a t = Some (w, L) \<longrightarrow> (\<exists>s. aLead a' t = Some (w, L @ s) \<and> (\<forall>e \<in> set s. eTerm e = t)))"

lemma grows_same [simp]: "aLead a' = aLead a \<Longrightarrow> grows a a'"
  by (simp add: grows_def)

lemma growsE:
  assumes "grows a a'" "aLead a t = Some (w, L)"
  obtains s where "aLead a' t = Some (w, L @ s)" "\<forall>e \<in> set s. eTerm e = t"
  using assms unfolding grows_def by blast

lemma from_lead_grows:
  assumes "grows a a'" "from_lead a l" shows "from_lead a' l"
  unfolding from_lead_def
proof (intro allI impI)
  fix k assume k: "k < length l"
  obtain w L where L: "aLead a (eTerm (l ! k)) = Some (w, L)" "take (Suc k) l = take (Suc k) L"
    using assms(2) k by (auto simp: from_lead_def)
  obtain s where s: "aLead a' (eTerm (l ! k)) = Some (w, L @ s)" using growsE [OF assms(1) L(1)] by blast
  have "length (take (Suc k) L) = Suc k" using L(2) k by (metis Suc_leI length_take min.absorb2)
  then have "take (Suc k) (L @ s) = take (Suc k) L" by simp
  then show "\<exists>w L. aLead a' (eTerm (l ! k)) = Some (w, L) \<and> take (Suc k) l = take (Suc k) L" using s L(2) by auto
qed

lemma from_lead_cong: "aLead a' = aLead a \<Longrightarrow> from_lead a' l = from_lead a l"
  by (simp add: from_lead_def)

lemma from_lead_take: "from_lead a l \<Longrightarrow> from_lead a (take m l)"
  by (simp add: from_lead_def take_Suc_conv_app_nth min_def)

lemma agrees_grows:
  assumes "grows a a'" "aLead a t = Some (w, L)" "j \<le> length L"
  shows "agrees a' t j l = agrees a t j l"
proof -
  obtain s where "aLead a' t = Some (w, L @ s)" using growsE [OF assms(1,2)] by blast
  then show ?thesis using assms(2,3) by (simp add: agrees_def)
qed

lemma kept_grows:
  assumes "grows a a'" "inv_lead ms a" "aLead a t = Some (w, L)" "m \<le> length L" "kept a t m l P" "\<And>x. P x \<Longrightarrow> P' x"
  shows "kept a' t m l P'"
  unfolding kept_def
proof (intro allI impI)
  fix j assume j: "j \<le> m"
  note ag = agrees_grows [OF assms(1,3)]
  consider "agrees a t j l" | t3 w3 L3 where "t < t3" "P t3" "aLead a t3 = Some (w3, L3)" "\<not> agrees a t j L3"
    using assms(5) j by (auto simp: kept_def)
  then show "agrees a' t j l \<or> (\<exists>t3 w3 L3. t < t3 \<and> P' t3 \<and> aLead a' t3 = Some (w3, L3) \<and> \<not> agrees a' t j L3)"
  proof cases
    case 1
    then show ?thesis using ag j assms(4) by auto
  next
    case 2
    obtain s where s: "aLead a' t3 = Some (w3, L3 @ s)" "\<forall>e \<in> set s. eTerm e = t3" using growsE [OF assms(1) 2(3)] by blast
    have ne: "take j L3 \<noteq> take j L" using 2(4) assms(3) by (auto simp: agrees_def)
    have "take j (L3 @ s) \<noteq> take j L"
    proof
      assume eq: "take j (L3 @ s) = take j L"
      have "length L3 < j" using eq ne by (metis append_Nil2 diff_is_0_eq linorder_not_le take_0 take_append)
      moreover have "length (take j (L3 @ s)) = j" using eq j assms(4) by simp
      ultimately have ls: "length L3 < length (L3 @ s)" "length L3 < length L" using j assms(4) by auto
      have "take j (L3 @ s) ! length L3 = take j L ! length L3" using eq by simp
      then have "(L3 @ s) ! length L3 = L ! length L3" using \<open>length L3 < j\<close> by (simp del: take_append)
      then have "L ! length L3 \<in> set s" using ls(1) by (metis length_append less_add_same_cancel1 nth_append_length_plus nth_mem add.right_neutral)
      then have "eTerm (L ! length L3) = t3" using s(2) by blast
      moreover have "eTerm (L ! length L3) \<le> t" using assms(2,3) ls(2) by (auto simp: inv_lead_def)
      ultimately show False using 2(1) by simp
    qed
    then have "\<not> agrees a t j (L3 @ s)" using assms(3) by (simp add: agrees_def)
    then have "\<not> agrees a' t j (L3 @ s)" using ag j assms(4) by simp
    then show ?thesis using 2(1,2) s(1) assms(6) by blast
  qed
qed

lemma retained_grows:
  assumes "grows a a'" "inv_lead ms a" "inv_acks a" "aAcks a' = aAcks a" "retained a v t l"
  shows "retained a' v t l"
  unfolding retained_def
proof (intro allI impI)
  fix u m assume um: "(v, u, m) \<in> aAcks a'" "u < t"
  obtain w L where "aLead a u = Some (w, L)" "m \<le> length L" using assms(3,4) um(1) unfolding inv_acks_def by metis
  moreover have "kept a u m l (\<lambda>x. x < t)" using assms(4,5) um by (simp add: retained_def)
  ultimately show "kept a' u m l (\<lambda>x. x < t)" by (rule kept_grows [OF assms(1,2)])
qed

lemma mandate_grows:
  assumes "grows a a'" "inv_lead ms a" "inv_acks a" "aAcks a' = aAcks a" "\<And>v. aTerm a v \<le> aTerm a' v" "mandate ms a t C"
  shows "mandate ms a' t C"
proof -
  obtain Q where Q: "majority_of ms Q" "\<forall>v \<in> Q. t \<le> aTerm a v \<and> (\<exists>l. from_lead a l \<and> up_to_date C l \<and> retained a v t l)"
    using assms(6) unfolding mandate_def by blast
  have "t \<le> aTerm a' v \<and> (\<exists>l. from_lead a' l \<and> up_to_date C l \<and> retained a' v t l)" if v: "v \<in> Q" for v
  proof -
    obtain l where l: "t \<le> aTerm a v" "from_lead a l" "up_to_date C l" "retained a v t l" using Q(2) v by blast
    have "t \<le> aTerm a' v" by (rule order_trans [OF l(1) assms(5)])
    moreover have "from_lead a' l" by (rule from_lead_grows [OF assms(1) l(2)])
    moreover have "retained a' v t l" by (rule retained_grows [OF assms(1-4) l(4)])
    ultimately show ?thesis using l(3) by auto
  qed
  then have "\<forall>v \<in> Q. t \<le> aTerm a' v \<and> (\<exists>l. from_lead a' l \<and> up_to_date C l \<and> retained a' v t l)" by (rule ballI)
  with Q(1) show ?thesis unfolding mandate_def by blast
qed

text \<open>The parts of the invariant that speak about history alone survive every step that lets it
  grow and confirms nothing new.\<close>

lemma inv_acks_grows:
  assumes "grows a a'" "inv_lead ms a" "inv_acks a" "aAcks a' = aAcks a" "\<And>v. aTerm a v \<le> aTerm a' v"
    "\<And>v u m. (v, u, m) \<in> aAcks a \<Longrightarrow> kept a u m (aLog a v) (\<lambda>x. x \<le> aTerm a v) \<Longrightarrow> kept a u m (aLog a' v) (\<lambda>x. x \<le> aTerm a' v)"
  shows "inv_acks a'"
  unfolding inv_acks_def
proof (intro allI impI)
  fix v t m assume "(v, t, m) \<in> aAcks a'"
  then have v: "(v, t, m) \<in> aAcks a" using assms(4) by simp
  obtain w L where L: "aLead a t = Some (w, L)" "m \<le> length L" and k: "kept a t m (aLog a v) (\<lambda>x. x \<le> aTerm a v)" and t: "t \<le> aTerm a v"
    using assms(3) v unfolding inv_acks_def by metis
  obtain s where s: "aLead a' t = Some (w, L @ s)" using growsE [OF assms(1) L(1)] by blast
  have "kept a' t m (aLog a' v) (\<lambda>x. x \<le> aTerm a' v)" by (rule kept_grows [OF assms(1,2) L assms(6) [OF v k]])
  moreover have "\<exists>w L. aLead a' t = Some (w, L) \<and> m \<le> length L" using s L(2) by (intro exI [of _ w] exI [of _ "L @ s"]) simp
  ultimately show "t \<le> aTerm a' v \<and> (\<exists>w L. aLead a' t = Some (w, L) \<and> m \<le> length L) \<and> kept a' t m (aLog a' v) (\<lambda>x. x \<le> aTerm a' v)"
    using t assms(5) [of v] by auto
qed

lemma kept_mono: "kept a t m l P \<Longrightarrow> (\<And>x. P x \<Longrightarrow> P' x) \<Longrightarrow> kept a t m l P'"
  unfolding kept_def by blast

lemma kept_cong: "aLead a' = aLead a \<Longrightarrow> kept a' t m l P = kept a t m l P"
  by (simp add: kept_def agrees_def)

lemma inv_cand_grows:
  assumes "grows a a'" "inv_cand a" "\<And>v. aTerm a v \<le> aTerm a' v" "aCand a' = aCand a"
  shows "inv_cand a'"
  using assms(2) from_lead_grows [OF assms(1)] assms(3) order_trans unfolding inv_cand_def assms(4) by blast

lemma inv_voters_grows:
  assumes "grows a a'" "inv_lead ms a" "inv_acks a" "aAcks a' = aAcks a" "inv_voters a" "aVoters a' = aVoters a"
    "aGrants a \<subseteq> aGrants a'" "\<And>t c C. aCand a t c = Some C \<Longrightarrow> aCand a' t c = Some C"
  shows "inv_voters a'"
  unfolding inv_voters_def
proof (intro allI impI)
  fix v t c l assume "(v, t, c, l) \<in> aVoters a'"
  then have "(v, t, c) \<in> aGrants a" "from_lead a l" "\<exists>C. aCand a t c = Some C \<and> up_to_date C l" "retained a v t l"
    using assms(5,6) unfolding inv_voters_def by auto
  then show "(v, t, c) \<in> aGrants a' \<and> from_lead a' l \<and> (\<exists>C. aCand a' t c = Some C \<and> up_to_date C l) \<and> retained a' v t l"
    using assms(7,8) from_lead_grows [OF assms(1)] retained_grows [OF assms(1-4)] by blast
qed

subsection \<open>Every step keeps the invariant\<close>

text \<open>Steps that change terms, votes and roles only.\<close>

lemma ainv_demote:
  assumes "ainv ms a" "aLead a' = aLead a" "aCand a' = aCand a" "aLog a' = aLog a" "aGrants a' = aGrants a" "aVoters a' = aVoters a"
    "aAcks a' = aAcks a" "\<And>v. aTerm a v \<le> aTerm a' v" "\<And>v. aRole a' v = follower \<or> aRole a' v = aRole a v \<and> aTerm a' v = aTerm a v"
    "\<And>v. aTerm a' v = aTerm a v \<Longrightarrow> aVote a' v = aVote a v \<or> aVote a v = noVote"
  shows "ainv ms a'"
proof -
  note i = ainvD [OF assms(1)]
  have g: "grows a a'" using assms(2) by simp
  have fl: "from_lead a' l = from_lead a l" for l using from_lead_cong [OF assms(2)] .
  have "inv_grants ms a'"
    unfolding inv_grants_def
  proof (intro allI impI)
    fix v t c assume vt: "(v, t, c) \<in> aGrants a'"
    then have G: "v \<in> set ms" "c \<noteq> noVote" "t \<le> aTerm a v" "t = aTerm a v \<Longrightarrow> aVote a v = c" "\<forall>c'. (v, t, c') \<in> aGrants a \<longrightarrow> c' = c"
      "aLead a t = None \<longrightarrow> (\<exists>l. (v, t, c, l) \<in> aVoters a)"
      using i(1) unfolding inv_grants_def assms(5) by auto
    have "aVote a' v = c" if "t = aTerm a' v"
    proof -
      have "aTerm a' v = aTerm a v" using that G(3) assms(8) [of v] by simp
      then show ?thesis using that G(2,4) assms(10) [of v] by simp
    qed
    then show "v \<in> set ms \<and> c \<noteq> noVote \<and> t \<le> aTerm a' v \<and> (t = aTerm a' v \<longrightarrow> aVote a' v = c) \<and> (\<forall>c'. (v, t, c') \<in> aGrants a' \<longrightarrow> c' = c)
        \<and> (aLead a' t = None \<longrightarrow> (\<exists>l. (v, t, c, l) \<in> aVoters a'))"
      using G assms(2,5,6) assms(8) [of v] by auto
  qed
  moreover have "inv_lead ms a'"
    unfolding inv_lead_def
  proof (intro allI impI)
    fix t w l assume "aLead a' t = Some (w, l)"
    then have L: "majority_of ms {u. (u, t, w) \<in> aGrants a}" "t \<le> aTerm a w" "t = aTerm a w \<Longrightarrow> aRole a w \<noteq> candidate" "from_lead a l"
      "\<forall>e \<in> set l. eTerm e \<le> t"
      "\<exists>C. aCand a t w = Some C \<and> take (length C) l = C \<and> (\<forall>k < length l. length C \<le> k \<longrightarrow> eTerm (l ! k) = t) \<and> mandate ms a t C"
      using i(2) assms(2) unfolding inv_lead_def by auto
    have "aRole a' w \<noteq> candidate" if "t = aTerm a' w" using that L(2,3) assms(8,9) [of w] by auto
    moreover have "mandate ms a t C \<Longrightarrow> mandate ms a' t C" for C by (rule mandate_grows [OF g i(2,6) assms(7,8)])
    ultimately show "majority_of ms {u. (u, t, w) \<in> aGrants a'} \<and> t \<le> aTerm a' w \<and> (t = aTerm a' w \<longrightarrow> aRole a' w \<noteq> candidate) \<and> from_lead a' l
      \<and> (\<forall>e \<in> set l. eTerm e \<le> t)
      \<and> (\<exists>C. aCand a' t w = Some C \<and> take (length C) l = C \<and> (\<forall>k < length l. length C \<le> k \<longrightarrow> eTerm (l ! k) = t) \<and> mandate ms a' t C)"
      using L assms(3,5) assms(8) [of w] fl by auto
  qed
  moreover have "inv_node a'"
    unfolding inv_node_def
  proof
    fix v
    have N: "from_lead a (aLog a v)" "\<forall>e \<in> set (aLog a v). eTerm e \<le> aTerm a v" "aRole a v = leader \<Longrightarrow> aLead a (aTerm a v) = Some (v, aLog a v)"
      "aRole a v = candidate \<Longrightarrow> aCand a (aTerm a v) v = Some (aLog a v)" using i(3) by (auto simp: inv_node_def)
    have tm: "\<forall>e \<in> set (aLog a v). eTerm e \<le> aTerm a' v" using N(2) assms(8) [of v] by (meson order_trans)
    show "from_lead a' (aLog a' v) \<and> (\<forall>e \<in> set (aLog a' v). eTerm e \<le> aTerm a' v)
     \<and> (aRole a' v = leader \<longrightarrow> aLead a' (aTerm a' v) = Some (v, aLog a' v))
     \<and> (aRole a' v = candidate \<longrightarrow> aCand a' (aTerm a' v) v = Some (aLog a' v))"
      using N(1,3,4) tm assms(2-4) assms(9) [of v] fl by auto
  qed
  moreover have "inv_cand a'" by (rule inv_cand_grows [OF g i(4) assms(8,3)])
  moreover have "inv_voters a'" by (rule inv_voters_grows [OF g i(2,6) assms(7) i(5) assms(6)]) (use assms(3,5) in auto)
  moreover have "inv_acks a'"
  proof (rule inv_acks_grows [OF g i(2,6) assms(7,8)])
    fix v u m assume "kept a u m (aLog a v) (\<lambda>x. x \<le> aTerm a v)"
    then show "kept a u m (aLog a' v) (\<lambda>x. x \<le> aTerm a' v)"
      unfolding assms(4) by (rule kept_mono) (use assms(8) [of v] in auto)
  qed
  ultimately show ?thesis by (simp add: ainv_def)
qed

text \<open>Running for office in a fresh term.\<close>

lemma ainv_cand:
  assumes "ainv ms a" "aCand a (aTerm a v) v = None" "\<forall>e \<in> set (aLog a v). eTerm e < aTerm a v"
  shows "ainv ms (a\<lparr>aCand := (aCand a)(aTerm a v := (aCand a (aTerm a v))(v \<mapsto> aLog a v))\<rparr>)"
proof -
  let ?a = "a\<lparr>aCand := (aCand a)(aTerm a v := (aCand a (aTerm a v))(v \<mapsto> aLog a v))\<rparr>"
  note i = ainvD [OF assms(1)]
  have g: "grows a ?a" by simp
  have ext: "aCand a t c = Some C \<Longrightarrow> aCand ?a t c = Some C" for t c C using assms(2) by auto
  have fl: "from_lead ?a l = from_lead a l" for l by (rule from_lead_cong) simp
  have ma: "mandate ms a t C \<Longrightarrow> mandate ms ?a t C" for t C by (rule mandate_grows [OF g i(2,6)]) simp_all
  have "inv_grants ms ?a" using i(1) by (simp add: inv_grants_def)
  moreover have "inv_lead ms ?a" unfolding inv_lead_def
  proof (intro allI impI)
    fix t w l assume "aLead ?a t = Some (w, l)"
    then have l: "aLead a t = Some (w, l)" by simp
    then obtain C where C: "aCand a t w = Some C" "take (length C) l = C" "\<forall>k < length l. length C \<le> k \<longrightarrow> eTerm (l ! k) = t" "mandate ms a t C"
      using i(2) unfolding inv_lead_def by blast
    have "\<exists>C. aCand ?a t w = Some C \<and> take (length C) l = C \<and> (\<forall>k < length l. length C \<le> k \<longrightarrow> eTerm (l ! k) = t) \<and> mandate ms ?a t C"
      by (rule exI [of _ C]) (intro conjI ext C ma)
    moreover have "majority_of ms {u. (u, t, w) \<in> aGrants a}" "t \<le> aTerm a w" "t = aTerm a w \<longrightarrow> aRole a w \<noteq> candidate" "from_lead a l"
      "\<forall>e \<in> set l. eTerm e \<le> t" using i(2) l unfolding inv_lead_def by blast+
    ultimately show "majority_of ms {u. (u, t, w) \<in> aGrants ?a} \<and> t \<le> aTerm ?a w \<and> (t = aTerm ?a w \<longrightarrow> aRole ?a w \<noteq> candidate) \<and> from_lead ?a l
      \<and> (\<forall>e \<in> set l. eTerm e \<le> t)
      \<and> (\<exists>C. aCand ?a t w = Some C \<and> take (length C) l = C \<and> (\<forall>k < length l. length C \<le> k \<longrightarrow> eTerm (l ! k) = t) \<and> mandate ms ?a t C)"
      using fl by simp
  qed
  moreover have "inv_node ?a" using i(3) ext fl by (simp add: inv_node_def)
  moreover have "inv_cand ?a" using i(3,4) assms(3) fl by (auto simp: inv_cand_def inv_node_def)
  moreover have "inv_voters ?a" by (rule inv_voters_grows [OF g i(2,6) _ i(5)]) (use ext in auto)
  moreover have "inv_acks ?a" by (rule inv_acks_grows [OF g i(2,6)]) auto
  ultimately show ?thesis by (simp add: ainv_def)
qed

lemma ainv_candidate:
  assumes "ainv ms a" "aCand a (aTerm a v) v = Some (aLog a v)" "\<forall>l. aLead a (aTerm a v) \<noteq> Some (v, l)"
  shows "ainv ms (a\<lparr>aRole := (aRole a)(v := candidate)\<rparr>)"
proof -
  let ?a = "a\<lparr>aRole := (aRole a)(v := candidate)\<rparr>"
  note i = ainvD [OF assms(1)]
  have g: "grows a ?a" by simp
  have fl: "from_lead ?a l = from_lead a l" for l by (rule from_lead_cong) simp
  have ma: "mandate ms ?a t C = mandate ms a t C" for t C
    by (simp add: mandate_def fl retained_def kept_def agrees_def)
  have "inv_grants ms ?a" using i(1) by (simp add: inv_grants_def)
  moreover have "inv_lead ms ?a" using i(2) assms(3) by (auto simp: inv_lead_def fl ma)
  moreover have "inv_node ?a" using i(3) assms(2) by (auto simp: inv_node_def fl)
  moreover have "inv_cand ?a" using i(4) by (simp add: inv_cand_def fl)
  moreover have "inv_voters ?a" by (rule inv_voters_grows [OF g i(2,6) _ i(5)]) auto
  moreover have "inv_acks ?a" by (rule inv_acks_grows [OF g i(2,6)]) auto
  ultimately show ?thesis by (simp add: ainv_def)
qed

text \<open>A vote is recorded with the voter's log. What the voter has confirmed in earlier terms is
  in that log, or a leader between those terms and this one disagreed.\<close>

lemma retained_now:
  assumes "ainv ms a" "aLead a (aTerm a v) = None"
  shows "retained a v (aTerm a v) (aLog a v)"
  unfolding retained_def
proof (intro allI impI)
  fix u m assume um: "(v, u, m) \<in> aAcks a" "u < aTerm a v"
  have "kept a u m (aLog a v) (\<lambda>x. x \<le> aTerm a v)" using ainvD(6) [OF assms(1)] um(1) by (simp add: inv_acks_def)
  then show "kept a u m (aLog a v) (\<lambda>x. x < aTerm a v)"
    unfolding kept_def using assms(2) by (metis option.distinct(1) order_le_less)
qed

lemma ainv_vote:
  assumes "ainv ms a" "v \<in> set ms" "c \<noteq> noVote" "aVote a v = c" "aCand a (aTerm a v) c = Some C" "up_to_date C (aLog a v)"
  shows "ainv ms (note_vote v (aTerm a v) c a)"
proof -
  let ?a = "note_vote v (aTerm a v) c a"
  note i = ainvD [OF assms(1)]
  have same: "aLead ?a = aLead a" "aCand ?a = aCand a" "aTerm ?a = aTerm a" "aLog ?a = aLog a" "aRole ?a = aRole a" "aAcks ?a = aAcks a"
    "aVote ?a = aVote a" "aGrants ?a = insert (v, aTerm a v, c) (aGrants a)" by (simp_all add: note_vote_def)
  have g: "grows a ?a" using same(1) by simp
  have fl: "from_lead ?a l = from_lead a l" for l by (rule from_lead_cong) (simp add: same)
  have re: "retained ?a u t l = retained a u t l" for u t l by (simp add: retained_def kept_def agrees_def same)
  have ma: "mandate ms ?a t C = mandate ms a t C" for t C by (simp add: mandate_def fl re same)
  have vs: "(u, t, d, l) \<in> aVoters ?a \<longleftrightarrow> (u, t, d, l) \<in> aVoters a \<or> aLead a (aTerm a v) = None \<and> (u, t, d, l) = (v, aTerm a v, c, aLog a v)" for u t d l
    by (auto simp: note_vote_def)
  have uniq: "d = c" if "(v, aTerm a v, d) \<in> aGrants a" for d using i(1) that assms(4) unfolding inv_grants_def by blast
  have "inv_grants ms ?a" unfolding inv_grants_def
  proof (intro allI impI)
    fix u t d assume "(u, t, d) \<in> aGrants ?a"
    then consider "(u, t, d) \<in> aGrants a" | "u = v" "t = aTerm a v" "d = c" by (auto simp: same)
    then show "u \<in> set ms \<and> d \<noteq> noVote \<and> t \<le> aTerm ?a u \<and> (t = aTerm ?a u \<longrightarrow> aVote ?a u = d) \<and> (\<forall>c'. (u, t, c') \<in> aGrants ?a \<longrightarrow> c' = d)
        \<and> (aLead ?a t = None \<longrightarrow> (\<exists>l. (u, t, d, l) \<in> aVoters ?a))"
    proof cases
      case 1
      then have "u \<in> set ms \<and> d \<noteq> noVote \<and> t \<le> aTerm a u \<and> (t = aTerm a u \<longrightarrow> aVote a u = d) \<and> (\<forall>c'. (u, t, c') \<in> aGrants a \<longrightarrow> c' = d)
        \<and> (aLead a t = None \<longrightarrow> (\<exists>l. (u, t, d, l) \<in> aVoters a))" using i(1) unfolding inv_grants_def by blast
      moreover have "c = d" if "u = v" "t = aTerm a v" using uniq 1 that by auto
      ultimately show ?thesis by (auto simp: same vs)
    next
      case 2
      then show ?thesis using assms(2-4) uniq by (auto simp: same vs)
    qed
  qed
  moreover have "inv_lead ms ?a" unfolding inv_lead_def same
  proof (intro allI impI)
    fix t w l assume l: "aLead a t = Some (w, l)"
    note L = i(2) [unfolded inv_lead_def, rule_format, OF l]
    have "majority_of ms {u. (u, t, w) \<in> aGrants ?a}"
    proof -
      have sub: "{u. (u, t, w) \<in> aGrants ?a} \<subseteq> set ms" using \<open>inv_grants ms ?a\<close> by (auto simp: inv_grants_def)
      have "card {u. (u, t, w) \<in> aGrants a} \<le> card {u. (u, t, w) \<in> aGrants ?a}"
        by (rule card_mono [OF finite_subset [OF sub]]) (auto simp: same)
      then show ?thesis using L sub by (auto simp: majority_of_def)
    qed
    then show "majority_of ms {u. (u, t, w) \<in> insert (v, aTerm a v, c) (aGrants a)} \<and> t \<le> aTerm a w \<and> (t = aTerm a w \<longrightarrow> aRole a w \<noteq> candidate)
      \<and> from_lead ?a l \<and> (\<forall>e \<in> set l. eTerm e \<le> t)
      \<and> (\<exists>C. aCand a t w = Some C \<and> take (length C) l = C \<and> (\<forall>k < length l. length C \<le> k \<longrightarrow> eTerm (l ! k) = t) \<and> mandate ms ?a t C)"
      using L by (simp add: same fl ma)
  qed
  moreover have "inv_node ?a" using i(3) by (simp add: inv_node_def same fl)
  moreover have "inv_cand ?a" by (rule inv_cand_grows [OF g i(4)]) (simp_all add: same)
  moreover have "inv_voters ?a" unfolding inv_voters_def
  proof (intro allI impI)
    fix u t d l assume "(u, t, d, l) \<in> aVoters ?a"
    then consider "(u, t, d, l) \<in> aVoters a" | "aLead a (aTerm a v) = None" "u = v" "t = aTerm a v" "d = c" "l = aLog a v" by (auto simp: vs)
    then show "(u, t, d) \<in> aGrants ?a \<and> from_lead ?a l \<and> (\<exists>C. aCand ?a t d = Some C \<and> up_to_date C l) \<and> retained ?a u t l"
    proof cases
      case 1
      then show ?thesis using i(5) by (simp add: inv_voters_def same fl re)
    next
      case 2
      then show ?thesis using retained_now [OF assms(1) 2(1)] i(3) assms(5,6) by (simp add: same fl re inv_node_def)
    qed
  qed
  moreover have "inv_acks ?a" by (rule inv_acks_grows [OF g i(2,6)]) (simp_all add: same)
  ultimately show ?thesis by (simp add: ainv_def)
qed

lemma up_to_date_refl [simp]: "up_to_date l l"
  by (simp add: up_to_date_def)

text \<open>A candidate with a majority is the first to lead in its term.\<close>

lemma win_is_first:
  assumes "ainv ms a" "aRole a v = candidate" "majority_of ms {u. (u, aTerm a v, v) \<in> aGrants a}"
  shows "aLead a (aTerm a v) = None"
proof (rule ccontr)
  assume "aLead a (aTerm a v) \<noteq> None"
  then obtain w l where l: "aLead a (aTerm a v) = Some (w, l)" by auto
  note L = ainvD(2) [OF assms(1), unfolded inv_lead_def, rule_format, OF l]
  obtain u where "(u, aTerm a v, v) \<in> aGrants a" "(u, aTerm a v, w) \<in> aGrants a"
    using maj.common [OF assms(3), of "{u. (u, aTerm a v, w) \<in> aGrants a}"] L by auto
  then have "w = v" using ainvD(1) [OF assms(1)] unfolding inv_grants_def by blast
  then show False using L assms(2) by simp
qed

lemma ainv_win:
  assumes "ainv ms a" "aRole a v = candidate" "majority_of ms {u. (u, aTerm a v, v) \<in> aGrants a}"
  shows "ainv ms (a\<lparr>aRole := (aRole a)(v := leader), aLead := (aLead a)(aTerm a v \<mapsto> (v, aLog a v))\<rparr>)"
    (is "ainv ms ?a")
proof -
  note i = ainvD [OF assms(1)] and none = win_is_first [OF assms]
  have ld: "aLead ?a t = (if t = aTerm a v then Some (v, aLog a v) else aLead a t)" for t by simp
  have g: "grows a ?a" using none by (auto simp: grows_def)
  note fl = from_lead_grows [OF g] and re = retained_grows [OF g i(2,6)] and ma = mandate_grows [OF g i(2,6)]
  have N: "from_lead a (aLog a u)" "\<forall>e \<in> set (aLog a u). eTerm e \<le> aTerm a u" "aRole a u = leader \<Longrightarrow> aLead a (aTerm a u) = Some (u, aLog a u)"
    "aRole a u = candidate \<Longrightarrow> aCand a (aTerm a u) u = Some (aLog a u)" for u using i(3) by (auto simp: inv_node_def)
  have "inv_grants ms ?a" unfolding inv_grants_def
  proof (intro allI impI)
    fix u t c assume "(u, t, c) \<in> aGrants ?a"
    then have "u \<in> set ms \<and> c \<noteq> noVote \<and> t \<le> aTerm a u \<and> (t = aTerm a u \<longrightarrow> aVote a u = c) \<and> (\<forall>c'. (u, t, c') \<in> aGrants a \<longrightarrow> c' = c)
        \<and> (aLead a t = None \<longrightarrow> (\<exists>l. (u, t, c, l) \<in> aVoters a))" using i(1) unfolding inv_grants_def by simp
    then show "u \<in> set ms \<and> c \<noteq> noVote \<and> t \<le> aTerm ?a u \<and> (t = aTerm ?a u \<longrightarrow> aVote ?a u = c) \<and> (\<forall>c'. (u, t, c') \<in> aGrants ?a \<longrightarrow> c' = c)
        \<and> (aLead ?a t = None \<longrightarrow> (\<exists>l. (u, t, c, l) \<in> aVoters ?a))" by simp
  qed
  moreover have "inv_lead ms ?a" unfolding inv_lead_def
  proof (intro allI impI)
    fix t w l assume l: "aLead ?a t = Some (w, l)"
    show "majority_of ms {u. (u, t, w) \<in> aGrants ?a} \<and> t \<le> aTerm ?a w \<and> (t = aTerm ?a w \<longrightarrow> aRole ?a w \<noteq> candidate) \<and> from_lead ?a l
      \<and> (\<forall>e \<in> set l. eTerm e \<le> t)
      \<and> (\<exists>C. aCand ?a t w = Some C \<and> take (length C) l = C \<and> (\<forall>k < length l. length C \<le> k \<longrightarrow> eTerm (l ! k) = t) \<and> mandate ms ?a t C)"
    proof (cases "t = aTerm a v")
      case True
      then have w: "w = v" "l = aLog a v" using l by auto
      have "mandate ms a t (aLog a v)" unfolding mandate_def
      proof (rule exI [of _ "{u. (u, aTerm a v, v) \<in> aGrants a}"], intro conjI ballI)
        show "majority_of ms {u. (u, aTerm a v, v) \<in> aGrants a}" by (rule assms(3))
        fix u assume "u \<in> {u. (u, aTerm a v, v) \<in> aGrants a}"
        then have u: "(u, t, v) \<in> aGrants a" using True by simp
        then show "t \<le> aTerm a u" using i(1) by (auto simp: inv_grants_def)
        obtain lu where "(u, t, v, lu) \<in> aVoters a" using u none True i(1) unfolding inv_grants_def by blast
        then have "from_lead a lu \<and> (\<exists>C. aCand a t v = Some C \<and> up_to_date C lu) \<and> retained a u t lu"
          using i(5) unfolding inv_voters_def by blast
        then show "\<exists>l. from_lead a l \<and> up_to_date (aLog a v) l \<and> retained a u t l" using N(4) [OF assms(2)] True by auto
      qed
      then have "mandate ms ?a t (aLog a v)" by (intro ma) simp_all
      then show ?thesis using w True assms(3) N(1,2) N(4) [OF assms(2)] fl by simp
    next
      case False
      then have l': "aLead a t = Some (w, l)" using l by simp
      note L = i(2) [unfolded inv_lead_def, rule_format, OF l']
      obtain C where C: "aCand a t w = Some C" "take (length C) l = C" "\<forall>k < length l. length C \<le> k \<longrightarrow> eTerm (l ! k) = t" "mandate ms a t C"
        using L by blast
      have "mandate ms ?a t C" using C(4) by (intro ma) simp_all
      then show ?thesis using L C fl by auto
    qed
  qed
  moreover have "inv_node ?a" unfolding inv_node_def
  proof
    fix u
    have "aLead ?a (aTerm a u) = Some (u, aLog a u)" if "aRole ?a u = leader"
    proof (cases "u = v")
      case False
      then have "aLead a (aTerm a u) = Some (u, aLog a u)" using that N(3) by simp
      then show ?thesis using none False by (auto simp: ld)
    qed simp
    then show "from_lead ?a (aLog ?a u) \<and> (\<forall>e \<in> set (aLog ?a u). eTerm e \<le> aTerm ?a u)
     \<and> (aRole ?a u = leader \<longrightarrow> aLead ?a (aTerm ?a u) = Some (u, aLog ?a u))
     \<and> (aRole ?a u = candidate \<longrightarrow> aCand ?a (aTerm ?a u) u = Some (aLog ?a u))"
      using fl N by auto
  qed
  moreover have "inv_cand ?a" by (rule inv_cand_grows [OF g i(4)]) simp_all
  moreover have "inv_voters ?a" by (rule inv_voters_grows [OF g i(2,6) _ i(5)]) simp_all
  moreover have "inv_acks ?a" by (rule inv_acks_grows [OF g i(2,6)]) simp_all
  ultimately show ?thesis by (simp add: ainv_def)
qed

lemma ainv_append:
  assumes "ainv ms a" "aRole a v = leader" "eTerm e = aTerm a v"
  shows "ainv ms (a\<lparr>aLog := (aLog a)(v := aLog a v @ [e]), aLead := (aLead a)(aTerm a v \<mapsto> (v, aLog a v @ [e]))\<rparr>)"
    (is "ainv ms ?a")
proof -
  note i = ainvD [OF assms(1)]
  have N: "from_lead a (aLog a u)" "\<forall>e \<in> set (aLog a u). eTerm e \<le> aTerm a u" "aRole a u = leader \<Longrightarrow> aLead a (aTerm a u) = Some (u, aLog a u)"
    "aRole a u = candidate \<Longrightarrow> aCand a (aTerm a u) u = Some (aLog a u)" for u using i(3) by (auto simp: inv_node_def)
  note lv = N(3) [OF assms(2)]
  have ld: "aLead ?a t = (if t = aTerm a v then Some (v, aLog a v @ [e]) else aLead a t)" for t by simp
  have g: "grows a ?a" using lv assms(3) by (auto simp: grows_def)
  note fl = from_lead_grows [OF g] and ma = mandate_grows [OF g i(2,6)]
  have flv: "from_lead ?a (aLog a v @ [e])" unfolding from_lead_def
  proof (intro allI impI)
    fix k assume k: "k < length (aLog a v @ [e])"
    show "\<exists>w L. aLead ?a (eTerm ((aLog a v @ [e]) ! k)) = Some (w, L) \<and> take (Suc k) (aLog a v @ [e]) = take (Suc k) L"
    proof (cases "k < length (aLog a v)")
      case True
      then show ?thesis using fl [OF N(1) [of v]] unfolding from_lead_def by (auto simp: nth_append)
    next
      case False
      then have "k = length (aLog a v)" using k by simp
      then show ?thesis using assms(3) by simp
    qed
  qed
  have "inv_grants ms ?a" using i(1) lv unfolding inv_grants_def by (simp add: ld)
  moreover have "inv_lead ms ?a" unfolding inv_lead_def
  proof (intro allI impI)
    fix t w l assume l: "aLead ?a t = Some (w, l)"
    obtain l0 where l0: "aLead a t = Some (w, l0)" "l = l0 \<or> t = aTerm a v \<and> w = v \<and> l = aLog a v @ [e] \<and> l0 = aLog a v"
      using l lv by (auto simp: ld split: if_splits)
    note L = i(2) [unfolded inv_lead_def, rule_format, OF l0(1)]
    obtain C where C: "aCand a t w = Some C" "take (length C) l0 = C" "\<forall>k < length l0. length C \<le> k \<longrightarrow> eTerm (l0 ! k) = t" "mandate ms a t C"
      using L by blast
    have m: "mandate ms ?a t C" using C(4) by (intro ma) simp_all
    have lc: "length C \<le> length l0" using C(2) by (metis length_take min.cobounded1)
    have C': "take (length C) l = C" "\<forall>k < length l. length C \<le> k \<longrightarrow> eTerm (l ! k) = t"
      using l0(2) C(2,3) lc assms(3) by (auto simp: nth_append less_Suc_eq)
    have "from_lead ?a l" "\<forall>e \<in> set l. eTerm e \<le> t" using l0(2) L fl flv assms(3) by auto
    then show "majority_of ms {u. (u, t, w) \<in> aGrants ?a} \<and> t \<le> aTerm ?a w \<and> (t = aTerm ?a w \<longrightarrow> aRole ?a w \<noteq> candidate) \<and> from_lead ?a l
      \<and> (\<forall>e \<in> set l. eTerm e \<le> t)
      \<and> (\<exists>C. aCand ?a t w = Some C \<and> take (length C) l = C \<and> (\<forall>k < length l. length C \<le> k \<longrightarrow> eTerm (l ! k) = t) \<and> mandate ms ?a t C)"
      using L C(1) C' m by auto
  qed
  moreover have "inv_node ?a" unfolding inv_node_def
  proof
    fix u
    show "from_lead ?a (aLog ?a u) \<and> (\<forall>e \<in> set (aLog ?a u). eTerm e \<le> aTerm ?a u)
     \<and> (aRole ?a u = leader \<longrightarrow> aLead ?a (aTerm ?a u) = Some (u, aLog ?a u))
     \<and> (aRole ?a u = candidate \<longrightarrow> aCand ?a (aTerm ?a u) u = Some (aLog ?a u))"
    proof (cases "u = v")
      case True
      then show ?thesis using flv N(2) assms(2,3) by auto
    next
      case False
      have "aTerm a u \<noteq> aTerm a v" if "aRole a u = leader" using N(3) [OF that] lv False by auto
      then show ?thesis using False N fl by auto
    qed
  qed
  moreover have "inv_cand ?a" by (rule inv_cand_grows [OF g i(4)]) simp_all
  moreover have "inv_voters ?a" by (rule inv_voters_grows [OF g i(2,6) _ i(5)]) simp_all
  moreover have "inv_acks ?a"
  proof (rule inv_acks_grows [OF g i(2,6)])
    fix u t m assume um: "(u, t, m) \<in> aAcks a" and k: "kept a t m (aLog a u) (\<lambda>x. x \<le> aTerm a u)"
    obtain w L where L: "aLead a t = Some (w, L)" "m \<le> length L" using i(6) um unfolding inv_acks_def by metis
    have "agrees a t j (aLog a u @ [e])" if "agrees a t j (aLog a u)" "j \<le> m" for j
    proof -
      have eq: "take j (aLog a u) = take j L" using that(1) L(1) by (auto simp: agrees_def)
      then have "length (take j (aLog a u)) = j" using that(2) L(2) by simp
      then have "j \<le> length (aLog a u)" by simp
      then show ?thesis using eq L(1) by (simp add: agrees_def)
    qed
    then have "kept a t m (aLog a u @ [e]) (\<lambda>x. x \<le> aTerm a u)" using k unfolding kept_def by blast
    then show "kept a t m (aLog ?a u) (\<lambda>x. x \<le> aTerm ?a u)" using k by (cases "u = v") simp_all
  qed simp_all
  ultimately show ?thesis by (simp add: ainv_def)
qed

text \<open>A follower takes over a prefix of its leader's log that it does not hold already.\<close>

lemma ainv_accept:
  assumes "ainv ms a" "aRole a v = follower" "aLead a (aTerm a v) = Some (w, l)" "m \<le> length l" "take m l \<noteq> take m (aLog a v)"
  shows "ainv ms (a\<lparr>aLog := (aLog a)(v := take m l)\<rparr>)" (is "ainv ms ?a")
proof -
  note i = ainvD [OF assms(1)]
  note L = i(2) [unfolded inv_lead_def, rule_format, OF assms(3)]
  have g: "grows a ?a" by simp
  have fl: "from_lead ?a x = from_lead a x" for x by (rule from_lead_cong) simp
  have re: "retained ?a u t x = retained a u t x" for u t x by (simp add: retained_def kept_def agrees_def)
  have ma: "mandate ms ?a t C = mandate ms a t C" for t C by (simp add: mandate_def fl re)
  have "inv_grants ms ?a" using i(1) by (simp add: inv_grants_def)
  moreover have "inv_lead ms ?a" using i(2) by (simp add: inv_lead_def fl ma)
  moreover have "inv_node ?a" unfolding inv_node_def
  proof
    fix u
    have "from_lead a (take m l)" "\<forall>e \<in> set (take m l). eTerm e \<le> aTerm a v" using L from_lead_take by (auto dest: in_set_takeD)
    then show "from_lead ?a (aLog ?a u) \<and> (\<forall>e \<in> set (aLog ?a u). eTerm e \<le> aTerm ?a u)
     \<and> (aRole ?a u = leader \<longrightarrow> aLead ?a (aTerm ?a u) = Some (u, aLog ?a u))
     \<and> (aRole ?a u = candidate \<longrightarrow> aCand ?a (aTerm ?a u) u = Some (aLog ?a u))"
      using i(3) assms(2) by (simp add: inv_node_def fl)
  qed
  moreover have "inv_cand ?a" using i(4) by (simp add: inv_cand_def fl)
  moreover have "inv_voters ?a" using i(5) by (simp add: inv_voters_def fl re)
  moreover have "inv_acks ?a"
  proof (rule inv_acks_grows [OF g i(2,6)])
    fix u t k assume uk: "(u, t, k) \<in> aAcks a" and kp: "kept a t k (aLog a u) (\<lambda>x. x \<le> aTerm a u)"
    show "kept a t k (aLog ?a u) (\<lambda>x. x \<le> aTerm ?a u)"
    proof (cases "u = v")
      case True
      obtain w' T where T: "aLead a t = Some (w', T)" "k \<le> length T" and tv: "t \<le> aTerm a v"
        using i(6) uk True unfolding inv_acks_def by metis
      have "agrees a t j (take m l) \<or> (t < aTerm a v \<and> \<not> agrees a t j l)" if j: "j \<le> k" and ag: "agrees a t j (aLog a v)" for j
      proof -
        have eq: "take j (aLog a v) = take j T" using ag T(1) by (auto simp: agrees_def)
        show ?thesis
        proof (cases "take j l = take j T")
          case tl: True
          have "j \<le> m"
          proof (rule ccontr)
            assume "\<not> j \<le> m"
            then have "take m l = take m (take j l)" "take m (aLog a v) = take m (take j (aLog a v))" by (simp_all add: min_def)
            then show False using eq tl assms(5) by simp
          qed
          then show ?thesis using tl T(1) by (simp add: agrees_def min_def)
        next
          case False
          then have "t \<noteq> aTerm a v" using T(1) assms(3) by auto
          then have "t < aTerm a v" using tv by simp
          then show ?thesis using False T(1) by (simp add: agrees_def)
        qed
      qed
      then have "kept a t k (take m l) (\<lambda>x. x \<le> aTerm a v)"
        using kp assms(3) True unfolding kept_def by (metis order_refl)
      then show ?thesis using True by simp
    next
      case False
      then show ?thesis using kp by simp
    qed
  qed simp_all
  ultimately show ?thesis by (simp add: ainv_def)
qed

text \<open>Confirming a prefix; nobody can confirm for a term before the one it has voted in.\<close>

lemma ainv_ack:
  assumes "ainv ms a" "aLead a (aTerm a v) = Some (w, l)" "m \<le> length l" "take m (aLog a v) = take m l"
  shows "ainv ms (a\<lparr>aAcks := insert (v, aTerm a v, m) (aAcks a)\<rparr>)" (is "ainv ms ?a")
proof -
  note i = ainvD [OF assms(1)]
  have fl: "from_lead ?a x = from_lead a x" for x by (rule from_lead_cong) simp
  have kc: "kept ?a t k x P = kept a t k x P" for t k x P by (rule kept_cong) simp
  have re: "retained ?a u t x = retained a u t x" if "t \<le> aTerm a u" for u t x
    using that by (auto simp: retained_def kc)
  have "(t \<le> aTerm a u \<and> (\<exists>x. from_lead a x \<and> up_to_date C x \<and> retained ?a u t x))
      = (t \<le> aTerm a u \<and> (\<exists>x. from_lead a x \<and> up_to_date C x \<and> retained a u t x))" for t C u
    using re by auto
  then have "mandate ms ?a t C = mandate ms a t C" for t C by (simp add: mandate_def fl)
  then have "inv_lead ms ?a" using i(2) by (simp add: inv_lead_def fl)
  moreover have "inv_grants ms ?a" using i(1) by (simp add: inv_grants_def)
  moreover have "inv_node ?a" using i(3) by (simp add: inv_node_def fl)
  moreover have "inv_cand ?a" using i(4) by (simp add: inv_cand_def fl)
  moreover have "inv_voters ?a" unfolding inv_voters_def
  proof (intro allI impI)
    fix u t c x assume "(u, t, c, x) \<in> aVoters ?a"
    then have V: "(u, t, c) \<in> aGrants a" "from_lead a x" "\<exists>C. aCand a t c = Some C \<and> up_to_date C x" "retained a u t x"
      using i(5) by (auto simp: inv_voters_def)
    have "t \<le> aTerm a u" using i(1) V(1) by (auto simp: inv_grants_def)
    then show "(u, t, c) \<in> aGrants ?a \<and> from_lead ?a x \<and> (\<exists>C. aCand ?a t c = Some C \<and> up_to_date C x) \<and> retained ?a u t x"
      using V re by (simp add: fl)
  qed
  moreover have "inv_acks ?a" unfolding inv_acks_def
  proof (intro allI impI)
    fix u t k assume "(u, t, k) \<in> aAcks ?a"
    then consider "(u, t, k) \<in> aAcks a" | "u = v" "t = aTerm a v" "k = m" by auto
    then show "t \<le> aTerm ?a u \<and> (\<exists>w L. aLead ?a t = Some (w, L) \<and> k \<le> length L) \<and> kept ?a t k (aLog ?a u) (\<lambda>x. x \<le> aTerm ?a u)"
    proof cases
      case 1
      then show ?thesis using i(6) by (simp add: inv_acks_def kc)
    next
      case 2
      have "agrees a t j (aLog a v)" if "j \<le> m" for j
      proof -
        have "take j (aLog a v) = take j (take m (aLog a v))" "take j l = take j (take m l)" using that by (simp_all add: min_def)
        then show ?thesis using assms(2,4) 2 by (simp add: agrees_def)
      qed
      then show ?thesis using 2 assms(2,3) by (simp add: kc) (simp add: kept_def)
    qed
  qed
  ultimately show ?thesis by (simp add: ainv_def)
qed

theorem astep_ainv:
  assumes "astep ms a a'" "ainv ms a"
  shows "ainv ms a'"
  using assms(1)
proof cases
  case (new_term v t)
  show ?thesis unfolding new_term(1) by (rule ainv_demote [OF assms(2)]) (use new_term in auto)
next
  case (campaign v t)
  note i = ainvD [OF assms(2)]
  let ?a1 = "a\<lparr>aTerm := (aTerm a)(v := t), aVote := (aVote a)(v := v), aRole := (aRole a)(v := follower)\<rparr>"
  have 1: "ainv ms ?a1" by (rule ainv_demote [OF assms(2)]) (use campaign in auto)
  have nc: "aCand a t v = None"
  proof (rule ccontr)
    assume "aCand a t v \<noteq> None"
    then have "t \<le> aTerm a v" using i(4) unfolding inv_cand_def by blast
    then show False using campaign(4) by simp
  qed
  have lo: "\<forall>e \<in> set (aLog a v). eTerm e < t" using i(3) campaign(4) by (auto simp: inv_node_def intro: le_less_trans)
  have nl: "aLead a t \<noteq> Some (v, l)" for l
  proof
    assume "aLead a t = Some (v, l)"
    then have "t \<le> aTerm a v" using i(2) unfolding inv_lead_def by blast
    then show False using campaign(4) by simp
  qed
  let ?a2 = "?a1\<lparr>aCand := (aCand ?a1)(aTerm ?a1 v := (aCand ?a1 (aTerm ?a1 v))(v \<mapsto> aLog ?a1 v))\<rparr>"
  have 2: "ainv ms ?a2" by (rule ainv_cand [OF 1]) (use nc lo in simp_all)
  let ?a3 = "note_vote v (aTerm ?a2 v) v ?a2"
  have 3: "ainv ms ?a3" by (rule ainv_vote [OF 2 campaign(2,3), where C = "aLog a v"]) simp_all
  have "ainv ms (?a3\<lparr>aRole := (aRole ?a3)(v := candidate)\<rparr>)"
    by (rule ainv_candidate [OF 3]) (use nl in \<open>simp_all add: note_vote_def\<close>)
  moreover have "a' = ?a3\<lparr>aRole := (aRole ?a3)(v := candidate)\<rparr>" by (simp add: campaign(1) note_vote_def)
  ultimately show ?thesis by simp
next
  case (grant v c l)
  let ?a1 = "a\<lparr>aVote := (aVote a)(v := c)\<rparr>"
  have 1: "ainv ms ?a1" by (rule ainv_demote [OF assms(2)]) (use grant in auto)
  have "ainv ms (note_vote v (aTerm ?a1 v) c ?a1)" by (rule ainv_vote [OF 1 grant(2,3)]) (use grant in simp_all)
  then show ?thesis by (simp add: grant(1))
next
  case (win v)
  then show ?thesis using ainv_win [OF assms(2)] by simp
next
  case (append v e)
  then show ?thesis using ainv_append [OF assms(2)] by simp
next
  case (promise v c)
  show ?thesis unfolding promise(1) by (rule ainv_demote [OF assms(2)]) (use promise in auto)
next
  case (resign v)
  show ?thesis unfolding resign(1) by (rule ainv_demote [OF assms(2)]) auto
next
  case (accept v w l m)
  then show ?thesis using ainv_accept [OF assms(2)] by simp
next
  case (ack v w l m)
  then show ?thesis using ainv_ack [OF assms(2)] by simp
qed

subsection \<open>Safety\<close>

text \<open>Terms do not decrease along a log.\<close>

lemma from_lead_last:
  assumes "from_lead a l" "l \<noteq> []"
  shows "\<exists>w L. aLead a (last_term l) = Some (w, L) \<and> l = take (length l) L"
proof -
  have "\<exists>w L. aLead a (eTerm (l ! (length l - 1))) = Some (w, L) \<and> take (Suc (length l - 1)) l = take (Suc (length l - 1)) L"
    using assms(1) [unfolded from_lead_def, rule_format, of "length l - 1"] assms(2) by simp
  then show ?thesis using assms(2) by (simp add: last_term_def last_conv_nth)
qed

lemma terms_le_last:
  assumes "inv_lead ms a" "from_lead a l" "k < length l"
  shows "eTerm (l ! k) \<le> last_term l"
proof -
  obtain w L where L: "aLead a (last_term l) = Some (w, L)" "l = take (length l) L" using from_lead_last [OF assms(2)] assms(3) by fastforce
  have "length l \<le> length L" using L(2) by (metis length_take min.cobounded1)
  then have "l ! k = L ! k" using L(2) assms(3) by (metis nth_take)
  moreover have "L ! k \<in> set L" using assms(3) \<open>length l \<le> length L\<close> by simp
  moreover have "\<forall>e \<in> set L. eTerm e \<le> last_term l" using assms(1) L(1) unfolding inv_lead_def by blast
  ultimately show ?thesis by simp
qed

text \<open>Leader completeness: what is committed is in the log of every later leader.\<close>

theorem leader_completeness:
  assumes "ainv ms a" "committed_to ms a t k" "aLead a t = Some (w, L)" "t < t'" "aLead a t' = Some (w', L')"
  shows "take k L' = take k L"
  using assms(4,5)
proof (induction t' arbitrary: w' L' rule: less_induct)
  case (less t')
  note i = ainvD [OF assms(1)]
  obtain Q where Q: "majority_of ms Q" "\<forall>v \<in> Q. \<exists>m \<ge> k. (v, t, m) \<in> aAcks a"
    and kl: "0 < k" "k \<le> length L" "eTerm (L ! (k - 1)) = t"
    using assms(2,3) by (auto simp: committed_to_def)
  note lead = i(2) [unfolded inv_lead_def, rule_format]
  obtain C where C: "aCand a t' w' = Some C" "take (length C) L' = C" "mandate ms a t' C" using lead [OF less.prems(2)] by blast
  obtain R where R: "majority_of ms R" "\<forall>v \<in> R. t' \<le> aTerm a v \<and> (\<exists>l. from_lead a l \<and> up_to_date C l \<and> retained a v t' l)"
    using C(3) unfolding mandate_def by blast
  obtain v where v: "v \<in> Q" "v \<in> R" using maj.common [OF Q(1) R(1)] by blast
  obtain m where m: "k \<le> m" "(v, t, m) \<in> aAcks a" using Q(2) v(1) by blast
  obtain l where l: "from_lead a l" "up_to_date C l" "retained a v t' l" using R(2) v(2) by blast
  have "kept a t m l (\<lambda>x. x < t')" using l(3) m(2) less.prems(1) by (simp add: retained_def)
  then have "agrees a t k l \<or> (\<exists>t3 w3 L3. t < t3 \<and> t3 < t' \<and> aLead a t3 = Some (w3, L3) \<and> \<not> agrees a t k L3)"
    using m(1) unfolding kept_def by blast
  moreover have "agrees a t k L3" if "t < t3" "t3 < t'" "aLead a t3 = Some (w3, L3)" for t3 w3 L3
    using less.IH [OF that(2,1,3)] assms(3) by (auto simp: agrees_def)
  ultimately have "agrees a t k l" by blast
  then have lk: "take k l = take k L" using assms(3) by (auto simp: agrees_def)
  then have "length (take k l) = k" using kl(2) by simp
  then have kl': "k \<le> length l" by simp
  have "l ! (k - 1) = take k l ! (k - 1)" using kl(1) by simp
  then have "eTerm (l ! (k - 1)) = t" using lk kl by simp
  then have tl: "t \<le> last_term l" using terms_le_last [OF i(2) l(1), of "k - 1"] kl(1) kl' by simp
  have fC: "from_lead a C" "\<forall>e \<in> set C. eTerm e < t'" using i(4) C(1) unfolding inv_cand_def by blast+
  have neC: "C \<noteq> []"
  proof
    assume "C = []"
    then have "last_term l \<le> 0" "length l \<le> 0 \<or> last_term l < 0" using l(2) by (auto simp: up_to_date_def last_term_def)
    then show False using kl' kl(1) by simp
  qed
  obtain wC LC where LC: "aLead a (last_term C) = Some (wC, LC)" "C = take (length C) LC" using from_lead_last [OF fC(1) neC] by blast
  have lC: "length C \<le> length LC" using LC(2) by (metis length_take min.cobounded1)
  have "take k C = take k L \<and> k \<le> length C"
  proof (cases "last_term C = last_term l")
    case True
    have "l \<noteq> []" using kl' kl(1) by auto
    then have "l = take (length l) LC" using from_lead_last [OF l(1)] LC(1) True by auto
    moreover have "length l \<le> length C" using l(2) True by (simp add: up_to_date_def)
    ultimately have "take (length l) C = l" using LC(2) by (metis min.absorb1 take_take)
    then have "take k C = take k l" using kl' by (metis min.absorb1 take_take)
    then show ?thesis using lk \<open>length l \<le> length C\<close> kl' by simp
  next
    case False
    then have "t < last_term C" using l(2) tl by (auto simp: up_to_date_def)
    moreover have ltC: "last_term C < t'" using fC(2) neC by (simp add: last_term_def)
    ultimately have eq: "take k LC = take k L" using less.IH [OF _ _ LC(1)] by blast
    have "k \<le> length C"
    proof (rule ccontr)
      assume "\<not> k \<le> length C"
      then have c: "length C - 1 < k" "length C - 1 < length L" using kl(2) neC by auto
      have "C ! (length C - 1) = LC ! (length C - 1)" using LC(2) neC by (metis One_nat_def diff_less length_greater_0_conv nth_take zero_less_one)
      also have "\<dots> = take k LC ! (length C - 1)" using c(1) by simp
      also have "\<dots> = L ! (length C - 1)" using eq c(1) by simp
      finally have "last_term C = eTerm (L ! (length C - 1))" using neC by (simp add: last_term_def last_conv_nth)
      also have "\<dots> \<le> t" using lead [OF assms(3)] c(2) by simp
      finally show False using \<open>t < last_term C\<close> by simp
    qed
    then have "take k C = take k LC" using LC(2) by (metis min.absorb1 take_take)
    then show ?thesis using eq \<open>k \<le> length C\<close> by simp
  qed
  moreover have "take k C = take k L'" if "k \<le> length C" using C(2) that by (metis min.absorb1 take_take)
  ultimately show ?case by simp
qed

text \<open>State machine safety: committed prefixes agree.\<close>

theorem committed_agree:
  assumes "ainv ms a" "committed_to ms a t k" "aLead a t = Some (w, L)" "committed_to ms a t' k'" "aLead a t' = Some (w', L')"
    "n < k" "n < k'"
  shows "L ! n = L' ! n"
proof -
  have k: "k \<le> length L" "k' \<le> length L'" using assms(2-5) by (auto simp: committed_to_def)
  have 1: "take k L' = take k L" if "t < t'" by (rule leader_completeness [OF assms(1-3) that assms(5)])
  have 2: "take k' L = take k' L'" if "t' < t" by (rule leader_completeness [OF assms(1,4,5) that assms(3)])
  consider "t < t'" | "t' < t" | "t = t'" by (meson linorder_less_linear)
  then show ?thesis
  proof cases
    case 1
    then show ?thesis using \<open>t < t' \<Longrightarrow> _\<close> assms(6) by (metis nth_take)
  next
    case 2
    then show ?thesis using \<open>t' < t \<Longrightarrow> _\<close> assms(7) by (metis nth_take)
  next
    case 3
    then show ?thesis using assms(3,5) by simp
  qed
qed

text \<open>What is committed stays committed.\<close>

lemma committed_grows:
  assumes "committed_to ms a t k" "grows a a'" "aAcks a \<subseteq> aAcks a'"
  shows "committed_to ms a' t k"
proof -
  obtain w L Q where c: "aLead a t = Some (w, L)" "0 < k" "k \<le> length L" "eTerm (L ! (k - 1)) = t" "majority_of ms Q"
    "\<forall>v \<in> Q. \<exists>m \<ge> k. (v, t, m) \<in> aAcks a" using assms(1) by (auto simp: committed_to_def)
  obtain s where s: "aLead a' t = Some (w, L @ s)" using growsE [OF assms(2) c(1)] by blast
  have "k - 1 < length L" using c(2,3) by linarith
  then have "eTerm ((L @ s) ! (k - 1)) = t" using c(4) by (simp add: nth_append)
  then show ?thesis unfolding committed_to_def using s c assms(3)
    by (intro exI [of _ w] exI [of _ "L @ s"] conjI exI [of _ Q]) auto
qed

lemma astep_grows:
  assumes "astep ms a a'" "ainv ms a"
  shows "grows a a'" "aAcks a \<subseteq> aAcks a'"
proof -
  show "grows a a'" using assms(1)
  proof cases
    case (win v)
    then show ?thesis using win_is_first [OF assms(2)] by (auto simp: grows_def)
  next
    case (append v e)
    then have "aLead a (aTerm a v) = Some (v, aLog a v)" using ainvD(3) [OF assms(2)] by (simp add: inv_node_def)
    then show ?thesis using append by (auto simp: grows_def)
  qed (simp_all add: note_vote_def)
  show "aAcks a \<subseteq> aAcks a'" using assms(1) by cases (auto simp: note_vote_def)
qed

end
