(* ===== verification/RaftSim.thy ===== *)
theory RaftSim
  imports RaftSpec RaftApply
begin

text \<open>
  How the nodes of \<^verbatim>\<open>internal/raft\<close> refine the abstract protocol: the meaning of a message, of an
  answer and of a node's state in terms of the abstract state, and what each of them keeps when
  the protocol moves on.
\<close>

subsection \<open>Moves of one node\<close>

definition touches :: "u64 \<Rightarrow> abs \<Rightarrow> abs \<Rightarrow> bool" where
  "touches i a a' \<longleftrightarrow> (\<forall>j. j \<noteq> i \<longrightarrow>
     aTerm a' j = aTerm a j \<and> aVote a' j = aVote a j \<and> aRole a' j = aRole a j \<and> aLog a' j = aLog a j)"

text \<open>The entries of leaders' logs are numbered from one and fit the records of the log file.\<close>

definition wf_log :: "Entry list \<Rightarrow> bool" where
  "wf_log l \<longleftrightarrow> contig 0 l \<and> (\<forall>e \<in> set l. entry_ok e)"

definition wf_lead :: "abs \<Rightarrow> bool" where
  "wf_lead a \<longleftrightarrow> (\<forall>t w L. aLead a t = Some (w, L) \<longrightarrow> wf_log L)"

definition good_abs :: "u64 list \<Rightarrow> abs \<Rightarrow> bool" where
  "good_abs ms a \<longleftrightarrow> ainv ms a \<and> wf_lead a"

definition move :: "u64 list \<Rightarrow> u64 \<Rightarrow> abs \<Rightarrow> abs \<Rightarrow> bool" where
  "move ms i a a' \<longleftrightarrow> astep ms a a' \<and> touches i a a' \<and> wf_lead a'"

abbreviation moves :: "u64 list \<Rightarrow> u64 \<Rightarrow> abs \<Rightarrow> abs \<Rightarrow> bool" where
  "moves ms i \<equiv> (move ms i)\<^sup>*\<^sup>*"

definition later :: "abs \<Rightarrow> abs \<Rightarrow> bool" where
  "later a a' \<longleftrightarrow> grows a a' \<and> aAcks a \<subseteq> aAcks a' \<and> aGrants a \<subseteq> aGrants a'
     \<and> (\<forall>t c C. aCand a t c = Some C \<longrightarrow> aCand a' t c = Some C)"

lemma grows_trans:
  assumes "grows a b" "grows b c" shows "grows a c"
  unfolding grows_def
proof (intro allI impI)
  fix t w L assume "aLead a t = Some (w, L)"
  from growsE [OF assms(1) this] obtain s where s: "aLead b t = Some (w, L @ s)" "\<forall>e \<in> set s. eTerm e = t" .
  from growsE [OF assms(2) s(1)] obtain s' where "aLead c t = Some (w, (L @ s) @ s')" "\<forall>e \<in> set s'. eTerm e = t" .
  then show "\<exists>s. aLead c t = Some (w, L @ s) \<and> (\<forall>e \<in> set s. eTerm e = t)" using s(2) by (intro exI [of _ "s @ s'"]) auto
qed

lemma later_refl [simp]: "later a a"
  by (simp add: later_def)

lemma later_trans: "later a b \<Longrightarrow> later b c \<Longrightarrow> later a c"
  unfolding later_def by (auto intro: grows_trans)

lemma astep_later:
  assumes "astep ms a a'" "ainv ms a" shows "later a a'"
proof -
  have "aGrants a \<subseteq> aGrants a'" using assms(1) by cases (auto simp: note_vote_def)
  moreover have "\<forall>t c C. aCand a t c = Some C \<longrightarrow> aCand a' t c = Some C" using assms(1)
  proof cases
    case (campaign v t)
    have "aCand a t v = None"
    proof (rule ccontr)
      assume "aCand a t v \<noteq> None"
      then have "t \<le> aTerm a v" using ainvD(4) [OF assms(2)] unfolding inv_cand_def by blast
      then show False using campaign(4) by simp
    qed
    then show ?thesis using campaign(1) by (auto simp: note_vote_def)
  qed (simp_all add: note_vote_def)
  ultimately show ?thesis using astep_grows [OF assms] by (simp add: later_def)
qed

lemma touches_trans: "touches i a b \<Longrightarrow> touches i b c \<Longrightarrow> touches i a c"
  by (simp add: touches_def)

lemma moves_facts:
  assumes "moves ms i a a'" "good_abs ms a"
  shows "good_abs ms a' \<and> later a a' \<and> touches i a a'"
  using assms(1)
proof induction
  case base
  then show ?case using assms(2) by (simp add: touches_def)
next
  case (step b c)
  then have b: "good_abs ms b" "later a b" "touches i a b" and st: "astep ms b c" "touches i b c" "wf_lead c" by (auto simp: move_def)
  have "ainv ms b" using b(1) by (simp add: good_abs_def)
  then show ?case
    using astep_ainv [OF st(1)] astep_later [OF st(1)] later_trans [OF b(2)] touches_trans [OF b(3) st(2)] st(3) by (simp add: good_abs_def)
qed

lemma moves_one: "astep ms a a' \<Longrightarrow> touches i a a' \<Longrightarrow> wf_lead a' \<Longrightarrow> moves ms i a a'"
  by (simp add: move_def r_into_rtranclp)

lemma from_lead_wf:
  assumes "from_lead a l" "wf_lead a" shows "wf_log l"
proof -
  have "unat (eIndex (l ! k)) = k + 1 \<and> entry_ok (l ! k)" if k: "k < length l" for k
  proof -
    obtain w L where L: "aLead a (eTerm (l ! k)) = Some (w, L)" "take (Suc k) l = take (Suc k) L"
      using assms(1) k by (auto simp: from_lead_def)
    have "length (take (Suc k) L) = Suc k" using L(2) k by (metis Suc_leI length_take min.absorb2)
    then have kL: "k < length L" by simp
    have "l ! k = L ! k" using L(2) by (metis lessI nth_take)
    moreover have "wf_log L" using assms(2) L(1) unfolding wf_lead_def by blast
    ultimately show ?thesis using kL by (simp add: wf_log_def contig_def)
  qed
  then show ?thesis by (auto simp: wf_log_def contig_def in_set_conv_nth)
qed

lemma log_wf: "good_abs ms a \<Longrightarrow> wf_log (aLog a v)"
  using from_lead_wf by (auto simp: good_abs_def ainv_def inv_node_def)

lemma lead_wf: "good_abs ms a \<Longrightarrow> aLead a t = Some (w, L) \<Longrightarrow> wf_log L"
  by (auto simp: good_abs_def wf_lead_def)

subsection \<open>What is known to be committed\<close>

definition commit_ok :: "u64 list \<Rightarrow> abs \<Rightarrow> u64 \<Rightarrow> nat \<Rightarrow> bool" where
  "commit_ok ms a t c \<longleftrightarrow> c = 0 \<or> (\<exists>t' k. t' \<le> t \<and> committed_to ms a t' k \<and> c \<le> k)"

definition centry :: "u64 list \<Rightarrow> abs \<Rightarrow> nat \<Rightarrow> Entry \<Rightarrow> bool" where
  "centry ms a n e \<longleftrightarrow> (\<exists>t k w L. committed_to ms a t k \<and> aLead a t = Some (w, L) \<and> n < k \<and> L ! n = e)"

lemma committed_later: "committed_to ms a t k \<Longrightarrow> later a a' \<Longrightarrow> committed_to ms a' t k"
  by (rule committed_grows) (auto simp: later_def)

lemma commit_ok_later: "commit_ok ms a t c \<Longrightarrow> later a a' \<Longrightarrow> t \<le> t' \<Longrightarrow> commit_ok ms a' t' c"
  unfolding commit_ok_def by (blast intro: committed_later order_trans)

lemma centry_later: "centry ms a n e \<Longrightarrow> later a a' \<Longrightarrow> centry ms a' n e"
proof -
  assume "centry ms a n e" and l: "later a a'"
  then obtain t k w L where c: "committed_to ms a t k" "aLead a t = Some (w, L)" "n < k" "L ! n = e" unfolding centry_def by blast
  have g: "grows a a'" using l by (simp add: later_def)
  obtain s where s: "aLead a' t = Some (w, L @ s)" by (rule growsE [OF g c(2)])
  have "n < length L" using c(1-3) by (auto simp: committed_to_def)
  then have "(L @ s) ! n = e" using c(4) by (simp add: nth_append)
  then show ?thesis using committed_later [OF c(1) l] s c(3) unfolding centry_def by blast
qed

lemma centry_unique: "good_abs ms a \<Longrightarrow> centry ms a n e \<Longrightarrow> centry ms a n e' \<Longrightarrow> e = e'"
proof -
  assume a: "good_abs ms a" "centry ms a n e" "centry ms a n e'"
  obtain t k w L where 1: "committed_to ms a t k" "aLead a t = Some (w, L)" "n < k" "L ! n = e" using a(2) unfolding centry_def by blast
  obtain t' k' w' L' where 2: "committed_to ms a t' k'" "aLead a t' = Some (w', L')" "n < k'" "L' ! n = e'" using a(3) unfolding centry_def by blast
  have "ainv ms a" using a(1) by (simp add: good_abs_def)
  from committed_agree [OF this 1(1,2) 2(1,2) 1(3) 2(3)] show ?thesis using 1(4) 2(4) by simp
qed

text \<open>What is committed up to term \<open>t\<close> stands in the log of the leader of term \<open>t\<close>.\<close>

lemma commit_in_lead:
  assumes "good_abs ms a" "commit_ok ms a t c" "aLead a t = Some (w, L)" "n < c" "c \<le> length L"
  shows "centry ms a n (L ! n)"
proof -
  obtain t' k where k: "t' \<le> t" "committed_to ms a t' k" "c \<le> k" using assms(2,4) by (auto simp: commit_ok_def)
  then obtain w' L' where L': "aLead a t' = Some (w', L')" "k \<le> length L'" by (auto simp: committed_to_def)
  have "take k L = take k L'"
  proof (cases "t' = t")
    case True
    then show ?thesis using L'(1) assms(3) by simp
  next
    case False
    then have "t' < t" using k(1) by simp
    then show ?thesis using leader_completeness [OF _ k(2) L'(1) _ assms(3)] assms(1) by (simp add: good_abs_def)
  qed
  then have "L ! n = L' ! n" using assms(4) k(3) by (metis less_le_trans nth_take)
  then show ?thesis unfolding centry_def using k(2,3) L'(1) assms(4) by (metis less_le_trans)
qed

subsection \<open>Reading an uncompacted log\<close>

text \<open>As long as nothing was compacted the log starts at index one, and the index arithmetic of
  the code reads the entry it means to.\<close>

definition plain :: "core \<Rightarrow> bool" where
  "plain c \<longleftrightarrow> snapIndex c = 0 \<and> snapTerm c = 0 \<and> contig 0 (entries c)"

lemma contig_length: "contig 0 es \<Longrightarrow> length es < 2 ^ 64"
proof (cases "es = []")
  case False
  assume "contig 0 es"
  from contig_last [OF this False] show ?thesis using unat_u64_less [of "eIndex (last es)"] by simp
qed simp

lemma lastLogIndex_plain: "plain c \<Longrightarrow> unat (lastLogIndex c) = length (entries c)"
  using contig_last [of 0 "entries c"] by (auto simp: plain_def lastLogIndex_def)

lemma lastLogTerm_plain: "plain c \<Longrightarrow> lastLogTerm c = last_term (entries c)"
  by (auto simp: plain_def lastLogTerm_def last_term_def)

lemma termAt_nth:
  assumes "plain c"
  shows "termAt c i = (if i \<noteq> 0 \<and> unat i \<le> length (entries c) then eTerm (entries c ! (unat i - 1)) else 0)"
proof (cases "i = 0 \<or> entries c = []")
  case True
  then show ?thesis using assms by (auto simp: termAt_def plain_def unat_eq_zero)
next
  case False
  have h: "unat (eIndex (hd (entries c))) = 1" using contig_hd [of 0 "entries c"] False assms by (auto simp: plain_def)
  have i: "1 \<le> unat i" using False by (metis One_nat_def Suc_leI unat_gt_0)
  have "eIndex (hd (entries c)) \<le> i" using h i by (simp add: word_le_nat_alt)
  then have "unat (i - eIndex (hd (entries c))) = unat i - 1" using h by (simp add: unat_sub)
  then show ?thesis
    using False assms lastLogIndex_plain [OF assms] \<open>eIndex (hd (entries c)) \<le> i\<close>
    by (auto simp: termAt_def plain_def Let_def word_less_nat_alt word_le_nat_alt)
qed

lemma entries_between_plain:
  assumes "contig 0 es" "0 < lo" "lo \<le> hi" "unat hi \<le> length es"
  shows "entries_between es lo hi = Some (take (unat hi - unat lo + 1) (drop (unat lo - 1) es))"
proof -
  have lo: "1 \<le> unat lo" "unat lo \<le> unat hi" using assms(2,3) by (simp_all add: word_less_nat_alt word_le_nat_alt)
  then have "es \<noteq> []" using assms(4) by auto
  then have h: "unat (eIndex (hd es)) = 1" using contig_hd [OF assms(1)] by simp
  have "eIndex (hd es) \<le> lo" using h lo by (simp add: word_le_nat_alt)
  then have p: "unat (lo - eIndex (hd es)) = unat lo - 1" using h by (simp add: unat_sub)
  have n: "unat (hi - lo) = unat hi - unat lo" using assms(3) by (simp add: unat_sub)
  have "\<not> length es < (unat lo - 1) + (unat hi - unat lo + 1)" using lo assms(4) by linarith
  then show ?thesis by (simp add: entries_between_def p n Let_def)
qed

lemma batch_prefix: "\<exists>k \<le> length es. batch p es = map toProto (take k es)"
proof (induction es arbitrary: p)
  case (Cons e es)
  obtain k where "k \<le> length es" "batch (p + length (eCommand e)) es = map toProto (take k es)" using Cons.IH by blast
  then show ?case
    by (intro exI [of _ "if maxAppendBytes \<le> p + length (eCommand e) then 1 else Suc k"]) auto
qed simp

subsection \<open>What messages mean\<close>

definition ae_ok :: "u64 list \<Rightarrow> abs \<Rightarrow> u64 \<Rightarrow> AppendEntriesRequest \<Rightarrow> bool" where
  "ae_ok ms a s q \<longleftrightarrow> (\<exists>L. aLead a (aeTerm q) = Some (s, L)
     \<and> unat (aePrevLogIndex q) + length (aeEntries q) \<le> length L
     \<and> map entryFromProto (aeEntries q) = take (length (aeEntries q)) (drop (unat (aePrevLogIndex q)) L)
     \<and> (aePrevLogIndex q \<noteq> 0 \<longrightarrow> aePrevLogTerm q = eTerm (L ! (unat (aePrevLogIndex q) - 1)))
     \<and> commit_ok ms a (aeTerm q) (unat (aeLeaderCommit q)))"

definition rv_ok :: "abs \<Rightarrow> u64 \<Rightarrow> RequestVoteRequest \<Rightarrow> bool" where
  "rv_ok a s q \<longleftrightarrow> rvPreVote q \<or> rvCandidateId q = s \<and> (\<exists>C. aCand a (rvTerm q) s = Some C
     \<and> unat (rvLastLogIndex q) = length C \<and> rvLastLogTerm q = last_term C)"

definition msg_ok :: "u64 list \<Rightarrow> abs \<Rightarrow> u64 \<Rightarrow> outbound \<Rightarrow> bool" where
  "msg_ok ms a s ob \<longleftrightarrow> oTo ob \<in> set ms \<and> oTo ob \<noteq> s \<and> (case oMsg ob of RequestVote q \<Rightarrow> rv_ok a s q | AppendEntries q \<Rightarrow> ae_ok ms a s q
     | InstallSnapshot q \<Rightarrow> False | TimeoutNow q \<Rightarrow> True)"

lemma ae_ok_later: "ae_ok ms a s q \<Longrightarrow> later a a' \<Longrightarrow> ae_ok ms a' s q"
proof -
  assume "ae_ok ms a s q" and l: "later a a'"
  then obtain L where L: "aLead a (aeTerm q) = Some (s, L)" "unat (aePrevLogIndex q) + length (aeEntries q) \<le> length L"
    "map entryFromProto (aeEntries q) = take (length (aeEntries q)) (drop (unat (aePrevLogIndex q)) L)"
    "aePrevLogIndex q \<noteq> 0 \<longrightarrow> aePrevLogTerm q = eTerm (L ! (unat (aePrevLogIndex q) - 1))"
    "commit_ok ms a (aeTerm q) (unat (aeLeaderCommit q))" unfolding ae_ok_def by blast
  have g: "grows a a'" using l by (simp add: later_def)
  obtain x where x: "aLead a' (aeTerm q) = Some (s, L @ x)" by (rule growsE [OF g L(1)])
  have "aePrevLogIndex q \<noteq> 0 \<Longrightarrow> unat (aePrevLogIndex q) - 1 < length L"
    using L(2) by (metis One_nat_def Suc_pred add_leD1 less_eq_Suc_le unat_gt_0)
  then have "aePrevLogIndex q \<noteq> 0 \<longrightarrow> aePrevLogTerm q = eTerm ((L @ x) ! (unat (aePrevLogIndex q) - 1))" using L(4) by (simp add: nth_append)
  moreover have "take (length (aeEntries q)) (drop (unat (aePrevLogIndex q)) (L @ x)) = take (length (aeEntries q)) (drop (unat (aePrevLogIndex q)) L)"
    using L(2) by simp
  ultimately show ?thesis
    unfolding ae_ok_def using x L(2,3) commit_ok_later [OF L(5) l order_refl] by (intro exI [of _ "L @ x"]) simp
qed

lemma rv_ok_later: "rv_ok a s q \<Longrightarrow> later a a' \<Longrightarrow> rv_ok a' s q"
  unfolding rv_ok_def later_def by blast

lemma msg_ok_later: "msg_ok ms a s ob \<Longrightarrow> later a a' \<Longrightarrow> msg_ok ms a' s ob"
  by (auto simp: msg_ok_def ae_ok_later rv_ok_later split: message.splits)

lemma msg_ok_group [simp]: "msg_ok ms a s (ob\<lparr>oMsg := with_group g (oMsg ob)\<rparr>) = msg_ok ms a s ob"
  by (simp add: msg_ok_def with_group_def ae_ok_def rv_ok_def split: message.split)

subsection \<open>What the state of a node means\<close>

definition delivered_ok :: "u64 list \<Rightarrow> abs \<Rightarrow> nat \<Rightarrow> core \<Rightarrow> bool" where
  "delivered_ok ms a b c \<longleftrightarrow> unat (lastDelivered c) = b + length (committed c)
     \<and> (\<forall>k < length (committed c). centry ms a (b + k) (committed c ! k))"

definition leading_ok :: "u64 list \<Rightarrow> abs \<Rightarrow> core \<Rightarrow> bool" where
  "leading_ok ms a c \<longleftrightarrow> (\<forall>p m. matchIndex c p = Some m \<longrightarrow> m = 0 \<or> (p, currentTerm c, unat m) \<in> aAcks a)
     \<and> (\<forall>p x. nextIndex c p = Some x \<longrightarrow> 0 < x \<and> unat x \<le> length (entries c) + 1)
     \<and> (\<forall>p \<in> set ms. p \<noteq> ID (cfg c) \<longrightarrow> nextIndex c p \<noteq> None)"

definition csim :: "u64 list \<Rightarrow> u64 \<Rightarrow> abs \<Rightarrow> nat \<Rightarrow> core \<Rightarrow> bool" where
  "csim ms i a b c \<longleftrightarrow>
     aTerm a i = currentTerm c \<and> aVote a i = votedFor c \<and> aRole a i = role c \<and> aLog a i = entries c
     \<and> ID (cfg c) = i \<and> good c \<and> \<not> lfailed (store c) \<and> log_rep (disk c) (dirOf c) 0 (entries c)
     \<and> lookup (disk c) (dirOf c, raftSnapFileName) = None
     \<and> snapIndex c = 0 \<and> snapTerm c = 0 \<and> pendingRestore c = []
     \<and> commit_ok ms a (currentTerm c) (unat (commitIndex c)) \<and> unat (commitIndex c) \<le> length (entries c)
     \<and> delivered_ok ms a b c
     \<and> (role c = candidate \<longrightarrow> (\<forall>v \<in> votes c. (v, currentTerm c, i) \<in> aGrants a))
     \<and> (role c = leader \<longrightarrow> leading_ok ms a c)
     \<and> (\<forall>ob \<in> set (outbox c). msg_ok ms a i ob)"

definition mem_ok :: "u64 list \<Rightarrow> core \<Rightarrow> bool" where
  "mem_ok ms c \<longleftrightarrow> distinct (keys (members c)) \<and> set (keys (members c)) = set ms \<and> length (members c) = length ms"

lemma csimD:
  assumes "csim ms i a b c"
  shows "aTerm a i = currentTerm c" "aVote a i = votedFor c" "aRole a i = role c" "aLog a i = entries c" "ID (cfg c) = i" "good c"
    "\<not> lfailed (store c)" "log_rep (disk c) (dirOf c) 0 (entries c)" "lookup (disk c) (dirOf c, raftSnapFileName) = None"
    "snapIndex c = 0" "snapTerm c = 0" "pendingRestore c = []" "commit_ok ms a (currentTerm c) (unat (commitIndex c))"
    "unat (commitIndex c) \<le> length (entries c)" "delivered_ok ms a b c"
    "role c = candidate \<Longrightarrow> \<forall>v \<in> votes c. (v, currentTerm c, i) \<in> aGrants a" "role c = leader \<Longrightarrow> leading_ok ms a c"
    "\<forall>ob \<in> set (outbox c). msg_ok ms a i ob" "plain c" "ldir (store c) = dirOf c"
  using assms by (auto simp: csim_def plain_def log_rep_def good_def)

text \<open>Fields that play no part in the relation.\<close>

lemma csim_updates [simp]:
  "csim ms i a b (c\<lparr>electionElapsed := x1\<rparr>) = csim ms i a b c"
  "csim ms i a b (c\<lparr>electionTimeout := x1\<rparr>) = csim ms i a b c"
  "csim ms i a b (c\<lparr>heartbeatElapsed := x1\<rparr>) = csim ms i a b c"
  "csim ms i a b (c\<lparr>ticksSinceLeader := x1\<rparr>) = csim ms i a b c"
  "csim ms i a b (c\<lparr>transferTicks := x1\<rparr>) = csim ms i a b c"
  "csim ms i a b (c\<lparr>rng := x2\<rparr>) = csim ms i a b c"
  "csim ms i a b (c\<lparr>leaderID := x3\<rparr>) = csim ms i a b c"
  "csim ms i a b (c\<lparr>transferTarget := x3\<rparr>) = csim ms i a b c"
  "csim ms i a b (c\<lparr>appendSeq := x3\<rparr>) = csim ms i a b c"
  "csim ms i a b (c\<lparr>readCounter := x3\<rparr>) = csim ms i a b c"
  "csim ms i a b (c\<lparr>lastConfigIndex := x3\<rparr>) = csim ms i a b c"
  "csim ms i a b (c\<lparr>configVersion := x3\<rparr>) = csim ms i a b c"
  "csim ms i a b (c\<lparr>preVotes := x4\<rparr>) = csim ms i a b c"
  "csim ms i a b (c\<lparr>pendingReads := x5\<rparr>) = csim ms i a b c"
  "csim ms i a b (c\<lparr>readOutcomes := x6\<rparr>) = csim ms i a b c"
  "csim ms i a b (c\<lparr>members := x7\<rparr>) = csim ms i a b c"
  by (simp_all add: csim_def good_def delivered_ok_def leading_ok_def)

lemma csim_small [simp]:
  "csim ms i a b (resetElectionTimer c) = csim ms i a b c" "csim ms i a b (abortPendingReads c) = csim ms i a b c"
  "csim ms i a b (snd (confirmReads c)) = csim ms i a b c" "csim ms i a b (noteFreshAck p q c) = csim ms i a b c"
  by (simp_all add: resetElectionTimer_def abortPendingReads_def confirmReads_def noteFreshAck_def Let_def)

lemma csim_send:
  assumes "csim ms i a b c" "\<forall>ob \<in> set obs. msg_ok ms a i ob"
  shows "csim ms i a b (c\<lparr>outbox := outbox c @ obs\<rparr>)"
  using assms by (auto simp: csim_def good_def delivered_ok_def leading_ok_def)

text \<open>What others do does not change what a node's state means.\<close>

lemma csim_later:
  assumes "csim ms i a b c" "later a a'" "aTerm a' i = aTerm a i" "aVote a' i = aVote a i" "aRole a' i = aRole a i" "aLog a' i = aLog a i"
  shows "csim ms i a' b c"
proof -
  note d = csimD [OF assms(1)]
  have "delivered_ok ms a' b c" using d(15) centry_later [OF _ assms(2)] by (simp add: delivered_ok_def)
  moreover have "leading_ok ms a c \<Longrightarrow> leading_ok ms a' c" using assms(2) unfolding leading_ok_def later_def by blast
  moreover have "role c = candidate \<Longrightarrow> \<forall>v \<in> votes c. (v, currentTerm c, i) \<in> aGrants a'" using d(16) assms(2) unfolding later_def by blast
  moreover have "\<forall>ob \<in> set (outbox c). msg_ok ms a' i ob" using d(18) msg_ok_later [OF _ assms(2)] by blast
  moreover have "commit_ok ms a' (currentTerm c) (unat (commitIndex c))" using commit_ok_later [OF d(13) assms(2)] by simp
  ultimately show ?thesis using assms(1,3-6) by (simp add: csim_def)
qed

end
