(* ===== verification/RaftSteps.thy ===== *)
theory RaftSteps
  imports RaftSim
begin

text \<open>
  The operations of \<^verbatim>\<open>core.go\<close> and \<^verbatim>\<open>replication.go\<close> as moves of the abstract protocol: sending,
  committing, delivering, stepping down, campaigning, winning and appending. A call that fails
  halts the node, and \<open>halted\<close> says what a later crash may find on its disk.
\<close>

lemma leader_log:
  assumes "csim ms i a b c" "good_abs ms a" "role c = leader"
  shows "aLead a (currentTerm c) = Some (i, entries c)"
proof -
  have "inv_node a" using assms(2) by (simp add: good_abs_def ainv_def)
  then have "aRole a i = leader \<longrightarrow> aLead a (aTerm a i) = Some (i, aLog a i)" unfolding inv_node_def by blast
  then show ?thesis using csimD(1,3,4) [OF assms(1)] assms(3) by simp
qed

subsection \<open>Sending\<close>

lemma unat_pred: "x \<noteq> 0 \<Longrightarrow> unat (x - 1 :: u64) = unat x - 1"
  by (simp add: unat_minus_one)

lemma sendAppend_sim:
  assumes "csim ms i a b c" "good_abs ms a" "role c = leader" "p \<in> set ms" "p \<noteq> i"
  shows "\<exists>ob. sendAppend p c = (None, c\<lparr>appendSeq := appendSeq c + 1, outbox := outbox c @ [ob]\<rparr>) \<and> msg_ok ms a i ob"
proof -
  note d = csimD [OF assms(1)] and L = leader_log [OF assms(1-3)]
  let ?es = "entries c"
  define nxt where "nxt = (if getm (nextIndex c) p = 0 then 1 else getm (nextIndex c) p)"
  have le: "unat nxt \<le> length ?es + 1"
    using d(17) [OF assms(3)] by (auto simp: nxt_def getm_def leading_ok_def split: option.splits)
  have nz: "nxt \<noteq> 0" by (simp add: nxt_def)
  then have pos: "\<not> nxt \<le> snapIndex c" "0 < nxt" using d(10) by (simp_all add: word_le_0_iff word_gt_0)
  have pv: "unat (nxt - 1) = unat nxt - 1" using nz by (rule unat_pred)
  have lst: "unat (lastLogIndex c) = length ?es" by (rule lastLogIndex_plain [OF d(19)])
  have ci: "contig 0 ?es" using d(19) by (simp add: plain_def)
  define body where "body = (if nxt \<le> lastLogIndex c \<and> ?es \<noteq> [] then map_option (batch 0) (entries_between ?es nxt (lastLogIndex c)) else Some [])"
  have "\<exists>k. k \<le> length ?es - (unat nxt - 1) \<and> body = Some (map toProto (take k (drop (unat nxt - 1) ?es)))"
  proof (cases "nxt \<le> lastLogIndex c \<and> ?es \<noteq> []")
    case True
    then have "entries_between ?es nxt (lastLogIndex c) = Some (take (length ?es - unat nxt + 1) (drop (unat nxt - 1) ?es))"
      using entries_between_plain [OF ci pos(2)] lst by simp
    also have "take (length ?es - unat nxt + 1) (drop (unat nxt - 1) ?es) = drop (unat nxt - 1) ?es" by simp
    finally have "body = Some (batch 0 (drop (unat nxt - 1) ?es))" using True by (simp add: body_def)
    then show ?thesis using batch_prefix [of "drop (unat nxt - 1) ?es" 0] by auto
  next
    case False
    then have "body = Some []" by (auto simp: body_def)
    then show ?thesis by (intro exI [of _ 0]) simp
  qed
  then obtain k where k: "k \<le> length ?es - (unat nxt - 1)" "body = Some (map toProto (take k (drop (unat nxt - 1) ?es)))" by blast
  define q where "q = \<lparr>aeTerm = currentTerm c, aeLeaderId = ID (cfg c), aePrevLogIndex = nxt - 1, aePrevLogTerm = termAt c (nxt - 1),
    aeEntries = map toProto (take k (drop (unat nxt - 1) ?es)), aeLeaderCommit = commitIndex c, aeGroup = 0, aeSeq = appendSeq c + 1\<rparr>"
  have "sendAppend p c = (None, c\<lparr>appendSeq := appendSeq c + 1, outbox := outbox c @ [\<lparr>oTo = p, oMsg = AppendEntries q\<rparr>]\<rparr>)"
    using pos(1) k(2) unfolding sendAppend_def Let_def nxt_def [symmetric] body_def [symmetric] by (simp add: q_def)
  moreover have "ae_ok ms a i q"
  proof -
    have len: "length (aeEntries q) = k" using k(1) by (simp add: q_def)
    have "nxt - 1 \<noteq> 0 \<Longrightarrow> termAt c (nxt - 1) = eTerm (?es ! (unat (nxt - 1) - 1))"
      using termAt_nth [OF d(19), of "nxt - 1"] pv le by (auto split: if_splits)
    then show ?thesis
      unfolding ae_ok_def
      by (intro exI [of _ ?es] conjI)
         (use L len k(1) le pv d(13) in \<open>simp_all add: q_def o_def\<close>)
  qed
  ultimately show ?thesis using assms(4,5) by (auto simp: msg_ok_def)
qed

lemma send_all_sim:
  assumes "csim ms i a b c" "good_abs ms a" "role c = leader" "set ps \<subseteq> set ms - {i}"
  shows "\<exists>x obs. send_all ps c = (None, c\<lparr>appendSeq := x, outbox := outbox c @ obs\<rparr>) \<and> (\<forall>ob \<in> set obs. msg_ok ms a i ob)"
  using assms
proof (induction ps arbitrary: c)
  case Nil
  then show ?case by (intro exI [of _ "appendSeq c"] exI [of _ "[]"]) simp
next
  case (Cons p ps)
  obtain ob where ob: "sendAppend p c = (None, c\<lparr>appendSeq := appendSeq c + 1, outbox := outbox c @ [ob]\<rparr>)" "msg_ok ms a i ob"
    using sendAppend_sim [OF Cons.prems(1-3), of p] Cons.prems(4) by auto
  let ?c = "c\<lparr>appendSeq := appendSeq c + 1, outbox := outbox c @ [ob]\<rparr>"
  have "csim ms i a b ?c"
    using csim_send [of ms i a b "c\<lparr>appendSeq := appendSeq c + 1\<rparr>" "[ob]"] Cons.prems(1) ob(2) by simp
  from Cons.IH [OF this Cons.prems(2)] Cons.prems(3,4)
  obtain x obs where "send_all ps ?c = (None, ?c\<lparr>appendSeq := x, outbox := outbox ?c @ obs\<rparr>)" "\<forall>ob \<in> set obs. msg_ok ms a i ob" by auto
  then show ?case using ob by (intro exI [of _ x] exI [of _ "ob # obs"]) simp
qed

lemma peers_mem: "mem_ok ms c \<Longrightarrow> set (peerIDs c) = set ms - {ID (cfg c)}"
  by (auto simp: mem_ok_def peerIDs_def)

lemma broadcastAppends_sim:
  assumes "csim ms i a b c" "good_abs ms a" "role c = leader" "mem_ok ms c"
  shows "\<exists>x obs. broadcastAppends c = (None, c\<lparr>appendSeq := x, outbox := outbox c @ obs\<rparr>)
    \<and> csim ms i a b (c\<lparr>appendSeq := x, outbox := outbox c @ obs\<rparr>)"
proof -
  obtain x obs where x: "broadcastAppends c = (None, c\<lparr>appendSeq := x, outbox := outbox c @ obs\<rparr>)" "\<forall>ob \<in> set obs. msg_ok ms a i ob"
    using send_all_sim [OF assms(1-3), of "peerIDs c"] peers_mem [OF assms(4)] csimD(5) [OF assms(1)] unfolding broadcastAppends_def by auto
  have "csim ms i a b (c\<lparr>appendSeq := x, outbox := outbox c @ obs\<rparr>)"
    using csim_send [of ms i a b "c\<lparr>appendSeq := x\<rparr>" obs] assms(1) x(2) by simp
  then show ?thesis using x(1) by blast
qed

subsection \<open>Delivering\<close>

lemma fold_deliver:
  assumes "role c \<noteq> leader \<or> isMember c"
  shows "fold deliver_one es c = c\<lparr>committed := committed c @ es\<rparr>"
  using assms
proof (induction es arbitrary: c)
  case (Cons e es)
  then have "deliver_one e c = c\<lparr>committed := committed c @ [e]\<rparr>" by (auto simp: deliver_one_def Let_def)
  moreover have "isMember (c\<lparr>committed := committed c @ [e]\<rparr>) = isMember c" by (simp add: isMember_def)
  ultimately show ?case using Cons.IH [of "c\<lparr>committed := committed c @ [e]\<rparr>"] Cons.prems by simp
qed simp

lemma deliverCommitted_plain:
  assumes "contig 0 (entries c)" "unat (commitIndex c) \<le> length (entries c)" "role c \<noteq> leader \<or> isMember c"
    "unat (lastDelivered c) + 1 < 2 ^ 64"
  shows "deliverCommitted c = (None, c\<lparr>committed := committed c @ drop (unat (lastDelivered c)) (take (unat (commitIndex c)) (entries c)),
    lastDelivered := max (lastDelivered c) (commitIndex c)\<rparr>)"
proof -
  let ?ld = "lastDelivered c" and ?ci = "commitIndex c"
  have fr: "unat (?ld + 1) = unat ?ld + 1" using assms(4) by (rule unat_succ)
  show ?thesis
  proof (cases "?ci < ?ld + 1 \<or> entries c = []")
    case True
    then have le: "unat ?ci \<le> unat ?ld" using fr assms(2) by (auto simp: word_less_nat_alt)
    then have "\<not> ?ld < ?ci" "max ?ld ?ci = ?ld" by (auto simp: word_less_nat_alt max_def word_le_nat_alt word_unat_eq_iff)
    moreover have "drop (unat ?ld) (take (unat ?ci) (entries c)) = []" using le by simp
    ultimately show ?thesis using True by (auto simp: deliverCommitted_def Let_def)
  next
    case False
    then have lt: "unat ?ld < unat ?ci" using fr by (auto simp: word_less_nat_alt)
    have "0 < ?ld + 1" "?ld + 1 \<le> ?ci" using False fr by (auto simp: word_less_nat_alt word_le_nat_alt)
    from entries_between_plain [OF assms(1) this assms(2)]
    have "entries_between (entries c) (?ld + 1) ?ci = Some (take (unat ?ci - unat ?ld) (drop (unat ?ld) (entries c)))" using fr lt by (simp add: Suc_diff_Suc)
    also have "take (unat ?ci - unat ?ld) (drop (unat ?ld) (entries c)) = drop (unat ?ld) (take (unat ?ci) (entries c))" by (simp add: drop_take)
    finally show ?thesis using False fold_deliver [OF assms(3)] lt
      by (simp add: deliverCommitted_def Let_def word_less_nat_alt max_def word_le_nat_alt)
  qed
qed

lemma deliverCommitted_sim:
  assumes "csim ms i a b c" "unat (lastDelivered c) + 1 < 2 ^ 64" "role c \<noteq> leader \<or> isMember c"
    "\<forall>k < unat (commitIndex c). centry ms a k (entries c ! k)"
  obtains c' x y where "deliverCommitted c = (None, c')" "csim ms i a b c'" "c' = c\<lparr>committed := x, lastDelivered := y\<rparr>"
proof -
  note d = csimD [OF assms(1)]
  let ?ld = "lastDelivered c" and ?ci = "commitIndex c"
  let ?new = "drop (unat ?ld) (take (unat ?ci) (entries c))"
  let ?c = "c\<lparr>committed := committed c @ ?new, lastDelivered := max ?ld ?ci\<rparr>"
  have ci: "contig 0 (entries c)" using d(19) by (simp add: plain_def)
  note eq = deliverCommitted_plain [OF ci d(14) assms(3,2)]
  have b: "unat ?ld = b + length (committed c)" and old: "\<forall>k < length (committed c). centry ms a (b + k) (committed c ! k)"
    using d(15) by (simp_all add: delivered_ok_def)
  have len: "length ?new = unat ?ci - unat ?ld" using d(14) by simp
  have "unat (max ?ld ?ci) = max (unat ?ld) (unat ?ci)" by (simp add: max_def word_le_nat_alt)
  then have "unat (max ?ld ?ci) = b + length (committed c @ ?new)" using len b by simp
  moreover have "centry ms a (b + k) ((committed c @ ?new) ! k)" if "k < length (committed c @ ?new)" for k
  proof (cases "k < length (committed c)")
    case True
    then show ?thesis using old by (simp add: nth_append)
  next
    case False
    then have "b + k = unat ?ld + (k - length (committed c))" "k - length (committed c) < length ?new" using b that by auto
    moreover from this have "?new ! (k - length (committed c)) = entries c ! (b + k)" using len d(14) by simp
    ultimately show ?thesis using assms(4) False len by (simp add: nth_append)
  qed
  ultimately have "delivered_ok ms a b ?c" by (simp add: delivered_ok_def)
  then have "csim ms i a b ?c" using assms(1) by (auto simp: csim_def good_def leading_ok_def)
  then show thesis using that [OF eq _ refl] by blast
qed

subsection \<open>Committing\<close>

lemma advance_to_Some:
  "advance_to c n = Some m \<Longrightarrow> commitIndex c < m \<and> m \<le> n \<and> termAt c m = currentTerm c \<and> majority c \<le> votes_for c m"
proof (induction c n rule: advance_to.induct)
  case (1 c n)
  note eq = advance_to.simps [of c n]
  have True: "commitIndex c < n \<and> termAt c n = currentTerm c" using 1(2) eq by (auto split: if_splits)
  show ?case
  proof (cases "majority c \<le> votes_for c n")
    case False
    then have "advance_to c (n - 1) = Some m" using 1(2) True eq by simp
    moreover have "n \<noteq> 0" using True by auto
    then have "n - 1 \<le> n" by (simp add: word_le_nat_alt unat_pred)
    ultimately show ?thesis using 1(1) [OF True False] by auto
  next
    case maj: True
    then show ?thesis using 1(2) True eq by simp
  qed
qed

text \<open>A leader confirms its own log.\<close>

lemma self_ack:
  assumes "csim ms i a b c" "good_abs ms a" "role c = leader" "i \<in> set ms"
  obtains a' where "moves ms i a a'" "csim ms i a' b c" "good_abs ms a'" "(i, currentTerm c, length (entries c)) \<in> aAcks a'" "later a a'"
proof -
  note d = csimD [OF assms(1)] and L = leader_log [OF assms(1-3)]
  let ?a = "a\<lparr>aAcks := insert (i, aTerm a i, length (entries c)) (aAcks a)\<rparr>"
  have st: "astep ms a ?a" by (rule astep.ack [OF assms(4), of a i "entries c"]) (use L d(1,4) in simp_all)
  have mv: "moves ms i a ?a"
    by (rule moves_one [OF st]) (use assms(2) in \<open>simp_all add: touches_def good_abs_def wf_lead_def\<close>)
  note f = moves_facts [OF mv assms(2)]
  have "csim ms i ?a b c" by (rule csim_later [OF assms(1)]) (use f in simp_all)
  then show thesis by (rule that [OF mv]) (use f d(1) in simp_all)
qed

lemma isMember_mem: "mem_ok ms c \<Longrightarrow> ID (cfg c) \<in> set ms \<Longrightarrow> isMember c"
  by (auto simp: mem_ok_def isMember_def map_of_eq_None_iff)

lemma commit_quorum:
  assumes "mem_ok ms c" "ID (cfg c) = i" "i \<in> set ms" "majority c \<le> votes_for c n"
  shows "majority_of ms ({i} \<union> {p \<in> set (peerIDs c). n \<le> getm (matchIndex c) p})"
proof -
  have di: "distinct (peerIDs c)" "i \<notin> set (peerIDs c)" "set (peerIDs c) \<subseteq> set ms" using assms(1,2) by (auto simp: peerIDs_def mem_ok_def)
  have "{p \<in> set (peerIDs c). n \<le> getm (matchIndex c) p} = set (filter (\<lambda>p. n \<le> getm (matchIndex c) p) (peerIDs c))" by auto
  then have "card {p \<in> set (peerIDs c). n \<le> getm (matchIndex c) p} = length (filter (\<lambda>p. n \<le> getm (matchIndex c) p) (peerIDs c))"
    using di(1) distinct_card [of "filter (\<lambda>p. n \<le> getm (matchIndex c) p) (peerIDs c)"] by simp
  then have "card ({i} \<union> {p \<in> set (peerIDs c). n \<le> getm (matchIndex c) p}) = votes_for c n"
    using di(2) isMember_mem [OF assms(1)] assms(2,3) by (simp add: votes_for_def)
  moreover have "majority c = length ms div 2 + 1" using assms(1) by (simp add: majority_def mem_ok_def)
  ultimately show ?thesis using assms(3,4) di(3) by (auto simp: majority_of_def)
qed

lemma maybeAdvanceCommit_sim:
  assumes "csim ms i a b c" "good_abs ms a" "role c = leader" "i \<in> set ms" "mem_ok ms c" "unat (lastDelivered c) + 1 < 2 ^ 64"
  obtains a' c' x y z where "moves ms i a a'" "maybeAdvanceCommit c = (None, c')" "csim ms i a' b c'"
    "c' = c\<lparr>commitIndex := z, committed := x, lastDelivered := y\<rparr>"
proof (cases "advance_to c (lastLogIndex c)")
  case None
  have "c = c\<lparr>commitIndex := commitIndex c, committed := committed c, lastDelivered := lastDelivered c\<rparr>" by simp
  moreover have "maybeAdvanceCommit c = (None, c)" using None by (simp add: maybeAdvanceCommit_def)
  ultimately show thesis using that [OF rtranclp.rtrancl_refl _ assms(1)] by blast
next
  case (Some n)
  note adv = advance_to_Some [OF Some]
  obtain a' where a': "moves ms i a a'" "csim ms i a' b c" "good_abs ms a'" "(i, currentTerm c, length (entries c)) \<in> aAcks a'" "later a a'"
    by (rule self_ack [OF assms(1-4)])
  note d = csimD [OF a'(2)] and L = leader_log [OF a'(2,3) assms(3)]
  have n: "0 < unat n" "unat n \<le> length (entries c)"
    using adv lastLogIndex_plain [OF d(19)] by (auto simp: word_less_nat_alt word_le_nat_alt)
  have et: "eTerm (entries c ! (unat n - 1)) = currentTerm c" using adv termAt_nth [OF d(19), of n] n by (auto split: if_splits)
  have "\<exists>m \<ge> unat n. (p, currentTerm c, m) \<in> aAcks a'" if p: "p \<in> {i} \<union> {p \<in> set (peerIDs c). n \<le> getm (matchIndex c) p}" for p
  proof (cases "p = i")
    case True
    then show ?thesis using a'(4) n(2) by blast
  next
    case False
    then have g: "n \<le> getm (matchIndex c) p" using p by auto
    then obtain m where m: "matchIndex c p = Some m" "n \<le> m" using n(1) by (auto simp: getm_def word_le_0_iff split: option.splits)
    then have "m \<noteq> 0" using n(1) by auto
    then have "(p, currentTerm c, unat m) \<in> aAcks a'" using d(17) [OF assms(3)] m(1) by (auto simp: leading_ok_def)
    then show ?thesis using m(2) by (auto simp: word_le_nat_alt)
  qed
  then have com: "committed_to ms a' (currentTerm c) (unat n)"
    unfolding committed_to_def using L n et commit_quorum [OF assms(5) d(5) assms(4)] adv by blast
  then have cok: "commit_ok ms a' (currentTerm c) (unat n)" unfolding commit_ok_def by blast
  have cs: "csim ms i a' b (c\<lparr>commitIndex := n\<rparr>)"
    using a'(2) cok n(2) by (auto simp: csim_def good_def delivered_ok_def leading_ok_def)
  have ce: "\<forall>k < unat n. centry ms a' k (entries c ! k)" using com L unfolding centry_def by blast
  have im: "isMember (c\<lparr>commitIndex := n\<rparr>)" using isMember_mem [OF assms(5)] d(5) assms(4) by (simp add: isMember_def)
  obtain c' x y where c': "deliverCommitted (c\<lparr>commitIndex := n\<rparr>) = (None, c')" "csim ms i a' b c'"
    "c' = c\<lparr>commitIndex := n\<rparr>\<lparr>committed := x, lastDelivered := y\<rparr>"
    by (rule deliverCommitted_sim [OF cs]) (use assms(6) im ce in simp_all)
  show thesis by (rule that [OF a'(1) _ c'(2,3)]) (simp add: maybeAdvanceCommit_def c'(1) Some)
qed

subsection \<open>A node that has halted\<close>

text \<open>What its disk holds may be ahead of what it did: a term or a vote, or entries it was
  appending when it failed.\<close>

definition pend :: "u64 \<Rightarrow> abs \<Rightarrow> Entry list \<Rightarrow> bool" where
  "pend i a es \<longleftrightarrow> es = aLog a i
     \<or> aRole a i = leader \<and> (\<exists>e. eTerm e = aTerm a i \<and> es = aLog a i @ [e] \<and> wf_log es)
     \<or> aRole a i = follower \<and> (\<exists>w L m. aLead a (aTerm a i) = Some (w, L) \<and> m \<le> length L \<and> take m L \<noteq> take m (aLog a i) \<and> es = take m L)"

definition halted :: "u64 \<Rightarrow> abs \<Rightarrow> core \<Rightarrow> bool" where
  "halted i a c \<longleftrightarrow> ID (cfg c) = i
     \<and> (\<exists>t v. state_holds (disk c) (dirOf c) t v \<and> tv_le (aTerm a i, aVote a i) (t, v))
     \<and> lookup (disk c) (dirOf c, raftSnapFileName) = None
     \<and> (\<forall>k. \<exists>es. log_disk (crash k (disk c)) (dirOf c) 0 es \<and> pend i a es)"

lemma csim_halted:
  assumes "csim ms i a b c" shows "halted i a c"
proof -
  note d = csimD [OF assms]
  have "\<exists>es. log_disk (crash k (disk c)) (dirOf c) 0 es \<and> pend i a es" for k
    using log_rep_disk [OF log_rep_crash [OF d(8)]] d(4) by (auto simp: pend_def)
  moreover have "state_holds (disk c) (dirOf c) (aTerm a i) (aVote a i)" using d(1,2,6) by (simp add: good_def)
  then have "\<exists>t v. state_holds (disk c) (dirOf c) t v \<and> tv_le (aTerm a i, aVote a i) (t, v)" using tv_le_refl by blast
  ultimately show ?thesis unfolding halted_def using d(5,9) by simp
qed

lemma pend_later:
  assumes "pend i a es" "later a a'" "aTerm a' i = aTerm a i" "aRole a' i = aRole a i" "aLog a' i = aLog a i"
  shows "pend i a' es"
proof -
  have g: "grows a a'" using assms(2) by (simp add: later_def)
  have "\<exists>w L m. aLead a' (aTerm a i) = Some (w, L) \<and> m \<le> length L \<and> take m L \<noteq> take m (aLog a i) \<and> es = take m L"
    if h: "aLead a (aTerm a i) = Some (w, L)" "m \<le> length L" "take m L \<noteq> take m (aLog a i)" "es = take m L" for w L m
  proof -
    obtain x where "aLead a' (aTerm a i) = Some (w, L @ x)" by (rule growsE [OF g h(1)])
    then show ?thesis using h(2-4) by (intro exI [of _ w] exI [of _ "L @ x"] exI [of _ m]) simp
  qed
  then show ?thesis using assms(1,3-5) unfolding pend_def by auto
qed

lemma halted_later:
  assumes "halted i a c" "later a a'" "aTerm a' i = aTerm a i" "aVote a' i = aVote a i" "aRole a' i = aRole a i" "aLog a' i = aLog a i"
  shows "halted i a' c"
proof -
  have "\<exists>es. log_disk (crash k (disk c)) (dirOf c) 0 es \<and> pend i a' es" for k
    using assms(1) pend_later [OF _ assms(2,3,5,6)] unfolding halted_def by blast
  then show ?thesis using assms(1) unfolding halted_def assms(3,4) by simp
qed

text \<open>The result of a call: the node goes on, or it halts.\<close>

definition outcome :: "u64 list \<Rightarrow> u64 \<Rightarrow> abs \<Rightarrow> nat \<Rightarrow> err option \<Rightarrow> core \<Rightarrow> bool" where
  "outcome ms i a b r c \<longleftrightarrow> (\<exists>a'. moves ms i a a' \<and> (if r = None then csim ms i a' b c else halted i a' c))"

lemma outcomeI: "moves ms i a a' \<Longrightarrow> csim ms i a' b c \<Longrightarrow> outcome ms i a b r c"
  unfolding outcome_def using csim_halted by auto

lemma outcome_stay: "csim ms i a b c \<Longrightarrow> outcome ms i a b r c"
  by (rule outcomeI [OF rtranclp.rtrancl_refl])

lemma outcome_after: "moves ms i a a1 \<Longrightarrow> outcome ms i a1 b r c \<Longrightarrow> outcome ms i a b r c"
  unfolding outcome_def by (meson rtranclp_trans)

subsection \<open>Terms and votes\<close>

lemma file_names:
  "snd (logPath d) \<noteq> stateFileName" "snd (logPath d) \<noteq> stateFileName @ ''.tmp''"
  "raftSnapFileName \<noteq> stateFileName" "raftSnapFileName \<noteq> stateFileName @ ''.tmp''"
  by (simp_all add: logPath_def logFileName_def stateFileName_def raftSnapFileName_def)

lemma saveState_files:
  assumes "saveState c = (r, c')" "state_holds (disk c) (dirOf c) t0 v0"
  shows "c' = c\<lparr>disk := disk c'\<rparr>"
    "lookup (disk c') (logPath (dirOf c)) = lookup (disk c) (logPath (dirOf c))"
    "lookup (disk c') (dirOf c, raftSnapFileName) = lookup (disk c) (dirOf c, raftSnapFileName)"
    "r = None \<Longrightarrow> state_holds (disk c') (dirOf c) (currentTerm c) (votedFor c)"
    "state_holds (disk c') (dirOf c) t0 v0 \<or> state_holds (disk c') (dirOf c) (currentTerm c) (votedFor c)"
proof -
  obtain s' where s: "saveTermAndVote (dirOf c) (currentTerm c) (votedFor c) (disk c) = (r, s')" "c' = c\<lparr>disk := s'\<rparr>"
    using assms(1) by (auto simp: saveState_def split: prod.splits)
  note res = saveTermAndVote_result [OF s(1) assms(2)]
  show "c' = c\<lparr>disk := disk c'\<rparr>" using s(2) by simp
  show "lookup (disk c') (logPath (dirOf c)) = lookup (disk c) (logPath (dirOf c))" using res(3) [OF file_names(1,2)] s(2) by simp
  show "lookup (disk c') (dirOf c, raftSnapFileName) = lookup (disk c) (dirOf c, raftSnapFileName)"
    using res(3) [of "(dirOf c, raftSnapFileName)"] file_names(3,4) s(2) by simp
  show "r = None \<Longrightarrow> state_holds (disk c') (dirOf c) (currentTerm c) (votedFor c)" using res(1) s(2) by simp
  show "state_holds (disk c') (dirOf c) t0 v0 \<or> state_holds (disk c') (dirOf c) (currentTerm c) (votedFor c)" using res(2) s(2) by simp
qed

text \<open>Saving a later term and vote: the state the node had in mind is reached, or the node halts
  with the old pair or the new one on disk.\<close>

lemma saveState_sim:
  assumes "csim ms i a b c" "saveState c1 = (r, c')"
    "c1 = c\<lparr>role := ro, currentTerm := t, votedFor := v, votes := V\<rparr>" "tv_le (tv c) (t, v)" "ro \<noteq> follower \<longrightarrow> v \<noteq> noVote"
    "moves ms i a a'" "good_abs ms a" "aTerm a' i = t" "aVote a' i = v" "aRole a' i = ro" "aLog a' i = aLog a i"
    "ro = candidate \<longrightarrow> (\<forall>u \<in> V. (u, t, i) \<in> aGrants a')" "ro \<noteq> leader"
  shows "outcome ms i a b r c' \<and> (r = None \<longrightarrow> csim ms i a' b c') \<and> c' = c1\<lparr>disk := disk c'\<rparr>"
proof -
  note d = csimD [OF assms(1)] and f = moves_facts [OF assms(6,7)]
  have dir: "dirOf c1 = dirOf c" "disk c1 = disk c" using assms(3) by simp_all
  have h: "state_holds (disk c1) (dirOf c1) (currentTerm c) (votedFor c)" using d(6) dir by (simp add: good_def)
  note s = saveState_files [OF assms(2) h]
  have le: "currentTerm c \<le> t" using assms(4) by (auto simp: tv_le_def)
  define s' where "s' = disk c'"
  have lr: "log_rep s' (dirOf c) 0 (entries c)" using log_rep_cong [OF s(2)] d(8) dir by (simp add: s'_def)
  have nosnap: "lookup s' (dirOf c, raftSnapFileName) = None" using s(3) d(9) dir by (simp add: s'_def)
  have keep: "c' = c\<lparr>role := ro, currentTerm := t, votedFor := v, votes := V, disk := s'\<rparr>"
    using s(1) by (simp add: assms(3) s'_def)
  have "csim ms i a' b c'" if "r = None"
  proof -
    have st: "state_holds s' (dirOf c) t v" using s(4) that dir assms(3) by (simp add: s'_def)
    have g: "good c'" using d(5,6,20) st assms(5) by (simp add: keep good_def)
    have del: "delivered_ok ms a' b c'" using d(15) f centry_later by (simp add: keep delivered_ok_def) blast
    have cm: "commit_ok ms a' t (unat (commitIndex c))" using commit_ok_later [OF d(13) _ le] f by blast
    have out: "\<forall>ob \<in> set (outbox c). msg_ok ms a' i ob" using d(18) f msg_ok_later by blast
    show ?thesis
      unfolding csim_def using g del assms(8-13) d(1-5,7,10-12,14) lr nosnap cm out by (simp add: keep)
  qed
  moreover have "halted i a c'"
  proof -
    have "state_holds s' (dirOf c) (currentTerm c) (votedFor c) \<or> state_holds s' (dirOf c) t v"
      using s(5) dir assms(3) by (simp add: s'_def)
    then have "\<exists>t v. state_holds s' (dirOf c) t v \<and> tv_le (tv c) (t, v)"
      using assms(4) tv_le_refl [of "tv c"] by blast
    moreover have "\<exists>es. log_disk (crash k s') (dirOf c) 0 es \<and> pend i a es" for k
      using log_rep_disk [OF log_rep_crash [OF lr]] d(4) by (auto simp: pend_def)
    ultimately show ?thesis unfolding halted_def using d(1,2,5) nosnap by (simp add: keep)
  qed
  ultimately show ?thesis using s(1) assms(6) unfolding outcome_def by auto
qed

text \<open>What a call leaves of the parts that the caller still reads.\<close>

definition same_log :: "core \<Rightarrow> core \<Rightarrow> bool" where
  "same_log c c' \<longleftrightarrow> entries c' = entries c \<and> members c' = members c \<and> lastDelivered c' = lastDelivered c \<and> cfg c' = cfg c"

lemma new_term_move:
  assumes "good_abs ms a" "i \<in> set ms" "aTerm a i < t"
  defines "a' \<equiv> a\<lparr>aTerm := (aTerm a)(i := t), aVote := (aVote a)(i := noVote), aRole := (aRole a)(i := follower)\<rparr>"
  shows "moves ms i a a'"
  unfolding a'_def
  by (rule moves_one [OF astep.new_term]) (use assms in \<open>auto simp: touches_def good_abs_def wf_lead_def\<close>)

lemma stepDown_sim:
  assumes "csim ms i a b c" "good_abs ms a" "i \<in> set ms" "currentTerm c < t" "stepDown t c = (r, c')"
  shows "outcome ms i a b r c' \<and> same_log c c' \<and> role c' = follower \<and> currentTerm c' = t \<and> votedFor c' = noVote"
proof -
  note d = csimD [OF assms(1)]
  define a' where "a' = a\<lparr>aTerm := (aTerm a)(i := t), aVote := (aVote a)(i := noVote), aRole := (aRole a)(i := follower)\<rparr>"
  have mv: "moves ms i a a'" unfolding a'_def by (rule new_term_move) (use assms(2-4) d(1) in auto)
  let ?c0 = "abortPendingReads (c\<lparr>leaderID := 0, preVotes := None, transferTarget := 0\<rparr>)"
  let ?c1 = "?c0\<lparr>role := follower, currentTerm := t, votedFor := noVote, votes := {}\<rparr>"
  have c0: "csim ms i a b ?c0" using assms(1) by simp
  have "?c1 = abortPendingReads (c\<lparr>role := follower, currentTerm := t, votedFor := noVote, leaderID := 0, votes := {},
      preVotes := None, transferTarget := 0\<rparr>)"
    by (rule core.equality) (simp_all add: abortPendingReads_def)
  then have sv: "saveState ?c1 = (r, c')" using assms(5) by (simp add: stepDown_def)
  have "tv_le (tv ?c0) (t, noVote)" using assms(4) by (simp add: tv_le_def abortPendingReads_def)
  then have res: "outcome ms i a b r c' \<and> (r = None \<longrightarrow> csim ms i a' b c') \<and> c' = ?c1\<lparr>disk := disk c'\<rparr>"
    by (intro saveState_sim [OF c0 sv refl _ _ mv assms(2)]) (simp_all add: a'_def)
  define s' where "s' = disk c'"
  have "c' = ?c1\<lparr>disk := s'\<rparr>" using res by (simp add: s'_def)
  then have "same_log c c' \<and> role c' = follower \<and> currentTerm c' = t \<and> votedFor c' = noVote"
    by (simp add: same_log_def abortPendingReads_def)
  then show ?thesis using res by blast
qed

lemma adopt_sim:
  assumes "csim ms i a b c" "good_abs ms a" "i \<in> set ms" "adopt t c = (r, c')"
  shows "outcome ms i a b r c'" "same_log c c'" "r = None \<Longrightarrow> t \<le> currentTerm c'" "c' = c \<and> r = None \<or> role c' = follower \<and> currentTerm c' = t"
proof -
  have "outcome ms i a b r c' \<and> same_log c c' \<and> (r = None \<longrightarrow> t \<le> currentTerm c') \<and> (c' = c \<and> r = None \<or> role c' = follower \<and> currentTerm c' = t)"
  proof (cases "currentTerm c < t")
    case True
    then have "stepDown t c = (r, c')" using assms(4) by (simp add: adopt_def)
    from stepDown_sim [OF assms(1-3) True this] show ?thesis by simp
  next
    case False
    then have "c' = c" "r = None" using assms(4) by (simp_all add: adopt_def)
    then show ?thesis using False outcome_stay [OF assms(1)] by (simp add: same_log_def)
  qed
  then show "outcome ms i a b r c'" "same_log c c'" "r = None \<Longrightarrow> t \<le> currentTerm c'"
    "c' = c \<and> r = None \<or> role c' = follower \<and> currentTerm c' = t" by blast+
qed

text \<open>After a successful call: a later abstract state and the relation again.\<close>

lemma outcomeE:
  assumes "outcome ms i a b None c" "good_abs ms a"
  obtains a' where "moves ms i a a'" "csim ms i a' b c" "good_abs ms a'" "later a a'"
  using assms moves_facts unfolding outcome_def by (metis (full_types))

subsection \<open>Voting\<close>

lemma logUpToDate_plain:
  assumes "plain c" "unat li = length C" "lt = last_term C" "logUpToDate c li lt"
  shows "up_to_date C (entries c)"
  using assms lastLogIndex_plain [OF assms(1)] lastLogTerm_plain [OF assms(1)]
  by (auto simp: logUpToDate_def up_to_date_def word_le_nat_alt split: if_splits)

lemma note_vote_simps [simp]:
  "aTerm (note_vote v t c a) = aTerm a" "aVote (note_vote v t c a) = aVote a" "aRole (note_vote v t c a) = aRole a"
  "aLog (note_vote v t c a) = aLog a" "aLead (note_vote v t c a) = aLead a" "(v, t, c) \<in> aGrants (note_vote v t c a)"
  by (simp_all add: note_vote_def)

lemma cast_vote_sim:
  assumes "csim ms i a b c" "good_abs ms a" "i \<in> set ms" "v \<noteq> noVote" "votedFor c = noVote \<or> votedFor c = v"
    "aCand a (currentTerm c) v = Some C" "up_to_date C (entries c)"
    "(if votedFor c \<noteq> v then saveState (c\<lparr>votedFor := v\<rparr>) else (None, c)) = (r, c')"
  shows "outcome ms i a b r c'"
    "r = None \<Longrightarrow> \<exists>a'. moves ms i a a' \<and> csim ms i a' b c' \<and> (i, currentTerm c, v) \<in> aGrants a'"
proof -
  note d = csimD [OF assms(1)]
  define a' where "a' = note_vote i (aTerm a i) v (a\<lparr>aVote := (aVote a)(i := v)\<rparr>)"
  have st: "astep ms a a'" unfolding a'_def by (rule astep.grant [OF assms(3,4)]) (use d(1,2,4) assms(5-7) in auto)
  have mv: "moves ms i a a'"
    by (rule moves_one [OF st]) (use assms(2) in \<open>simp_all add: a'_def touches_def good_abs_def wf_lead_def\<close>)
  have G: "(i, currentTerm c, v) \<in> aGrants a'" using d(1) by (simp add: a'_def)
  note f = moves_facts [OF mv assms(2)]
  have "outcome ms i a b r c' \<and> (r = None \<longrightarrow> csim ms i a' b c')"
  proof (cases "votedFor c = v")
    case True
    then have "c' = c" using assms(8) by simp
    moreover have "csim ms i a' b c" by (rule csim_later [OF assms(1)]) (use f d(2) True in \<open>simp_all add: a'_def\<close>)
    ultimately show ?thesis using outcome_stay [OF assms(1)] by simp
  next
    case False
    then have nv: "votedFor c = noVote" using assms(5) by simp
    then have fo: "role c = follower" using d(6) by (simp add: good_def)
    let ?c1 = "c\<lparr>role := follower, currentTerm := currentTerm c, votedFor := v, votes := votes c\<rparr>"
    have eq: "c\<lparr>votedFor := v\<rparr> = ?c1" using fo by simp
    have sv: "saveState ?c1 = (r, c')" using False assms(8) eq by simp
    have "tv_le (tv c) (currentTerm c, v)" using nv by (simp add: tv_le_def)
    then show ?thesis
      using saveState_sim [OF assms(1) sv refl _ _ mv assms(2)] d(1,3) fo by (simp add: a'_def)
  qed
  then show "outcome ms i a b r c'"
    "r = None \<Longrightarrow> \<exists>a'. moves ms i a a' \<and> csim ms i a' b c' \<and> (i, currentTerm c, v) \<in> aGrants a'"
    using mv G by blast+
qed

subsection \<open>Appending as leader\<close>

lemma one_fits:
  assumes "plain c" "eIndex e = lastLogIndex c + 1" "length (entries c) + 1 < 2 ^ 64"
  shows "unat (eIndex e) = length (entries c) + 1" "fits 0 (entries c) [e]" "supersede 0 (entries c) [e] = entries c @ [e]"
    "contig 0 (entries c @ [e])"
proof -
  have u: "unat (eIndex e) = length (entries c) + 1"
    using unat_succ [of "lastLogIndex c"] lastLogIndex_plain [OF assms(1)] assms(2,3) by simp
  then show "unat (eIndex e) = length (entries c) + 1" "fits 0 (entries c) [e]" "supersede 0 (entries c) [e] = entries c @ [e]"
    by (simp_all add: fits_def supersede_def)
  show "contig 0 (entries c @ [e])" using assms(1) u by (auto simp: plain_def contig_def nth_append less_Suc_eq)
qed

lemma storeAppend_files:
  assumes "csim ms i a b c" "storeAppend es c = (r, c')" "fits 0 (entries c) es" "\<forall>e \<in> set es. entry_ok e"
  shows "r = None \<Longrightarrow> log_rep (disk c') (dirOf c) 0 (supersede 0 (entries c) es) \<and> store c' = store c"
    "c' = c\<lparr>store := store c', disk := disk c'\<rparr>"
    "state_holds (disk c') (dirOf c) (currentTerm c) (votedFor c)" "lookup (disk c') (dirOf c, raftSnapFileName) = None"
    "\<exists>j \<le> length es. (r = None \<longrightarrow> j = length es) \<and> log_disk (crash f (disk c')) (dirOf c) 0 (supersede 0 (entries c) (take j es))"
proof -
  note d = csimD [OF assms(1)]
  obtain l s where la: "log_append (store c) es (disk c) = (r, l, s)" and c': "c' = c\<lparr>store := l, disk := s\<rparr>"
    using assms(2) by (auto simp: storeAppend_def split: prod.splits)
  have lr: "log_rep (disk c) (ldir (store c)) 0 (entries c)" using d(8,20) by simp
  note res = log_append_result [OF la d(7) lr assms(3,4)]
  show "r = None \<Longrightarrow> log_rep (disk c') (dirOf c) 0 (supersede 0 (entries c) es) \<and> store c' = store c"
    using res(1) c' d(20) by simp
  show "c' = c\<lparr>store := store c', disk := disk c'\<rparr>" using c' by simp
  have oth: "lookup s (dirOf c, n) = lookup (disk c) (dirOf c, n)" if "n \<noteq> snd (logPath (dirOf c))" for n
    using res(4) [of "(dirOf c, n)"] that d(20) by (metis snd_conv)
  have "state_holds (disk c) (dirOf c) (currentTerm c) (votedFor c)" using d(6) by (simp add: good_def)
  then show "state_holds (disk c') (dirOf c) (currentTerm c) (votedFor c)"
    using c' state_holds_cong [OF oth [OF file_names(1) [symmetric]]] by simp
  show "lookup (disk c') (dirOf c, raftSnapFileName) = None"
    using oth [of raftSnapFileName] d(9) c' by (simp add: logPath_def logFileName_def raftSnapFileName_def)
  show "\<exists>j \<le> length es. (r = None \<longrightarrow> j = length es) \<and> log_disk (crash f (disk c')) (dirOf c) 0 (supersede 0 (entries c) (take j es))"
    using log_append_crash [OF la d(7) lr assms(3,4)] c' d(20) by simp
qed

lemma append_move:
  assumes "csim ms i a b c" "good_abs ms a" "i \<in> set ms" "role c = leader" "eTerm e = currentTerm c" "entry_ok e"
    "contig 0 (entries c @ [e])"
  defines "a' \<equiv> a\<lparr>aLog := (aLog a)(i := aLog a i @ [e]), aLead := (aLead a)(aTerm a i \<mapsto> (i, aLog a i @ [e]))\<rparr>"
  shows "moves ms i a a'"
proof -
  note d = csimD [OF assms(1)]
  have "wf_log (aLog a i)" by (rule log_wf [OF assms(2)])
  then have "wf_log (aLog a i @ [e])" using d(4) assms(6,7) by (simp add: wf_log_def)
  then have "wf_lead a'" using assms(2) by (auto simp: a'_def good_abs_def wf_lead_def)
  moreover have "astep ms a a'" unfolding a'_def by (rule astep.append [OF assms(3)]) (use d(1,3) assms(4,5) in simp_all)
  moreover have "touches i a a'" by (simp add: a'_def touches_def)
  ultimately show ?thesis by (intro moves_one)
qed

lemma leader_append:
  assumes "csim ms i a b c" "good_abs ms a" "i \<in> set ms" "role c = leader" "length (entries c) + 1 < 2 ^ 64"
    "eTerm e = currentTerm c" "eIndex e = lastLogIndex c + 1" "entry_ok e" "storeAppend [e] c = (r, c')"
  shows "r \<noteq> None \<Longrightarrow> halted i a c'"
    "r = None \<Longrightarrow> \<exists>a'. moves ms i a a' \<and> csim ms i a' b (c'\<lparr>entries := entries c' @ [e]\<rparr>)"
    "c' = c\<lparr>store := store c', disk := disk c'\<rparr>"
proof -
  note d = csimD [OF assms(1)] and o = one_fits [OF csimD(19) [OF assms(1)] assms(7,5)]
  have ok: "\<forall>x \<in> set [e]. entry_ok x" using assms(8) by simp
  note s = storeAppend_files [OF assms(1,9) o(2) ok]
  show keep: "c' = c\<lparr>store := store c', disk := disk c'\<rparr>" by (rule s(2))
  show "halted i a c'" if "r \<noteq> None"
  proof -
    have wf: "wf_log (entries c @ [e])" using log_wf [OF assms(2), of i] d(4) assms(8) o(4) by (simp add: wf_log_def)
    have "\<exists>es. log_disk (crash k (disk c')) (dirOf c) 0 es \<and> pend i a es" for k
    proof -
      obtain j where j: "j \<le> length [e]" "log_disk (crash k (disk c')) (dirOf c) 0 (supersede 0 (entries c) (take j [e]))"
        using s(5) [of k] by blast
      then consider "j = 0" | "j = 1" by fastforce
      then have "pend i a (supersede 0 (entries c) (take j [e]))"
      proof cases
        case 1
        then show ?thesis using d(4) by (simp add: pend_def supersede_def)
      next
        case 2
        then show ?thesis using d(1,3,4) assms(4,6) wf o(3) by (auto simp: pend_def)
      qed
      then show ?thesis using j(2) by blast
    qed
    moreover have "state_holds (disk c') (dirOf c) (aTerm a i) (aVote a i)" using s(3) d(1,2) by simp
    then have "\<exists>t v. state_holds (disk c') (dirOf c) t v \<and> tv_le (aTerm a i, aVote a i) (t, v)" using tv_le_refl by blast
    moreover have "cfg c' = cfg c" by (rule arg_cong [OF keep, of cfg, simplified])
    ultimately show ?thesis unfolding halted_def using s(4) d(5) by simp
  qed
  show "\<exists>a'. moves ms i a a' \<and> csim ms i a' b (c'\<lparr>entries := entries c' @ [e]\<rparr>)" if "r = None"
  proof -
    define a' where "a' = a\<lparr>aLog := (aLog a)(i := aLog a i @ [e]), aLead := (aLead a)(aTerm a i \<mapsto> (i, aLog a i @ [e]))\<rparr>"
    have mv: "moves ms i a a'" unfolding a'_def by (rule append_move [OF assms(1-4,6,8) o(4)])
    note f = moves_facts [OF mv assms(2)]
    obtain st s' where st: "c' = c\<lparr>store := st, disk := s'\<rparr>" using keep by blast
    then have s'_def: "s' = disk c'" and "st = store c" using s(1) [OF that] by simp_all
    then have c': "c' = c\<lparr>disk := s'\<rparr>" using st by simp
    have lr: "log_rep s' (dirOf c) 0 (entries c @ [e])" using s(1) [OF that] o(3) by (simp add: s'_def)
    have sh: "state_holds s' (dirOf c) (currentTerm c) (votedFor c)" "lookup s' (dirOf c, raftSnapFileName) = None"
      using s(3,4) by (simp_all add: s'_def)
    have g: "good (c'\<lparr>entries := entries c' @ [e]\<rparr>)" using d(6,20) sh(1) by (simp add: c' good_def)
    have del: "delivered_ok ms a' b c" using d(15) f centry_later by (simp add: delivered_ok_def) blast
    have ld: "leading_ok ms a' (c'\<lparr>entries := entries c' @ [e]\<rparr>)"
      using d(17) [OF assms(4)] by (fastforce simp: leading_ok_def c' a'_def)
    have cm: "commit_ok ms a' (currentTerm c) (unat (commitIndex c))" using commit_ok_later [OF d(13)] f by blast
    have out: "\<forall>ob \<in> set (outbox c). msg_ok ms a' i ob" using d(18) f msg_ok_later by blast
    have "csim ms i a' b (c'\<lparr>entries := entries c' @ [e]\<rparr>)"
      unfolding csim_def using g del ld cm out lr d(1-5,7,10-12,14) sh(2) assms(4) by (simp add: c' a'_def delivered_ok_def)
    then show ?thesis using mv by blast
  qed
qed

end
