(* ===== verification/Spec2Isabelle.thy ===== *)
theory Spec2Isabelle
  imports Durability RaftVotes KVServer KVService Sharding ServerMain Transport Cli Workload Proxy ClusterRuns RaftSteps
begin

text \<open>A verification development of the raftKV repository.\<close>

end
